(* ===== verification/Prelude.thy ===== *)
theory Prelude
  imports Main "HOL-Library.Word" "HOL-Library.Monad_Syntax"
begin

unbundle bit_operations_syntax

text \<open>
  Shared vocabulary of the development: the machine types of the C sources, big-endian
  byte strings, and the facts about words and lists that the component theories use.

  A C buffer \<open>(const uint8_t* p, size_t n)\<close> that is only read is a byte list (\<open>n\<close> is its
  length); \<open>p + off\<close> is \<open>drop off\<close>. A buffer that is filled from its start through a write
  offset is the list of the bytes written so far (its length is the offset), next to the
  capacity. A \<open>size_t\<close> that measures a buffer is a \<open>nat\<close>; every other machine integer keeps
  its width as a word.
\<close>

section \<open>Machine types\<close>

type_synonym byte = "8 word"
type_synonym bytes = "byte list"
type_synonym u16 = "16 word"
type_synonym u32 = "32 word"
type_synonym u64 = "64 word"

text \<open>The C cast \<open>(uint8_t)w\<close> keeps the low eight bits.\<close>

abbreviation u8 :: "'a::len word \<Rightarrow> byte" where
  "u8 w \<equiv> ucast w"

text \<open>
  \<open>codec_defs\<close> collects the definitions that the round-trip proofs unfold, \<open>buf_simps\<close> the
  rewrite rules on buffers.
\<close>

named_theorems codec_defs "definitions of encoders and decoders"
named_theorems buf_simps "rewrite rules on buffers and offsets"

text \<open>The value of a big-endian byte string, and the shift-and-or loop that reads one.\<close>

definition be_nat :: "bytes \<Rightarrow> nat" where
  "be_nat bs = foldl (\<lambda>x b. x * 256 + unat b) 0 bs"

definition be_fold :: "u64 \<Rightarrow> bytes \<Rightarrow> u64" where
  "be_fold x bs = foldl (\<lambda>x b. push_bit 8 x OR ucast b) x bs"

section \<open>Words\<close>

lemma byte_eqI:
  fixes a b :: byte
  assumes "bit a 0 = bit b 0" "bit a 1 = bit b 1" "bit a 2 = bit b 2" "bit a 3 = bit b 3"
    "bit a 4 = bit b 4" "bit a 5 = bit b 5" "bit a 6 = bit b 6" "bit a 7 = bit b 7"
  shows "a = b"
proof (rule bit_word_eqI)
  fix n assume "n < LENGTH(8)"
  then have "n = 0 \<or> n = 1 \<or> n = 2 \<or> n = 3 \<or> n = 4 \<or> n = 5 \<or> n = 6 \<or> n = 7"
    by simp arith
  then show "bit a n = bit b n" using assms by (elim disjE) simp_all
qed

lemma unat_byte_lt [simp]: "unat (b :: byte) < 256"
  using unsigned_less[of b, where 'a = nat] by simp

lemma unat_u64_lt: "unat (v :: u64) < 2 ^ 64"
  using unsigned_less[of v, where 'a = nat] by simp

lemma unat_shift_byte:
  "unat (ucast (drop_bit k v) :: byte) = unat (v :: u64) div 2 ^ k mod 256"
  by (simp add: unsigned_ucast_eq take_bit_eq_mod unat_drop_bit_eq drop_bit_eq_div[where 'a = nat] del: drop_bit_eq_div)

lemma ucast_byte_nat [simp]: "unat (ucast (b :: byte) :: u64) = unat b"
proof -
  have "unat b < 2 ^ 64" by (rule less_trans [OF unat_byte_lt]) simp
  then show ?thesis by (simp add: unsigned_ucast_eq take_bit_eq_mod)
qed

lemma digit_lt: "x < P \<Longrightarrow> d < 256 \<Longrightarrow> x * 256 + d < P * (256 :: nat)"
proof -
  assume "x < P" and d: "d < 256"
  then have "Suc x * 256 \<le> P * 256" by (intro mult_le_mono1) simp
  with d show ?thesis by simp
qed

lemma push8_or_nat:
  fixes x :: u64 and b :: byte
  assumes "unat x < 2 ^ 56"
  shows "unat (push_bit 8 x OR ucast b) = unat x * 256 + unat b"
proof -
  have "push_bit 8 x AND (ucast b :: u64) = 0"
    by (rule bit_word_eqI) (auto simp: bit_simps dest: bit_imp_le_length)
  then have eq: "push_bit 8 x OR (ucast b :: u64) = push_bit 8 x + ucast b"
    by (simp add: disjunctive_add_eq_or)
  have m: "unat (push_bit 8 x) = unat x * 256"
    using assms by (simp add: push_bit_eq_mult unat_word_ariths)
  have "unat x * 256 + unat b < 2 ^ 56 * 256"
    by (rule digit_lt [OF assms unat_byte_lt])
  then show ?thesis unfolding eq by (simp add: unat_word_ariths m)
qed

lemma unat_and_3f: "unat (b AND 0x3f :: byte) = unat b mod 64"
proof -
  have "b AND 0x3f = take_bit 6 b" by (simp add: take_bit_eq_mask mask_eq_exp_minus_1)
  then show ?thesis by (simp add: take_bit_eq_mod unat_mod_distrib)
qed

lemma word_eqI_unat: "unat v = unat w \<Longrightarrow> v = w"
  by (simp add: word_eq_iff_unsigned [where 'a = nat])

section \<open>Big-endian byte strings\<close>

lemma be_foldl_split: "foldl (\<lambda>x b. x * 256 + unat b) h bs = h * 256 ^ length bs + be_nat bs"
proof (induction bs rule: rev_induct)
  case Nil
  then show ?case by (simp add: be_nat_def)
next
  case (snoc b bs)
  then show ?case by (simp add: be_nat_def algebra_simps)
qed

lemma be_nat_Nil [simp]: "be_nat [] = 0"
  by (simp add: be_nat_def)

lemma be_nat_Cons [simp]: "be_nat (b # bs) = unat b * 256 ^ length bs + be_nat bs"
  using be_foldl_split [of "unat b" bs] by (simp add: be_nat_def)

lemma be_nat_append: "be_nat (xs @ ys) = be_nat xs * 256 ^ length ys + be_nat ys"
  by (induction xs) (simp_all add: algebra_simps power_add)

lemma be_nat_lt: "be_nat bs < 256 ^ length bs"
proof (induction bs)
  case Nil
  then show ?case by simp
next
  case (Cons b bs)
  have "Suc (unat b) * 256 ^ length bs \<le> 256 * 256 ^ length bs"
    by (rule mult_le_mono1) (use unat_byte_lt [of b] in linarith)
  with Cons.IH show ?case by (simp only: be_nat_Cons length_Cons power_Suc mult_Suc)
qed

lemma be_fold_nat:
  assumes "unat x < 2 ^ (64 - 8 * length bs)" "length bs \<le> 8"
  shows "unat (be_fold x bs) = unat x * 256 ^ length bs + be_nat bs"
  using assms
proof (induction bs arbitrary: x)
  case Nil
  then show ?case by (simp add: be_fold_def)
next
  case (Cons b bs)
  let ?y = "push_bit 8 x OR (ucast b :: u64)"
  have len: "length bs \<le> 7" using Cons.prems by simp
  have "(2::nat) ^ (64 - 8 * length (b # bs)) \<le> 2 ^ 56"
    by (rule power_increasing) auto
  with Cons.prems(1) have x56: "unat x < 2 ^ 56" by linarith
  have y: "unat ?y = unat x * 256 + unat b" by (rule push8_or_nat [OF x56])
  have "64 - 8 * length bs = (64 - 8 * length (b # bs)) + 8" using len by simp
  then have e: "(2::nat) ^ (64 - 8 * length bs) = 2 ^ (64 - 8 * length (b # bs)) * 256"
    by (simp only: power_add) simp
  have "unat ?y < 2 ^ (64 - 8 * length bs)"
    unfolding y e by (rule digit_lt [OF Cons.prems(1) unat_byte_lt])
  from Cons.IH [OF this] len y show ?case by (simp add: be_fold_def algebra_simps)
qed

lemma be_digits:
  "foldl (\<lambda>x b. x * 256 + b) h (map (\<lambda>i. v div 256 ^ i mod 256) (rev [0..<n]))
     = h * 256 ^ n + v mod (256 :: nat) ^ n"
proof (induction n arbitrary: h)
  case 0
  then show ?case by simp
next
  case (Suc n)
  have "v mod 256 ^ Suc n = 256 ^ n * (v div 256 ^ n mod 256) + v mod 256 ^ n"
    by (simp only: power_Suc2 mod_mult2_eq)
  then have "h * 256 ^ Suc n + v mod 256 ^ Suc n
      = (h * 256 + v div 256 ^ n mod 256) * 256 ^ n + v mod 256 ^ n"
    by (simp add: algebra_simps)
  then show ?case using Suc.IH [of "h * 256 + v div 256 ^ n mod 256"] by simp
qed

lemma mod_digits: "m < B \<Longrightarrow> (h * B + m) mod (k * B) = h mod k * B + (m :: nat)"
proof -
  assume m: "m < B"
  have "(h * B + m) mod (B * k) = B * ((h * B + m) div B mod k) + (h * B + m) mod B"
    by (rule mod_mult2_eq)
  also have "(h * B + m) div B = h" using m by simp
  also have "(h * B + m) mod B = m" using m by simp
  finally show ?thesis by (simp add: mult.commute)
qed

section \<open>Lists and buffers\<close>

lemma drop_length_append [buf_simps]: "drop (length xs) (xs @ ys) = ys"
  by simp

lemma drop_add_append [buf_simps]: "drop (length xs + n) (xs @ ys) = drop n ys"
  by simp

lemma take_drop_append [buf_simps]:
  "n \<le> length ys \<Longrightarrow> take n (drop (length xs) (xs @ ys @ zs)) = take n ys"
  by simp

end
