(* ===== verification/Codec.thy ===== *)
theory Codec
  imports Prelude
begin

text \<open>
  The interface of a self-delimiting byte codec. Several components encode values into a
  byte buffer and read them back from the front of a longer one: the QUIC variable-length
  integers, the QUIC frames, the HTTP/3 frames and the QPACK prefix integers. The locale
  states what their clients rely on: an encoding is read back exactly, whatever follows it,
  and a successful read stays within its input and makes progress.
\<close>

section \<open>The interface\<close>

locale prefix_codec =
  fixes enc :: "'a \<Rightarrow> bytes option"
    and dec :: "bytes \<Rightarrow> ('a \<times> nat) option"
  assumes enc_dec: "enc x = Some bs \<Longrightarrow> dec (bs @ rest) = Some (x, length bs)"
    and dec_within: "dec inp = Some (x, n) \<Longrightarrow> 0 < n \<and> n \<le> length inp"
begin

lemma enc_nonempty: "enc x = Some bs \<Longrightarrow> bs \<noteq> []"
  using enc_dec [of x bs "[]"] dec_within [of bs x "length bs"] by auto

lemma dec_nil: "dec [] = None"
proof (cases "dec []")
  case (Some r)
  then show ?thesis using dec_within [of "[]" "fst r" "snd r"] by auto
qed

lemma dec_enc: "enc x = Some bs \<Longrightarrow> dec bs = Some (x, length bs)"
  using enc_dec [of x bs "[]"] by simp

text \<open>Encodings are uniquely readable: two encodings followed by anything agree.\<close>

lemma enc_prefix_free:
  assumes "enc x = Some bs" "enc y = Some cs" "bs @ r = cs @ s"
  shows "x = y \<and> bs = cs \<and> r = s"
proof -
  have "Some (x, length bs) = Some (y, length cs)"
    using enc_dec [OF assms(1), of r] enc_dec [OF assms(2), of s] assms(3) by simp
  then show ?thesis using assms(3) by auto
qed

text \<open>Reading at an offset, as the C decoders do with \<open>in + off\<close>.\<close>

lemma dec_at:
  assumes "enc x = Some bs"
  shows "dec (drop (length pre) (pre @ bs @ rest)) = Some (x, length bs)"
  using enc_dec [OF assms] by simp

end

section \<open>Runs of items\<close>

text \<open>
  Reading items back to back until the input is used up; \<open>None\<close> when an item cannot be read.
  The bound is the number of bytes left: each item uses at least one.
\<close>

function dec_all :: "(bytes \<Rightarrow> ('a \<times> nat) option) \<Rightarrow> bytes \<Rightarrow> 'a list option" where
  "dec_all d inp =
     (if inp = [] then Some []
      else case d inp of
        None \<Rightarrow> None
      | Some (x, n) \<Rightarrow>
          if n = 0 then None
          else map_option (\<lambda>xs. x # xs) (dec_all d (drop n inp)))"
  by pat_completeness auto
termination
  by (relation "measure (\<lambda>(d, inp). length inp)") auto

declare dec_all.simps [simp del]

fun enc_all :: "('a \<Rightarrow> bytes option) \<Rightarrow> 'a list \<Rightarrow> bytes option" where
  "enc_all e [] = Some []"
| "enc_all e (x # xs) = do { bs \<leftarrow> e x; cs \<leftarrow> enc_all e xs; Some (bs @ cs) }"

context prefix_codec
begin

lemma dec_all_enc_all: "enc_all enc xs = Some bs \<Longrightarrow> dec_all dec bs = Some xs"
proof (induction xs arbitrary: bs)
  case Nil
  then show ?case by (simp add: dec_all.simps)
next
  case (Cons x xs)
  then obtain b c where b: "enc x = Some b" and c: "enc_all enc xs = Some c" and bs: "bs = b @ c"
    by (auto simp: Option.bind_eq_Some_conv)
  have "b \<noteq> []" using b by (rule enc_nonempty)
  then show ?case
    using enc_dec [OF b, of c] Cons.IH [OF c] bs by (simp add: dec_all.simps [of dec "b @ c"])
qed

end

end
