(* ===== verification/Varint.thy ===== *)
theory Varint
  imports Codec
begin

text \<open>
  QUIC variable-length integers: \<open>userspace/quic/varint.c\<close>. An encoder that fails (return
  value 0) is \<open>None\<close>; otherwise the result is the bytes written. A decoder returns the value
  and the number of bytes read. The theory interprets the codec interface.
\<close>

section \<open>Definitions\<close>

definition QUIC_VARINT_MAX :: u64 where
  "QUIC_VARINT_MAX = 0x3fffffffffffffff"

definition quic_varint_size :: "u64 \<Rightarrow> nat" where
  "quic_varint_size v =
     (if v \<le> 0x3f then 1
      else if v \<le> 0x3fff then 2
      else if v \<le> 0x3fffffff then 4
      else if v \<le> QUIC_VARINT_MAX then 8
      else 0)"

definition quic_varint_encode :: "nat \<Rightarrow> u64 \<Rightarrow> bytes option" where
  "quic_varint_encode out_cap v =
     (let n = quic_varint_size v in
      if n = 0 \<or> n > out_cap then None
      else if n = 1 then Some [u8 v]
      else if n = 2 then Some [u8 (0x40 OR (drop_bit 8 v AND 0x3f)), u8 v]
      else if n = 4 then
        Some [u8 (0x80 OR (drop_bit 24 v AND 0x3f)), u8 (drop_bit 16 v),
              u8 (drop_bit 8 v), u8 v]
      else
        Some [u8 (0xc0 OR (drop_bit 56 v AND 0x3f)), u8 (drop_bit 48 v),
              u8 (drop_bit 40 v), u8 (drop_bit 32 v), u8 (drop_bit 24 v),
              u8 (drop_bit 16 v), u8 (drop_bit 8 v), u8 v])"

definition quic_varint_decode :: "bytes \<Rightarrow> (u64 \<times> nat) option" where
  "quic_varint_decode inp =
     (if inp = [] then None
      else let prefix = unat (drop_bit 6 (inp ! 0) AND 3);
               n = 2 ^ prefix
           in if length inp < n then None
              else Some (be_fold (ucast (inp ! 0 AND 0x3f)) (take (n - 1) (drop 1 inp)), n))"

section \<open>Encoding\<close>

lemma quic_varint_size_nat:
  "quic_varint_size v =
     (if unat v < 64 then 1 else if unat v < 16384 then 2
      else if unat v < 1073741824 then 4 else if unat v < 2 ^ 62 then 8 else 0)"
  by (simp add: quic_varint_size_def QUIC_VARINT_MAX_def word_le_nat_alt)

lemma quic_varint_encode_SomeD:
  assumes "quic_varint_encode cap v = Some bs"
  shows "length bs = quic_varint_size v" "length bs \<le> cap" "0 < length bs" "unat v < 2 ^ 62"
  using assms
  by (auto simp: quic_varint_encode_def quic_varint_size_nat Let_def split: if_splits)

lemma quic_varint_encode_iff:
  "(\<exists>bs. quic_varint_encode cap v = Some bs) \<longleftrightarrow> unat v < 2 ^ 62 \<and> quic_varint_size v \<le> cap"
  by (auto simp: quic_varint_encode_def quic_varint_size_nat Let_def)

text \<open>More room never changes an encoding.\<close>

lemma quic_varint_encode_cap:
  "quic_varint_encode cap v = Some bs \<Longrightarrow> length bs \<le> cap' \<Longrightarrow> quic_varint_encode cap' v = Some bs"
  using quic_varint_encode_SomeD(1) [of cap v bs]
  by (auto simp: quic_varint_encode_def Let_def split: if_splits)

section \<open>Decoding what was encoded\<close>

lemma prefix_byte:
  fixes w :: u64
  shows "drop_bit 6 (u8 (0x40 OR (w AND 0x3f))) AND 3 = 1"
    "drop_bit 6 (u8 (0x80 OR (w AND 0x3f))) AND 3 = 2"
    "drop_bit 6 (u8 (0xc0 OR (w AND 0x3f))) AND 3 = 3"
    "u8 (0x40 OR (w AND 0x3f)) AND 0x3f = u8 w AND 0x3f"
    "u8 (0x80 OR (w AND 0x3f)) AND 0x3f = u8 w AND 0x3f"
    "u8 (0xc0 OR (w AND 0x3f)) AND 0x3f = u8 w AND 0x3f"
  by (rule byte_eqI; simp add: bit_simps bit_numeral_rec)+

text \<open>The shift-and-or loop puts the bytes of the encoder back together.\<close>

lemma varint_tail:
  assumes "unat v < 64 * 256 ^ n" "n \<le> 7"
    and "bs = map (\<lambda>i. u8 (drop_bit (8 * i) v)) (rev [0..<n])"
  shows "be_fold (ucast (u8 (drop_bit (8 * n) v) AND 0x3f)) bs = v"
proof -
  let ?h = "ucast (u8 (drop_bit (8 * n) v) AND 0x3f) :: u64"
  have e: "(2::nat) ^ (8 * i) = 256 ^ i" for i by (simp add: power_mult)
  have h: "unat ?h = unat v div 256 ^ n mod 64"
    by (simp add: unat_and_3f unat_shift_byte e mod_mod_cancel)
  have "unat v div 256 ^ n < 64"
    using assms(1) by (simp add: less_mult_imp_div_less)
  then have h': "unat ?h = unat v div 256 ^ n" using h by simp
  have "unat ?h < 2 ^ 6" using h by simp
  also have "(2::nat) ^ 6 \<le> 2 ^ (64 - 8 * length bs)"
    using assms(2,3) by (intro power_increasing) auto
  finally have "unat (be_fold ?h bs) = unat ?h * 256 ^ length bs + be_nat bs"
    by (rule be_fold_nat) (use assms in simp)
  also have "\<dots> = foldl (\<lambda>x b. x * 256 + b) (unat ?h) (map unat bs)"
    by (simp add: be_foldl_split [symmetric] foldl_map)
  also have "map unat bs = map (\<lambda>i. unat v div 256 ^ i mod 256) (rev [0..<n])"
    using assms(3) by (simp add: unat_shift_byte e)
  also have "foldl (\<lambda>x b. x * 256 + b) (unat ?h) \<dots> = unat v"
    by (simp only: be_digits h') (simp add: div_mult_mod_eq)
  finally show ?thesis by (rule word_eqI_unat)
qed

lemma varint_bytes_map:
  "[u8 v] = map (\<lambda>i. u8 (drop_bit (8 * i) v)) (rev [0..<1])"
  "[u8 (drop_bit 16 v), u8 (drop_bit 8 v), u8 v]
     = map (\<lambda>i. u8 (drop_bit (8 * i) v)) (rev [0..<3])"
  "[u8 (drop_bit 48 v), u8 (drop_bit 40 v), u8 (drop_bit 32 v), u8 (drop_bit 24 v),
    u8 (drop_bit 16 v), u8 (drop_bit 8 v), u8 v]
     = map (\<lambda>i. u8 (drop_bit (8 * i) v)) (rev [0..<7])"
  for v :: u64
  by (simp_all add: upt_rec numeral_eq_Suc)

lemma varint_small_prefix:
  assumes "unat (v :: u64) < 64"
  shows "drop_bit 6 (u8 v) AND 3 = 0"
proof -
  have "unat (u8 v) = unat v" using assms unat_shift_byte [of 0 v] by simp
  then have "unat (drop_bit 6 (u8 v)) = 0"
    using assms by (simp add: drop_bit_eq_div unat_div_distrib)
  then show ?thesis by (simp add: unat_eq_zero)
qed

lemma quic_varint_roundtrip:
  assumes enc: "quic_varint_encode cap v = Some bs"
  shows "quic_varint_decode (bs @ rest) = Some (v, length bs)"
proof -
  note enc' = enc [unfolded quic_varint_encode_def quic_varint_size_nat Let_def]
  consider (1) "unat v < 64" | (2) "64 \<le> unat v" "unat v < 16384"
    | (4) "16384 \<le> unat v" "unat v < 1073741824"
    | (8) "1073741824 \<le> unat v" "unat v < 2 ^ 62"
    using quic_varint_encode_SomeD(4) [OF enc] by linarith
  then show ?thesis
  proof cases
    case 1
    with enc' have "bs = [u8 v]" by (simp split: if_splits)
    then show ?thesis using varint_tail [of v 0 "[]"] varint_small_prefix [OF 1] 1
      by (simp add: quic_varint_decode_def)
  next
    case 2
    with enc' show ?thesis using varint_tail [of v 1, OF _ _ varint_bytes_map(1)]
      by (auto simp: quic_varint_decode_def prefix_byte split: if_splits)
  next
    case 4
    with enc' show ?thesis using varint_tail [of v 3, OF _ _ varint_bytes_map(2)]
      by (auto simp: quic_varint_decode_def prefix_byte split: if_splits)
  next
    case 8
    with enc' show ?thesis using varint_tail [of v 7, OF _ _ varint_bytes_map(3)]
      by (auto simp: quic_varint_decode_def prefix_byte split: if_splits)
  qed
qed

section \<open>Decoding arbitrary input\<close>

lemma varint_prefix_lt4: "unat (drop_bit 6 (b :: byte) AND 3) < 4"
proof -
  have "unat (drop_bit 6 b AND 3) \<le> unat (3 :: byte)"
    by (rule word_le_nat_alt [THEN iffD1]) (rule word_and_le1)
  then show ?thesis by simp
qed

lemma quic_varint_decode_SomeD:
  assumes "quic_varint_decode inp = Some (v, n)"
  shows "n \<in> {1, 2, 4, 8}" "n \<le> length inp" "0 < n"
    and "unat v = be_nat (take n inp) mod 2 ^ (8 * n - 2)"
proof -
  let ?p = "unat (drop_bit 6 (inp ! 0) AND 3)"
  from assms have ne: "inp \<noteq> []" and n: "n = 2 ^ ?p" and len: "n \<le> length inp"
    and v: "v = be_fold (ucast (inp ! 0 AND 0x3f)) (take (n - 1) (drop 1 inp))"
    by (auto simp: quic_varint_decode_def Let_def split: if_splits)
  have "?p = 0 \<or> ?p = 1 \<or> ?p = 2 \<or> ?p = 3" using varint_prefix_lt4 [of "inp ! 0"] by arith
  then show n4: "n \<in> {1, 2, 4, 8}" unfolding n by auto
  show "n \<le> length inp" "0 < n" using len n by simp_all
  let ?t = "take (n - 1) (drop 1 inp)"
  have t: "length ?t = n - 1" using len n4 by auto
  have "unat (ucast (inp ! 0 AND 0x3f) :: u64) < 2 ^ 6" by (simp add: unat_and_3f)
  also have "(2::nat) ^ 6 \<le> 2 ^ (64 - 8 * length ?t)"
    unfolding t using n4 by (intro power_increasing) auto
  finally have "unat v = unat (inp ! 0) mod 64 * 256 ^ (n - 1) + be_nat ?t"
    unfolding v using be_fold_nat [of _ ?t] t n4 by (auto simp: unat_and_3f)
  also have "\<dots> = (unat (inp ! 0) * 256 ^ (n - 1) + be_nat ?t) mod (64 * 256 ^ (n - 1))"
    using be_nat_lt [of ?t] unfolding t by (rule mod_digits [symmetric])
  also have "unat (inp ! 0) * 256 ^ (n - 1) + be_nat ?t = be_nat (inp ! 0 # ?t)"
    using t by simp
  also have "inp ! 0 # ?t = take n inp"
    using ne n4 by (cases inp) (auto simp: take_Cons')
  also have "64 * 256 ^ (n - 1) = (2::nat) ^ (8 * n - 2)" using n4 by auto
  finally show "unat v = be_nat (take n inp) mod 2 ^ (8 * n - 2)" .
qed

lemma quic_varint_decode_lt:
  assumes "quic_varint_decode inp = Some (v, n)"
  shows "unat v < 2 ^ 62"
proof -
  have "unat v < 2 ^ (8 * n - 2)" using quic_varint_decode_SomeD(4) [OF assms] by simp
  also have "(2::nat) ^ (8 * n - 2) \<le> 2 ^ 62"
    using quic_varint_decode_SomeD(1) [OF assms] by (intro power_increasing) auto
  finally show ?thesis .
qed

text \<open>The encoder is minimal: no accepted encoding of a value is shorter.\<close>

lemma quic_varint_minimal:
  assumes "quic_varint_decode inp = Some (v, n)"
  shows "quic_varint_size v \<le> n"
proof -
  have "unat v < 2 ^ (8 * n - 2)" using quic_varint_decode_SomeD(4) [OF assms] by simp
  then show ?thesis using quic_varint_decode_SomeD(1) [OF assms]
    by (auto simp: quic_varint_size_nat)
qed

lemma quic_varint_decode_append:
  assumes "quic_varint_decode inp = Some (v, n)"
  shows "quic_varint_decode (inp @ rest) = Some (v, n)"
proof -
  have "n \<le> length inp" "0 < n" using quic_varint_decode_SomeD [OF assms] by simp_all
  then show ?thesis using assms
    by (cases inp) (auto simp: quic_varint_decode_def Let_def split: if_splits)
qed

lemma quic_varint_decode_None_iff:
  "quic_varint_decode inp = None \<longleftrightarrow>
     inp = [] \<or> length inp < 2 ^ unat (drop_bit 6 (inp ! 0) AND 3)"
  by (simp add: quic_varint_decode_def Let_def)

section \<open>The codec interface\<close>

interpretation varint: prefix_codec "quic_varint_encode cap" quic_varint_decode
  by unfold_locales (auto intro: quic_varint_roundtrip quic_varint_decode_SomeD)

section \<open>Properties\<close>

text \<open>
  The encoder fails exactly when the value exceeds 2^62 - 1 or its encoding does not fit;
  otherwise it writes the shortest form, and decoding that, whatever follows it, gives back the
  value and the number of bytes written.
\<close>

lemma varint_roundtrip:
  "(quic_varint_encode cap v = None \<longleftrightarrow> QUIC_VARINT_MAX < v \<or> cap < quic_varint_size v)
   \<and> (\<forall>bs rest. quic_varint_encode cap v = Some bs \<longrightarrow>
        length bs = quic_varint_size v \<and> quic_varint_decode (bs @ rest) = Some (v, length bs))"
proof -
  have "QUIC_VARINT_MAX < v \<longleftrightarrow> \<not> unat v < 2 ^ 62"
    by (auto simp: QUIC_VARINT_MAX_def word_less_nat_alt)
  then have "quic_varint_encode cap v = None \<longleftrightarrow> QUIC_VARINT_MAX < v \<or> cap < quic_varint_size v"
    using quic_varint_encode_iff [of cap v] by (cases "quic_varint_encode cap v") (simp_all add: not_le)
  then show ?thesis using quic_varint_encode_SomeD(1) quic_varint_roundtrip by blast
qed

text \<open>
  The decoder reads 1, 2, 4 or 8 bytes, never beyond the input; the value is the
  big-endian number in those bytes without the two prefix bits, so it is below 2^62, and the
  encoder would not need more bytes for it.
\<close>

lemma varint_decode_spec:
  assumes "quic_varint_decode inp = Some (v, n)"
  shows "n \<in> {1, 2, 4, 8} \<and> n \<le> length inp \<and> unat v = be_nat (take n inp) mod 2 ^ (8 * n - 2)
    \<and> v \<le> QUIC_VARINT_MAX \<and> quic_varint_size v \<le> n"
  using quic_varint_decode_SomeD [OF assms] quic_varint_decode_lt [OF assms] quic_varint_minimal [OF assms]
  by (simp add: QUIC_VARINT_MAX_def word_le_nat_alt)

end
