(* ===== verification/Frames.thy ===== *)
theory Frames
  imports Varint
begin

text \<open>
  The QUIC frame codec: \<open>userspace/quic/frames.c\<close> and \<open>frames.h\<close>. The tagged union
  \<open>quic_frame_t\<close> is a datatype; a view \<open>(pointer, length)\<close> into the input keeps both the
  declared length and the bytes it points at. The decoder returns the frame and the number of
  bytes used, or reports an empty input or a parse error, as the C return values 0 and
  \<open>QUIC_FRAME_DECODE_ERROR\<close> do. Encoders thread the bytes written so far.
\<close>

section \<open>Data\<close>

datatype quic_frame_type =
    FT_PADDING | FT_PING | FT_ACK | FT_ACK_ECN | FT_RESET_STREAM | FT_STOP_SENDING
  | FT_CRYPTO | FT_NEW_TOKEN | FT_STREAM | FT_MAX_DATA | FT_MAX_STREAM_DATA
  | FT_MAX_STREAMS_BIDI | FT_MAX_STREAMS_UNI | FT_DATA_BLOCKED | FT_STREAM_DATA_BLOCK
  | FT_STREAMS_BLOCK_BIDI | FT_STREAMS_BLOCK_UNI | FT_NEW_CONNECTION_ID | FT_RETIRE_CONN_ID
  | FT_PATH_CHALLENGE | FT_PATH_RESPONSE | FT_CONNECTION_CLOSE | FT_CONNECTION_CLOSE_A
  | FT_HANDSHAKE_DONE | FT_UNKNOWN

record quic_frame_ack =
  ack_largest :: u64
  ack_delay :: u64
  ack_range_count :: u64
  ack_first_range :: u64
  ack_ranges_buf :: bytes
  ack_has_ecn :: bool
  ack_ect0 :: u64
  ack_ect1 :: u64
  ack_ce :: u64

record quic_frame_stream =
  st_stream_id :: u64
  st_offset :: u64
  st_length :: u64
  st_fin :: bool
  st_data :: bytes

record quic_frame_close =
  cl_is_app :: bool
  cl_error_code :: u64
  cl_frame_type :: u64
  cl_reason_len :: u64
  cl_reason :: bytes

record quic_frame_new_conn_id =
  nc_seq_no :: u64
  nc_retire_prior_to :: u64
  nc_cid_len :: byte
  nc_cid :: bytes
  nc_stateless_reset_token :: bytes

datatype quic_frame =
    Padding nat
  | Ping
  | Ack quic_frame_ack
  | Reset_Stream u64 u64 u64  \<comment> \<open>stream id, error code, final size\<close>
  | Stop_Sending u64 u64      \<comment> \<open>stream id, error code\<close>
  | Crypto u64 u64 bytes      \<comment> \<open>offset, length, data\<close>
  | New_Token u64 bytes       \<comment> \<open>length, token\<close>
  | Stream quic_frame_stream
  | Max_Data u64
  | Max_Stream_Data u64 u64
  | Max_Streams bool u64      \<comment> \<open>unidirectional?, maximum\<close>
  | Data_Blocked u64
  | Stream_Data_Blocked u64 u64
  | Streams_Blocked bool u64  \<comment> \<open>unidirectional?, limit\<close>
  | New_Connection_Id quic_frame_new_conn_id
  | Retire_Conn_Id u64
  | Path_Challenge bytes
  | Path_Response bytes
  | Close quic_frame_close
  | Handshake_Done
  | Unknown_Frame byte        \<comment> \<open>raw type\<close>

fun frame_type :: "quic_frame \<Rightarrow> quic_frame_type" where
  "frame_type (Padding _) = FT_PADDING"
| "frame_type Ping = FT_PING"
| "frame_type (Ack a) = (if ack_has_ecn a then FT_ACK_ECN else FT_ACK)"
| "frame_type (Reset_Stream _ _ _) = FT_RESET_STREAM"
| "frame_type (Stop_Sending _ _) = FT_STOP_SENDING"
| "frame_type (Crypto _ _ _) = FT_CRYPTO"
| "frame_type (New_Token _ _) = FT_NEW_TOKEN"
| "frame_type (Stream _) = FT_STREAM"
| "frame_type (Max_Data _) = FT_MAX_DATA"
| "frame_type (Max_Stream_Data _ _) = FT_MAX_STREAM_DATA"
| "frame_type (Max_Streams uni _) = (if uni then FT_MAX_STREAMS_UNI else FT_MAX_STREAMS_BIDI)"
| "frame_type (Data_Blocked _) = FT_DATA_BLOCKED"
| "frame_type (Stream_Data_Blocked _ _) = FT_STREAM_DATA_BLOCK"
| "frame_type (Streams_Blocked uni _) =
     (if uni then FT_STREAMS_BLOCK_UNI else FT_STREAMS_BLOCK_BIDI)"
| "frame_type (New_Connection_Id _) = FT_NEW_CONNECTION_ID"
| "frame_type (Retire_Conn_Id _) = FT_RETIRE_CONN_ID"
| "frame_type (Path_Challenge _) = FT_PATH_CHALLENGE"
| "frame_type (Path_Response _) = FT_PATH_RESPONSE"
| "frame_type (Close c) = (if cl_is_app c then FT_CONNECTION_CLOSE_A else FT_CONNECTION_CLOSE)"
| "frame_type Handshake_Done = FT_HANDSHAKE_DONE"
| "frame_type (Unknown_Frame _) = FT_UNKNOWN"

datatype frame_result =
    Frame_Empty                 \<comment> \<open>return value 0\<close>
  | Frame_Error                 \<comment> \<open>\<open>QUIC_FRAME_DECODE_ERROR\<close>\<close>
  | Frame_Ok quic_frame nat     \<comment> \<open>the frame and the bytes consumed\<close>

section \<open>Decoding\<close>

definition read_varint :: "bytes \<Rightarrow> nat \<Rightarrow> (u64 \<times> nat) option" where
  "read_varint inp off =
     (if off \<ge> length inp then None
      else case quic_varint_decode (drop off inp) of
             None \<Rightarrow> None
           | Some (v, n) \<Rightarrow> Some (v, off + n))"

text \<open>A view of \<open>len\<close> bytes at \<open>off\<close>, refused when it does not fit in the input.\<close>

definition read_view :: "bytes \<Rightarrow> nat \<Rightarrow> u64 \<Rightarrow> (bytes \<times> nat) option" where
  "read_view inp off len =
     (if unat len > length inp - off then None
      else Some (take (unat len) (drop off inp), off + unat len))"

text \<open>The run of zero bytes that starts at \<open>off\<close>: \<open>while (off < in_len && in[off] == 0x00)\<close>.\<close>

function skip_zeros :: "bytes \<Rightarrow> nat \<Rightarrow> nat" where
  "skip_zeros inp off =
     (if off < length inp \<and> inp ! off = 0 then skip_zeros inp (Suc off) else off)"
  by pat_completeness auto
termination
  by (relation "measure (\<lambda>(inp, off). length inp - off)") auto

declare skip_zeros.simps [simp del]

text \<open>The loop over the additional gap/length pairs of an ACK frame.\<close>

fun read_ranges :: "nat \<Rightarrow> bytes \<Rightarrow> nat \<Rightarrow> nat option" where
  "read_ranges 0 inp off = Some off"
| "read_ranges (Suc n) inp off = do {
     (gap, off) \<leftarrow> read_varint inp off;
     (len, off) \<leftarrow> read_varint inp off;
     read_ranges n inp off }"

definition decode_ack :: "bool \<Rightarrow> bytes \<Rightarrow> nat \<Rightarrow> (quic_frame \<times> nat) option" where
  "decode_ack ecn inp off = do {
     (largest, off) \<leftarrow> read_varint inp off;
     (delay, off) \<leftarrow> read_varint inp off;
     (range_count, off) \<leftarrow> read_varint inp off;
     (first_range, off) \<leftarrow> read_varint inp off;
     off' \<leftarrow> read_ranges (unat range_count) inp off;
     let a = \<lparr>ack_largest = largest, ack_delay = delay, ack_range_count = range_count,
              ack_first_range = first_range,
              ack_ranges_buf = take (off' - off) (drop off inp),
              ack_has_ecn = False, ack_ect0 = 0, ack_ect1 = 0, ack_ce = 0\<rparr>;
     (if ecn then do {
        (ect0, o1) \<leftarrow> read_varint inp off';
        (ect1, o2) \<leftarrow> read_varint inp o1;
        (ce, o3) \<leftarrow> read_varint inp o2;
        Some (Ack (a\<lparr>ack_has_ecn := True, ack_ect0 := ect0, ack_ect1 := ect1, ack_ce := ce\<rparr>), o3) }
      else Some (Ack a, off')) }"

definition decode_crypto :: "bytes \<Rightarrow> nat \<Rightarrow> (quic_frame \<times> nat) option" where
  "decode_crypto inp off = do {
     (offset, off) \<leftarrow> read_varint inp off;
     (len, off) \<leftarrow> read_varint inp off;
     (data, off) \<leftarrow> read_view inp off len;
     Some (Crypto offset len data, off) }"

definition decode_new_token :: "bytes \<Rightarrow> nat \<Rightarrow> (quic_frame \<times> nat) option" where
  "decode_new_token inp off = do {
     (len, off) \<leftarrow> read_varint inp off;
     (if len = 0 then None
      else do { (token, off) \<leftarrow> read_view inp off len; Some (New_Token len token, off) }) }"

definition decode_stream :: "byte \<Rightarrow> bytes \<Rightarrow> nat \<Rightarrow> (quic_frame \<times> nat) option" where
  "decode_stream t inp off = do {
     let has_off = (t AND 0x04) \<noteq> 0;
     let has_len = (t AND 0x02) \<noteq> 0;
     let fin = (t AND 0x01) \<noteq> 0;
     (sid, off) \<leftarrow> read_varint inp off;
     (offset, off) \<leftarrow> (if has_off then read_varint inp off else Some (0, off));
     (len, off) \<leftarrow> (if has_len then read_varint inp off
                    else Some (word_of_nat (length inp - off), off));
     (data, off) \<leftarrow> (if has_len then read_view inp off len
                     else Some (drop off inp, length inp));
     Some (Stream \<lparr>st_stream_id = sid, st_offset = offset, st_length = len, st_fin = fin,
                   st_data = data\<rparr>, off) }"

definition decode_close :: "bool \<Rightarrow> bytes \<Rightarrow> nat \<Rightarrow> (quic_frame \<times> nat) option" where
  "decode_close is_app inp off = do {
     (error_code, off) \<leftarrow> read_varint inp off;
     (ftype, off) \<leftarrow> (if is_app then Some (0, off) else read_varint inp off);
     (reason_len, off) \<leftarrow> read_varint inp off;
     (reason, off) \<leftarrow> read_view inp off reason_len;
     Some (Close \<lparr>cl_is_app = is_app, cl_error_code = error_code, cl_frame_type = ftype,
                  cl_reason_len = reason_len, cl_reason = reason\<rparr>, off) }"

definition decode_reset_stream :: "bytes \<Rightarrow> nat \<Rightarrow> (quic_frame \<times> nat) option" where
  "decode_reset_stream inp off = do {
     (sid, off) \<leftarrow> read_varint inp off;
     (code, off) \<leftarrow> read_varint inp off;
     (fsize, off) \<leftarrow> read_varint inp off;
     Some (Reset_Stream sid code fsize, off) }"

text \<open>The frames that hold one or two integers only.\<close>

definition decode_v1 :: "(u64 \<Rightarrow> quic_frame) \<Rightarrow> bytes \<Rightarrow> nat \<Rightarrow> (quic_frame \<times> nat) option" where
  "decode_v1 c inp off = do { (a, off) \<leftarrow> read_varint inp off; Some (c a, off) }"

definition decode_v2 :: "(u64 \<Rightarrow> u64 \<Rightarrow> quic_frame) \<Rightarrow> bytes \<Rightarrow> nat \<Rightarrow> (quic_frame \<times> nat) option" where
  "decode_v2 c inp off = do {
     (a, off) \<leftarrow> read_varint inp off;
     (b, off) \<leftarrow> read_varint inp off;
     Some (c a b, off) }"

definition decode_new_conn_id :: "bytes \<Rightarrow> nat \<Rightarrow> (quic_frame \<times> nat) option" where
  "decode_new_conn_id inp off = do {
     (seq_no, off) \<leftarrow> read_varint inp off;
     (retire, off) \<leftarrow> read_varint inp off;
     (if retire > seq_no then None
      else if off \<ge> length inp then None
      else
        let cl = inp ! off; off = Suc off in
        if cl < 1 \<or> cl > 20 then None
        else if unat cl + 16 > length inp - off then None
        else Some (New_Connection_Id
               \<lparr>nc_seq_no = seq_no, nc_retire_prior_to = retire, nc_cid_len = cl,
                nc_cid = take (unat cl) (drop off inp),
                nc_stateless_reset_token = take 16 (drop (off + unat cl) inp)\<rparr>,
               off + unat cl + 16)) }"

definition decode_path :: "(bytes \<Rightarrow> quic_frame) \<Rightarrow> bytes \<Rightarrow> nat \<Rightarrow> (quic_frame \<times> nat) option" where
  "decode_path c inp off =
     (if length inp - off < 8 then None else Some (c (take 8 (drop off inp)), off + 8))"

text \<open>Dispatch on the type byte, in the order of the C function.\<close>

definition decode_body :: "byte \<Rightarrow> bytes \<Rightarrow> (quic_frame \<times> nat) option" where
  "decode_body t inp =
     (if t = 0x00 then
        let off = skip_zeros inp 1 in Some (Padding off, off)
      else if t = 0x01 then Some (Ping, 1)
      else if t = 0x1e then Some (Handshake_Done, 1)
      else if t = 0x02 \<or> t = 0x03 then decode_ack (t = 0x03) inp 1
      else if t = 0x06 then decode_crypto inp 1
      else if t = 0x07 then decode_new_token inp 1
      else if t \<ge> 0x08 \<and> t \<le> 0x0f then decode_stream t inp 1
      else if t = 0x1c \<or> t = 0x1d then decode_close (t = 0x1d) inp 1
      else if t = 0x04 then decode_reset_stream inp 1
      else if t = 0x05 then decode_v2 Stop_Sending inp 1
      else if t = 0x10 then decode_v1 Max_Data inp 1
      else if t = 0x11 then decode_v2 Max_Stream_Data inp 1
      else if t = 0x12 \<or> t = 0x13 then decode_v1 (Max_Streams (t = 0x13)) inp 1
      else if t = 0x14 then decode_v1 Data_Blocked inp 1
      else if t = 0x15 then decode_v2 Stream_Data_Blocked inp 1
      else if t = 0x16 \<or> t = 0x17 then decode_v1 (Streams_Blocked (t = 0x17)) inp 1
      else if t = 0x18 then decode_new_conn_id inp 1
      else if t = 0x19 then decode_v1 Retire_Conn_Id inp 1
      else if t = 0x1a then decode_path Path_Challenge inp 1
      else if t = 0x1b then decode_path Path_Response inp 1
      else Some (Unknown_Frame t, 1))"

definition quic_frame_decode :: "bytes \<Rightarrow> frame_result" where
  "quic_frame_decode inp =
     (if inp = [] then Frame_Empty
      else case decode_body (inp ! 0) inp of
             None \<Rightarrow> Frame_Error
           | Some (f, n) \<Rightarrow> Frame_Ok f n)"

section \<open>Encoding\<close>

definition put_varint :: "nat \<Rightarrow> bytes \<Rightarrow> u64 \<Rightarrow> bytes option" where
  "put_varint cap out v =
     (if length out > cap then None
      else map_option (\<lambda>bs. out @ bs) (quic_varint_encode (cap - length out) v))"

definition put_u8 :: "nat \<Rightarrow> bytes \<Rightarrow> byte \<Rightarrow> bytes option" where
  "put_u8 cap out v = (if length out \<ge> cap then None else Some (out @ [v]))"

text \<open>\<open>if (len > cap - off) return 0; memcpy(out + off, data, len);\<close>\<close>

definition put_data :: "nat \<Rightarrow> bytes \<Rightarrow> bytes \<Rightarrow> bytes option" where
  "put_data cap out data =
     (if length data > cap - length out then None else Some (out @ data))"

definition quic_frame_padding_encode :: "nat \<Rightarrow> nat \<Rightarrow> bytes option" where
  "quic_frame_padding_encode cap n = (if n > cap then None else Some (replicate n 0))"

definition quic_frame_ping_encode :: "nat \<Rightarrow> bytes option" where
  "quic_frame_ping_encode cap = (if cap < 1 then None else Some [0x01])"

definition quic_frame_handshake_done_encode :: "nat \<Rightarrow> bytes option" where
  "quic_frame_handshake_done_encode cap = (if cap < 1 then None else Some [0x1e])"

definition quic_frame_crypto_encode :: "nat \<Rightarrow> u64 \<Rightarrow> bytes \<Rightarrow> bytes option" where
  "quic_frame_crypto_encode cap offset data = do {
     out \<leftarrow> put_u8 cap [] 0x06;
     out \<leftarrow> put_varint cap out offset;
     out \<leftarrow> put_varint cap out (word_of_nat (length data));
     put_data cap out data }"

definition quic_frame_ack_encode :: "nat \<Rightarrow> u64 \<Rightarrow> u64 \<Rightarrow> u64 \<Rightarrow> bytes option" where
  "quic_frame_ack_encode cap largest delay first_range = do {
     out \<leftarrow> put_u8 cap [] 0x02;
     out \<leftarrow> put_varint cap out largest;
     out \<leftarrow> put_varint cap out delay;
     out \<leftarrow> put_varint cap out 0;
     put_varint cap out first_range }"

definition quic_frame_stream_encode ::
    "nat \<Rightarrow> u64 \<Rightarrow> u64 \<Rightarrow> bytes \<Rightarrow> bool \<Rightarrow> bytes option" where
  "quic_frame_stream_encode cap stream_id offset data fin = do {
     let t = 0x08 OR 0x04 OR 0x02 OR (if fin then 0x01 else 0x00);
     out \<leftarrow> put_u8 cap [] t;
     out \<leftarrow> put_varint cap out stream_id;
     out \<leftarrow> put_varint cap out offset;
     out \<leftarrow> put_varint cap out (word_of_nat (length data));
     put_data cap out data }"

definition quic_frame_close_encode ::
    "nat \<Rightarrow> bool \<Rightarrow> u64 \<Rightarrow> u64 \<Rightarrow> bytes \<Rightarrow> bytes option" where
  "quic_frame_close_encode cap is_app error_code ftype reason = do {
     out \<leftarrow> put_u8 cap [] (if is_app then 0x1d else 0x1c);
     out \<leftarrow> put_varint cap out error_code;
     out \<leftarrow> (if is_app then Some out else put_varint cap out ftype);
     out \<leftarrow> put_varint cap out (word_of_nat (length reason));
     put_data cap out reason }"

definition quic_frame_reset_stream_encode :: "nat \<Rightarrow> u64 \<Rightarrow> u64 \<Rightarrow> u64 \<Rightarrow> bytes option" where
  "quic_frame_reset_stream_encode cap stream_id app_error_code final_size = do {
     out \<leftarrow> put_u8 cap [] 0x04;
     out \<leftarrow> put_varint cap out stream_id;
     out \<leftarrow> put_varint cap out app_error_code;
     put_varint cap out final_size }"

definition quic_frame_stop_sending_encode :: "nat \<Rightarrow> u64 \<Rightarrow> u64 \<Rightarrow> bytes option" where
  "quic_frame_stop_sending_encode cap stream_id app_error_code = do {
     out \<leftarrow> put_u8 cap [] 0x05;
     out \<leftarrow> put_varint cap out stream_id;
     put_varint cap out app_error_code }"

definition quic_frame_max_data_encode :: "nat \<Rightarrow> u64 \<Rightarrow> bytes option" where
  "quic_frame_max_data_encode cap maxv = do {
     out \<leftarrow> put_u8 cap [] 0x10;
     put_varint cap out maxv }"

definition quic_frame_max_stream_data_encode :: "nat \<Rightarrow> u64 \<Rightarrow> u64 \<Rightarrow> bytes option" where
  "quic_frame_max_stream_data_encode cap stream_id maxv = do {
     out \<leftarrow> put_u8 cap [] 0x11;
     out \<leftarrow> put_varint cap out stream_id;
     put_varint cap out maxv }"

definition quic_frame_max_streams_encode :: "nat \<Rightarrow> bool \<Rightarrow> u64 \<Rightarrow> bytes option" where
  "quic_frame_max_streams_encode cap uni maxv = do {
     out \<leftarrow> put_u8 cap [] (if uni then 0x13 else 0x12);
     put_varint cap out maxv }"

definition quic_frame_data_blocked_encode :: "nat \<Rightarrow> u64 \<Rightarrow> bytes option" where
  "quic_frame_data_blocked_encode cap limit = do {
     out \<leftarrow> put_u8 cap [] 0x14;
     put_varint cap out limit }"

definition quic_frame_stream_data_blocked_encode :: "nat \<Rightarrow> u64 \<Rightarrow> u64 \<Rightarrow> bytes option" where
  "quic_frame_stream_data_blocked_encode cap stream_id limit = do {
     out \<leftarrow> put_u8 cap [] 0x15;
     out \<leftarrow> put_varint cap out stream_id;
     put_varint cap out limit }"

definition quic_frame_streams_blocked_encode :: "nat \<Rightarrow> bool \<Rightarrow> u64 \<Rightarrow> bytes option" where
  "quic_frame_streams_blocked_encode cap uni limit = do {
     out \<leftarrow> put_u8 cap [] (if uni then 0x17 else 0x16);
     put_varint cap out limit }"

text \<open>A null reset token is written as zeros.\<close>

definition quic_frame_new_conn_id_encode ::
    "nat \<Rightarrow> u64 \<Rightarrow> u64 \<Rightarrow> bytes \<Rightarrow> bytes option \<Rightarrow> bytes option" where
  "quic_frame_new_conn_id_encode cap seq_no retire_prior_to cid stateless_reset_token =
     (if length cid < 1 \<or> length cid > 20 then None
      else if retire_prior_to > seq_no then None
      else do {
        out \<leftarrow> put_u8 cap [] 0x18;
        out \<leftarrow> put_varint cap out seq_no;
        out \<leftarrow> put_varint cap out retire_prior_to;
        out \<leftarrow> put_u8 cap out (word_of_nat (length cid));
        (if length cid + 16 > cap - length out then None
         else Some (out @ cid @
                (case stateless_reset_token of Some tok \<Rightarrow> tok | None \<Rightarrow> replicate 16 0))) })"

definition quic_frame_retire_conn_id_encode :: "nat \<Rightarrow> u64 \<Rightarrow> bytes option" where
  "quic_frame_retire_conn_id_encode cap seq_no = do {
     out \<leftarrow> put_u8 cap [] 0x19;
     put_varint cap out seq_no }"

definition encode_path :: "nat \<Rightarrow> byte \<Rightarrow> bytes \<Rightarrow> bytes option" where
  "encode_path cap t data = (if cap < 9 then None else Some (t # data))"

definition quic_frame_path_challenge_encode :: "nat \<Rightarrow> bytes \<Rightarrow> bytes option" where
  "quic_frame_path_challenge_encode cap data = encode_path cap 0x1a data"

definition quic_frame_path_response_encode :: "nat \<Rightarrow> bytes \<Rightarrow> bytes option" where
  "quic_frame_path_response_encode cap data = encode_path cap 0x1b data"

text \<open>
  The encoder call that writes a given frame. ACK frames are written with one range only
  (\<open>quic_frame_ack_encode\<close>), and there is no encoder for NEW_TOKEN; PADDING is not
  self-delimiting and has its own lemma.
\<close>

fun encode_frame :: "nat \<Rightarrow> quic_frame \<Rightarrow> bytes option" where
  "encode_frame cap Ping = quic_frame_ping_encode cap"
| "encode_frame cap Handshake_Done = quic_frame_handshake_done_encode cap"
| "encode_frame cap (Ack a) =
     (if ack_range_count a = 0 \<and> ack_ranges_buf a = [] \<and> \<not> ack_has_ecn a
         \<and> ack_ect0 a = 0 \<and> ack_ect1 a = 0 \<and> ack_ce a = 0
      then quic_frame_ack_encode cap (ack_largest a) (ack_delay a) (ack_first_range a)
      else None)"
| "encode_frame cap (Crypto off len data) =
     (if unat len = length data then quic_frame_crypto_encode cap off data else None)"
| "encode_frame cap (Stream s) =
     (if unat (st_length s) = length (st_data s)
      then quic_frame_stream_encode cap (st_stream_id s) (st_offset s) (st_data s) (st_fin s)
      else None)"
| "encode_frame cap (Close c) =
     (if unat (cl_reason_len c) = length (cl_reason c) \<and> (cl_is_app c \<longrightarrow> cl_frame_type c = 0)
      then quic_frame_close_encode cap (cl_is_app c) (cl_error_code c) (cl_frame_type c) (cl_reason c)
      else None)"
| "encode_frame cap (Reset_Stream sid code fs) = quic_frame_reset_stream_encode cap sid code fs"
| "encode_frame cap (Stop_Sending sid code) = quic_frame_stop_sending_encode cap sid code"
| "encode_frame cap (Max_Data m) = quic_frame_max_data_encode cap m"
| "encode_frame cap (Max_Stream_Data sid m) = quic_frame_max_stream_data_encode cap sid m"
| "encode_frame cap (Max_Streams uni m) = quic_frame_max_streams_encode cap uni m"
| "encode_frame cap (Data_Blocked l) = quic_frame_data_blocked_encode cap l"
| "encode_frame cap (Stream_Data_Blocked sid l) = quic_frame_stream_data_blocked_encode cap sid l"
| "encode_frame cap (Streams_Blocked uni l) = quic_frame_streams_blocked_encode cap uni l"
| "encode_frame cap (New_Connection_Id n) =
     (if unat (nc_cid_len n) = length (nc_cid n) \<and> length (nc_stateless_reset_token n) = 16
      then quic_frame_new_conn_id_encode cap (nc_seq_no n) (nc_retire_prior_to n) (nc_cid n)
             (Some (nc_stateless_reset_token n))
      else None)"
| "encode_frame cap (Retire_Conn_Id s) = quic_frame_retire_conn_id_encode cap s"
| "encode_frame cap (Path_Challenge d) =
     (if length d = 8 then quic_frame_path_challenge_encode cap d else None)"
| "encode_frame cap (Path_Response d) =
     (if length d = 8 then quic_frame_path_response_encode cap d else None)"
| "encode_frame cap _ = None"

lemmas frame_encoders [codec_defs] =
  quic_frame_ping_encode_def quic_frame_handshake_done_encode_def quic_frame_crypto_encode_def
  quic_frame_ack_encode_def quic_frame_stream_encode_def quic_frame_close_encode_def
  quic_frame_reset_stream_encode_def quic_frame_stop_sending_encode_def
  quic_frame_max_data_encode_def quic_frame_max_stream_data_encode_def
  quic_frame_max_streams_encode_def quic_frame_data_blocked_encode_def
  quic_frame_stream_data_blocked_encode_def quic_frame_streams_blocked_encode_def
  quic_frame_new_conn_id_encode_def quic_frame_retire_conn_id_encode_def encode_path_def
  quic_frame_path_challenge_encode_def quic_frame_path_response_encode_def

lemmas frame_decoders [codec_defs] =
  decode_ack_def decode_crypto_def decode_new_token_def decode_stream_def decode_close_def
  decode_reset_stream_def decode_v1_def decode_v2_def decode_new_conn_id_def decode_path_def

section \<open>Reading and writing\<close>

text \<open>A successful \<open>put\<close> appends; the writer stays within its capacity.\<close>

lemma put_u8_Some [buf_simps]:
  "put_u8 cap out v = Some out' \<longleftrightarrow> length out < cap \<and> out' = out @ [v]"
  by (auto simp: put_u8_def)

lemma put_varint_Some [buf_simps]:
  "put_varint cap out v = Some out' \<longleftrightarrow>
     length out \<le> cap \<and> (\<exists>bs. quic_varint_encode (cap - length out) v = Some bs
        \<and> 0 < length bs \<and> out' = out @ bs)"
  by (auto simp: put_varint_def dest: quic_varint_encode_SomeD(3))

lemma put_data_Some [buf_simps]:
  "put_data cap out d = Some out' \<longleftrightarrow> length d \<le> cap - length out \<and> out' = out @ d"
  by (auto simp: put_data_def)

lemma read_varint_SomeD:
  "read_varint inp off = Some (v, off') \<Longrightarrow> off < off' \<and> off' \<le> length inp"
  by (auto simp: read_varint_def split: if_splits option.splits dest!: varint.dec_within)

lemma read_view_SomeD:
  "read_view inp off len = Some (d, off') \<Longrightarrow>
     length d = unat len \<and> off' = off + unat len \<and> unat len \<le> length inp - off \<and> d = take (unat len) (drop off inp)"
  by (auto simp: read_view_def split: if_splits)

lemma read_ranges_SomeD:
  "read_ranges n inp off = Some off' \<Longrightarrow> off \<le> off' \<and> (off \<le> length inp \<longrightarrow> off' \<le> length inp)"
proof (induction n arbitrary: off)
  case 0
  then show ?case by simp
next
  case (Suc n)
  then show ?case by (force simp: Option.bind_eq_Some_conv dest!: read_varint_SomeD)
qed

lemma skip_zeros_bounds:
  "off \<le> length inp \<Longrightarrow> off \<le> skip_zeros inp off \<and> skip_zeros inp off \<le> length inp"
proof (induction inp off rule: skip_zeros.induct)
  case (1 inp off)
  then show ?case by (auto simp: skip_zeros.simps [of inp off])
qed

section \<open>Well-formed frames and reads within bounds\<close>

text \<open>
  What a decoded frame promises: a view holds as many bytes as its declared length, a
  connection id is 1 to 20 bytes long, and so on.
\<close>

fun frame_wf :: "quic_frame \<Rightarrow> bool" where
  "frame_wf (Padding n) \<longleftrightarrow> 0 < n"
| "frame_wf (Crypto off len d) \<longleftrightarrow> unat len = length d"
| "frame_wf (New_Token len d) \<longleftrightarrow> unat len = length d \<and> d \<noteq> []"
| "frame_wf (Stream s) \<longleftrightarrow> unat (st_length s) = length (st_data s)"
| "frame_wf (Close c) \<longleftrightarrow>
     unat (cl_reason_len c) = length (cl_reason c) \<and> (cl_is_app c \<longrightarrow> cl_frame_type c = 0)"
| "frame_wf (New_Connection_Id n) \<longleftrightarrow>
     unat (nc_cid_len n) = length (nc_cid n) \<and> nc_cid n \<noteq> [] \<and> length (nc_cid n) \<le> 20
     \<and> length (nc_stateless_reset_token n) = 16 \<and> nc_retire_prior_to n \<le> nc_seq_no n"
| "frame_wf (Path_Challenge d) \<longleftrightarrow> length d = 8"
| "frame_wf (Path_Response d) \<longleftrightarrow> length d = 8"
| "frame_wf (Ack a) \<longleftrightarrow>
     read_ranges (unat (ack_range_count a)) (ack_ranges_buf a) 0 = Some (length (ack_ranges_buf a))
     \<and> (\<not> ack_has_ecn a \<longrightarrow> ack_ect0 a = 0 \<and> ack_ect1 a = 0 \<and> ack_ce a = 0)"
| "frame_wf _ \<longleftrightarrow> True"

text \<open>The byte strings that a frame carries, and that such a string is a part of the first \<open>n\<close> input bytes.\<close>

fun frame_views :: "quic_frame \<Rightarrow> bytes list" where
  "frame_views (Ack a) = [ack_ranges_buf a]"
| "frame_views (Crypto off len d) = [d]"
| "frame_views (New_Token len d) = [d]"
| "frame_views (Stream s) = [st_data s]"
| "frame_views (Close c) = [cl_reason c]"
| "frame_views (New_Connection_Id n) = [nc_cid n, nc_stateless_reset_token n]"
| "frame_views (Path_Challenge d) = [d]"
| "frame_views (Path_Response d) = [d]"
| "frame_views _ = []"

definition view_of :: "bytes \<Rightarrow> nat \<Rightarrow> bytes \<Rightarrow> bool" where
  "view_of inp n v \<longleftrightarrow> (\<exists>i. i + length v \<le> n \<and> v = take (length v) (drop i inp))"

lemma view_of_take: "i + k \<le> n \<Longrightarrow> n \<le> length inp \<Longrightarrow> view_of inp n (take k (drop i inp))"
  unfolding view_of_def by (intro exI [of _ i]) simp

lemma view_of_drop: "i \<le> length inp \<Longrightarrow> view_of inp (length inp) (drop i inp)"
  unfolding view_of_def by (intro exI [of _ i]) simp

text \<open>Reading depends only on the bytes read.\<close>

lemma varint_decode_take: "quic_varint_decode xs = Some (v, n) \<Longrightarrow> n \<le> k \<Longrightarrow> quic_varint_decode (take k xs) = Some (v, n)"
proof -
  assume d: "quic_varint_decode xs = Some (v, n)" and k: "n \<le> k"
  from d have "0 < n" by (auto simp: quic_varint_decode_def Let_def split: if_splits)
  with k have "take k xs ! 0 = xs ! 0" "0 < k" by simp_all
  with d k show ?thesis by (auto simp: quic_varint_decode_def Let_def drop_take min_def split: if_splits)
qed

lemma read_varint_part:
  assumes "read_varint inp off = Some (v, off')" "a \<le> off" "off' \<le> a + m"
  shows "read_varint (take m (drop a inp)) (off - a) = Some (v, off' - a)"
proof -
  obtain n where n: "quic_varint_decode (drop off inp) = Some (v, n)" "off' = off + n" "off < length inp"
    using assms(1) by (auto simp: read_varint_def split: if_splits option.splits)
  have "drop (off - a) (take m (drop a inp)) = take (m - (off - a)) (drop off inp)" using assms(2) by (simp add: drop_take)
  moreover have "quic_varint_decode (take (m - (off - a)) (drop off inp)) = Some (v, n)"
    by (rule varint_decode_take [OF n(1)]) (use assms(2,3) n(2) in simp)
  moreover have "off < off'" using read_varint_SomeD [OF assms(1)] by simp
  ultimately show ?thesis using assms(2,3) n(2,3) by (simp add: read_varint_def)
qed

lemma read_ranges_part:
  "read_ranges k inp off = Some off' \<Longrightarrow> a \<le> off \<Longrightarrow> off' \<le> a + m \<Longrightarrow>
     read_ranges k (take m (drop a inp)) (off - a) = Some (off' - a)"
proof (induction k arbitrary: off)
  case (Suc k)
  then obtain g l o1 o2 where r: "read_varint inp off = Some (g, o1)" "read_varint inp o1 = Some (l, o2)" "read_ranges k inp o2 = Some off'"
    by (auto simp: Option.bind_eq_Some_conv)
  have b: "off < o1" "o1 < o2" "o2 \<le> off'"
    using read_varint_SomeD [OF r(1)] read_varint_SomeD [OF r(2)] read_ranges_SomeD [OF r(3)] by simp_all
  show ?case
    using read_varint_part [OF r(1), of a m] read_varint_part [OF r(2), of a m] Suc.IH [OF r(3)] b Suc.prems(2,3) by simp
qed simp

definition decodes_within :: "bytes \<Rightarrow> nat \<Rightarrow> (quic_frame \<times> nat) option \<Rightarrow> bool" where
  "decodes_within inp off r \<longleftrightarrow>
     (\<forall>f n. r = Some (f, n) \<longrightarrow> off \<le> n \<and> n \<le> length inp
        \<and> (\<forall>v\<in>set (frame_views f). view_of inp n v) \<and> (length inp < 2 ^ 64 \<longrightarrow> frame_wf f))"

lemmas within_steps = decodes_within_def Option.bind_eq_Some_conv

lemmas within_dests = read_varint_SomeD read_view_SomeD read_ranges_SomeD

lemma read_ranges_view:
  assumes "read_ranges k inp off = Some off'" "off \<le> length inp"
  shows "read_ranges k (take (off' - off) (drop off inp)) 0 = Some (length (take (off' - off) (drop off inp)))"
  using read_ranges_part [OF assms(1), of off "off' - off"] read_ranges_SomeD [OF assms(1)] assms(2) by auto

lemma decode_ack_SomeD:
  assumes "decode_ack ecn inp off = Some (f, n)"
  obtains a o1 o2 where "f = Ack a" "off \<le> o1" "o1 \<le> o2" "o2 \<le> n" "n \<le> length inp"
    "ack_ranges_buf a = take (o2 - o1) (drop o1 inp)" "read_ranges (unat (ack_range_count a)) inp o1 = Some o2"
    "\<not> ack_has_ecn a \<longrightarrow> ack_ect0 a = 0 \<and> ack_ect1 a = 0 \<and> ack_ce a = 0"
proof -
  obtain l d c r p1 p2 p3 p4 p5 where
    r: "read_varint inp off = Some (l, p1)" "read_varint inp p1 = Some (d, p2)" "read_varint inp p2 = Some (c, p3)"
      "read_varint inp p3 = Some (r, p4)" "read_ranges (unat c) inp p4 = Some p5"
    using assms by (auto simp: decode_ack_def Option.bind_eq_Some_conv)
  note b = r(1-4) [THEN read_varint_SomeD] r(5) [THEN read_ranges_SomeD]
  let ?a = "\<lparr>ack_largest = l, ack_delay = d, ack_range_count = c, ack_first_range = r,
    ack_ranges_buf = take (p5 - p4) (drop p4 inp), ack_has_ecn = False, ack_ect0 = 0, ack_ect1 = 0, ack_ce = 0\<rparr>"
  show thesis
  proof (cases ecn)
    case True
    then obtain e0 e1 ce q1 q2 where e: "read_varint inp p5 = Some (e0, q1)" "read_varint inp q1 = Some (e1, q2)"
      "read_varint inp q2 = Some (ce, n)" "f = Ack (?a\<lparr>ack_has_ecn := True, ack_ect0 := e0, ack_ect1 := e1, ack_ce := ce\<rparr>)"
      using assms r by (auto simp: decode_ack_def Let_def Option.bind_eq_Some_conv)
    show thesis by (rule that [OF e(4), of p4 p5]) (use b r(5) e(1-3) [THEN read_varint_SomeD] in simp_all)
  next
    case False
    then have "f = Ack ?a" "n = p5" using assms r by (auto simp: decode_ack_def Let_def)
    then show thesis using that [of ?a p4 p5] b r(5) by simp
  qed
qed

lemma decode_ack_within: "off \<le> length inp \<Longrightarrow> decodes_within inp off (decode_ack ecn inp off)"
  unfolding decodes_within_def
proof (intro allI impI)
  fix f n assume "decode_ack ecn inp off = Some (f, n)"
  then obtain a o1 o2 where a: "f = Ack a" "off \<le> o1" "o1 \<le> o2" "o2 \<le> n" "n \<le> length inp"
    "ack_ranges_buf a = take (o2 - o1) (drop o1 inp)" "read_ranges (unat (ack_range_count a)) inp o1 = Some o2"
    "\<not> ack_has_ecn a \<longrightarrow> ack_ect0 a = 0 \<and> ack_ect1 a = 0 \<and> ack_ce a = 0" by (rule decode_ack_SomeD)
  moreover have "o1 \<le> length inp" using a(3-5) by simp
  ultimately show "off \<le> n \<and> n \<le> length inp \<and> (\<forall>v\<in>set (frame_views f). view_of inp n v) \<and> (length inp < 2 ^ 64 \<longrightarrow> frame_wf f)"
    using read_ranges_view [OF a(7)] view_of_take [of o1 "o2 - o1" n inp] by simp
qed

lemma decode_crypto_within:
  "off \<le> length inp \<Longrightarrow> decodes_within inp off (decode_crypto inp off)"
  by (auto simp: within_steps decode_crypto_def dest!: within_dests intro!: view_of_take)

lemma decode_new_token_within:
  "off \<le> length inp \<Longrightarrow> decodes_within inp off (decode_new_token inp off)"
  by (auto simp: within_steps decode_new_token_def unat_eq_zero split: if_splits dest!: within_dests intro!: view_of_take)

lemma decode_stream_within: "off \<le> length inp \<Longrightarrow> decodes_within inp off (decode_stream t inp off)"
  unfolding decodes_within_def
proof (intro allI impI)
  fix f n assume r: "decode_stream t inp off = Some (f, n)"
  then obtain sid p1 o2 p2 len p3 data where
    v: "read_varint inp off = Some (sid, p1)" "(if t AND 0x04 \<noteq> 0 then read_varint inp p1 else Some (0, p1)) = Some (o2, p2)"
      "(if t AND 0x02 \<noteq> 0 then read_varint inp p2 else Some (word_of_nat (length inp - p2), p2)) = Some (len, p3)"
      "(if t AND 0x02 \<noteq> 0 then read_view inp p3 len else Some (drop p3 inp, length inp)) = Some (data, n)"
    and f: "frame_views f = [data]" "frame_wf f \<longleftrightarrow> unat len = length data"
    by (auto simp: decode_stream_def Let_def Option.bind_eq_Some_conv simp del: of_nat_diff)
  have b: "off < p1" "p1 \<le> p2" "p2 \<le> p3" "p3 \<le> length inp"
    using v(1-3) by (auto split: if_splits dest!: read_varint_SomeD)
  show "off \<le> n \<and> n \<le> length inp \<and> (\<forall>v\<in>set (frame_views f). view_of inp n v) \<and> (length inp < 2 ^ 64 \<longrightarrow> frame_wf f)"
  proof (cases "t AND 0x02 \<noteq> 0")
    case True
    then have "read_view inp p3 len = Some (data, n)" using v(4) by simp
    from read_view_SomeD [OF this] show ?thesis using b f view_of_take [of p3 "unat len" n inp] by auto
  next
    case False
    then have "data = drop p3 inp" "n = length inp" "len = word_of_nat (length inp - p2)" "p3 = p2" using v(3,4) by auto
    then show ?thesis using b f view_of_drop [OF b(4)] by (simp add: unat_of_nat del: of_nat_diff)
  qed
qed

lemma decode_close_within:
  "off \<le> length inp \<Longrightarrow> decodes_within inp off (decode_close a inp off)"
  by (auto simp: within_steps decode_close_def split: if_splits dest!: within_dests intro!: view_of_take)

lemma decode_reset_stream_within:
  "off \<le> length inp \<Longrightarrow> decodes_within inp off (decode_reset_stream inp off)"
  by (auto simp: within_steps decode_reset_stream_def dest!: within_dests)

lemma decode_v1_within:
  "off \<le> length inp \<Longrightarrow> (\<And>a. frame_wf (c a) \<and> frame_views (c a) = []) \<Longrightarrow>
     decodes_within inp off (decode_v1 c inp off)"
  by (auto simp: within_steps decode_v1_def dest!: within_dests)

lemma decode_v2_within:
  "off \<le> length inp \<Longrightarrow> (\<And>a b. frame_wf (c a b) \<and> frame_views (c a b) = []) \<Longrightarrow>
     decodes_within inp off (decode_v2 c inp off)"
  by (auto simp: within_steps decode_v2_def dest!: within_dests)

lemma decode_new_conn_id_within:
  "off \<le> length inp \<Longrightarrow> decodes_within inp off (decode_new_conn_id inp off)"
  by (auto simp: within_steps decode_new_conn_id_def Let_def word_less_nat_alt word_le_nat_alt not_less split: if_splits
      dest!: within_dests intro!: view_of_take)

lemma decode_path_within:
  "off \<le> length inp \<Longrightarrow> (\<And>d. length d = 8 \<Longrightarrow> frame_wf (c d) \<and> frame_views (c d) = [d]) \<Longrightarrow>
     decodes_within inp off (decode_path c inp off)"
  by (auto simp: within_steps decode_path_def split: if_splits intro!: view_of_take)

lemma decodes_within_if:
  "(c \<Longrightarrow> decodes_within inp off a) \<Longrightarrow> (\<not> c \<Longrightarrow> decodes_within inp off b) \<Longrightarrow>
     decodes_within inp off (if c then a else b)"
  by simp

lemma decode_body_within:
  assumes "inp \<noteq> []"
  shows "decodes_within inp 1 (decode_body t inp)"
proof -
  have 1: "1 \<le> length inp" using assms(1) by (cases inp) auto
  have 2: "decodes_within inp 1 (Some (f, 1))" if "frame_wf f" "frame_views f = []" for f
    using 1 that by (simp add: decodes_within_def)
  have 3: "decodes_within inp 1 (Some (Padding (skip_zeros inp 1), skip_zeros inp 1))"
    using skip_zeros_bounds [OF 1] by (auto simp: decodes_within_def)
  show ?thesis
    unfolding decode_body_def Let_def
    by (intro decodes_within_if 3 2 decode_ack_within decode_crypto_within decode_new_token_within
        decode_stream_within decode_close_within decode_reset_stream_within decode_v1_within
        decode_v2_within decode_new_conn_id_within decode_path_within 1 assms) simp_all
qed

lemma quic_frame_decode_SomeD:
  assumes "quic_frame_decode inp = Frame_Ok f n"
  shows "0 < n \<and> n \<le> length inp \<and> (\<forall>v\<in>set (frame_views f). view_of inp n v) \<and> (length inp < 2 ^ 64 \<longrightarrow> frame_wf f)"
proof -
  have "inp \<noteq> []" and "decode_body (inp ! 0) inp = Some (f, n)"
    using assms by (auto simp: quic_frame_decode_def split: if_splits option.splits)
  then show ?thesis using decode_body_within [of inp "inp ! 0"] by (fastforce simp: decodes_within_def)
qed

section \<open>Round trips\<close>

lemma read_varint_at:
  assumes "drop off inp = e @ rest" "quic_varint_encode c v = Some e"
  shows "read_varint inp off = Some (v, off + length e)"
proof -
  have "e \<noteq> []" using assms(2) by (rule varint.enc_nonempty)
  then have "off < length inp" using assms(1) by (cases "off < length inp") auto
  then show ?thesis using assms quic_varint_roundtrip [OF assms(2)] by (simp add: read_varint_def)
qed

lemma read_view_at:
  assumes "drop off inp = d @ rest" "unat len = length d"
  shows "read_view inp off len = Some (d, off + length d)"
proof -
  have "length inp - off = length d + length rest"
    using arg_cong [OF assms(1), of length] by simp
  then show ?thesis using assms by (simp add: read_view_def)
qed

lemma word_of_length: "unat (len :: 'a::len word) = length d \<Longrightarrow> word_of_nat (length d) = len"
  by (drule sym) simp

lemmas enc_steps = frame_encoders put_u8_Some put_varint_Some put_data_Some Option.bind_eq_Some_conv
lemmas dec_steps = frame_decoders read_varint_at read_view_at word_of_length

lemmas codec_start = enc_steps quic_frame_decode_def decode_body_def

lemma new_conn_id_enc_dec:
  assumes "encode_frame cap (New_Connection_Id n) = Some bs"
  shows "quic_frame_decode (bs @ rest) = Frame_Ok (New_Connection_Id n) (length bs)"
  using assms
  apply (cases n; clarsimp simp: codec_start split: if_splits)
  apply (simp add: dec_steps)
  apply (simp add: word_less_nat_alt)
  apply (auto dest: sym)
  done

lemma frame_enc_dec:
  assumes "encode_frame cap f = Some bs"
  shows "quic_frame_decode (bs @ rest) = Frame_Ok f (length bs)"
proof (cases f)
  case (New_Connection_Id n)
  with assms show ?thesis using new_conn_id_enc_dec by blast
next
  case (Stream s)
  with assms show ?thesis
    by (cases s; cases "st_fin s"; clarsimp simp: codec_start split: if_splits;
        simp add: dec_steps)
next
  case (Close c)
  with assms show ?thesis
    by (cases c; cases "cl_is_app c"; clarsimp simp: codec_start split: if_splits;
        simp add: dec_steps)
next
  case (Ack a)
  with assms show ?thesis
    by (cases a; clarsimp simp: codec_start split: if_splits; simp add: dec_steps)
next
  case (Max_Streams uni m)
  with assms show ?thesis
    by (cases uni; clarsimp simp: codec_start; simp add: dec_steps)
next
  case (Streams_Blocked uni m)
  with assms show ?thesis
    by (cases uni; clarsimp simp: codec_start; simp add: dec_steps)
qed (use assms in \<open>(clarsimp simp: codec_start split: if_splits; simp add: dec_steps)\<close>)+

text \<open>A run of PADDING is read back as one frame when no zero byte follows it.\<close>

lemma skip_zeros_stop: "rest = [] \<or> hd rest \<noteq> 0 \<Longrightarrow> skip_zeros (replicate n 0 @ rest) n = n"
  by (subst skip_zeros.simps) (cases rest; simp add: nth_append)

lemma skip_zeros_run:
  assumes "rest = [] \<or> hd rest \<noteq> 0"
  shows "skip_zeros (replicate (k + d) 0 @ rest) k = k + d"
proof (induction d arbitrary: k)
  case 0
  then show ?case using skip_zeros_stop [OF assms] by simp
next
  case (Suc d)
  have "skip_zeros (replicate (k + Suc d) 0 @ rest) k = skip_zeros (replicate (k + Suc d) 0 @ rest) (Suc k)"
    by (subst skip_zeros.simps) (simp add: nth_append del: replicate_Suc)
  also have "\<dots> = k + Suc d" using Suc.IH [of "Suc k"] by simp
  finally show ?case .
qed

lemma padding_enc_dec:
  assumes "quic_frame_padding_encode cap n = Some bs" "0 < n" "rest = [] \<or> hd rest \<noteq> 0"
  shows "quic_frame_decode (bs @ rest) = Frame_Ok (Padding n) n"
proof -
  have bs: "bs = replicate n 0" using assms(1) by (simp add: quic_frame_padding_encode_def split: if_splits)
  have "skip_zeros (bs @ rest) 1 = n" using skip_zeros_run [OF assms(3), of 1 "n - 1"] assms(2) bs by simp
  moreover have "(bs @ rest) ! 0 = 0" "bs \<noteq> []" using bs assms(2) by (simp_all add: nth_append)
  ultimately show ?thesis by (simp add: quic_frame_decode_def decode_body_def)
qed

section \<open>The codec interface\<close>

definition frame_dec :: "bytes \<Rightarrow> (quic_frame \<times> nat) option" where
  "frame_dec inp = (case quic_frame_decode inp of Frame_Ok f n \<Rightarrow> Some (f, n) | _ \<Rightarrow> None)"

lemma frame_dec_iff: "frame_dec inp = Some (f, n) \<longleftrightarrow> quic_frame_decode inp = Frame_Ok f n"
  by (simp add: frame_dec_def split: frame_result.split)

interpretation frame: prefix_codec "encode_frame cap" frame_dec
proof
  show "encode_frame cap x = Some bs \<Longrightarrow> frame_dec (bs @ rest) = Some (x, length bs)" for x bs rest
    by (simp only: frame_dec_iff frame_enc_dec)
  show "frame_dec inp = Some (x, n) \<Longrightarrow> 0 < n \<and> n \<le> length inp" for inp x n
    using quic_frame_decode_SomeD [of inp x n] by (simp only: frame_dec_iff)
qed

section \<open>Properties\<close>

text \<open>
  C20: A packet payload built by writing any sequence of frames back to back is decoded into
  exactly that sequence.
\<close>

theorem frame_sequence_roundtrip:
  assumes "enc_all (encode_frame cap) fs = Some payload"
  shows "dec_all frame_dec payload = Some fs"
  using assms by (rule frame.dec_all_enc_all)

theorem frame_sequence_roundtrip_witness:
  "dec_all frame_dec [1, 6, 2, 3, 10, 11, 12, 16, 64, 100, 30] =
     Some [Ping, Crypto 2 3 [10, 11, 12], Max_Data 100, Handshake_Done]"
  by (rule frame_sequence_roundtrip [where cap = 64])
    (simp add: frame_encoders put_u8_def put_varint_def put_data_def
      quic_varint_encode_def quic_varint_size_def)

text \<open>
  C21: A decoded frame took at least one byte and no byte beyond the input, and every byte string it carries, the
  ranges of an ACK included, is a part of the bytes it took. The frame is well-formed: a string has exactly its
  declared length, the ranges of an ACK are exactly the declared number of pairs, and a NEW_CONNECTION_ID has a
  connection id of 1 to 20 bytes and does not retire ids it has not issued.
\<close>

theorem frame_decode_safe:
  assumes "quic_frame_decode inp = Frame_Ok f n" "length inp < 2 ^ 64"
  shows "0 < n \<and> n \<le> length inp \<and> (\<forall>v\<in>set (frame_views f). view_of inp n v) \<and> frame_wf f"
  using quic_frame_decode_SomeD [OF assms(1)] assms(2) by blast

theorem frame_decode_safe_witness:
  "quic_frame_decode [6, 2, 3, 10, 11, 12, 99] = Frame_Ok (Crypto 2 3 [10, 11, 12]) 6
    \<and> view_of [6, 2, 3, 10, 11, 12, 99] 6 [10, 11, 12] \<and> frame_wf (Crypto 2 3 [10, 11, 12])"
proof -
  have d: "quic_frame_decode [6, 2, 3, 10, 11, 12, 99] = Frame_Ok (Crypto 2 3 [10, 11, 12]) 6" by code_simp
  then show ?thesis using frame_decode_safe [OF d] by simp
qed

end
