(* ===== verification/Flow.thy ===== *)
theory Flow
  imports Prelude
begin

text \<open>
  QUIC flow control: \<open>userspace/quic/flow.c\<close>. A pure accountant of credit: the limit the
  peer advertised and what has been used of it.
\<close>

section \<open>Definitions\<close>

record quic_flow =
  fl_max :: u64
  fl_consumed :: u64

definition quic_flow_init :: "u64 \<Rightarrow> quic_flow" where
  "quic_flow_init initial_max = \<lparr>fl_max = initial_max, fl_consumed = 0\<rparr>"

definition quic_flow_available :: "quic_flow \<Rightarrow> u64" where
  "quic_flow_available f = (if fl_consumed f \<ge> fl_max f then 0 else fl_max f - fl_consumed f)"

definition quic_flow_consume :: "quic_flow \<Rightarrow> u64 \<Rightarrow> u64 \<times> quic_flow" where
  "quic_flow_consume f bytes =
     (let avail = (if fl_consumed f \<ge> fl_max f then 0 else fl_max f - fl_consumed f);
          tk = (if bytes < avail then bytes else avail)
      in (tk, f\<lparr>fl_consumed := fl_consumed f + tk\<rparr>))"

definition quic_flow_set_max :: "quic_flow \<Rightarrow> u64 \<Rightarrow> quic_flow" where
  "quic_flow_set_max f new_max = (if new_max > fl_max f then f\<lparr>fl_max := new_max\<rparr> else f)"

definition quic_flow_should_update :: "quic_flow \<Rightarrow> u64 \<Rightarrow> bool" where
  "quic_flow_should_update f initial_window =
     (let half = initial_window div 2; remaining = quic_flow_available f
      in remaining \<le> half)"

text \<open>Any sequence of calls on one accountant; the run collects what was granted.\<close>

datatype flow_op = Consume u64 | Set_Max u64

fun flow_run :: "quic_flow \<Rightarrow> flow_op list \<Rightarrow> u64 list \<times> quic_flow" where
  "flow_run f [] = ([], f)"
| "flow_run f (Consume n # ops) =
     (let (tk, f') = quic_flow_consume f n; (tks, f'') = flow_run f' ops in (tk # tks, f''))"
| "flow_run f (Set_Max m # ops) = flow_run (quic_flow_set_max f m) ops"

section \<open>Credit is never overdrawn\<close>

definition flow_inv :: "quic_flow \<Rightarrow> bool" where
  "flow_inv f \<longleftrightarrow> fl_consumed f \<le> fl_max f"

lemma flow_available_nat:
  "unat (quic_flow_available f) = unat (fl_max f) - unat (fl_consumed f)"
  by (auto simp: quic_flow_available_def word_le_nat_alt unat_sub_if_size)

lemma flow_consume_nat:
  assumes "quic_flow_consume f n = (tk, f')"
  shows "unat tk = min (unat n) (unat (fl_max f) - unat (fl_consumed f))"
    and "flow_inv f \<Longrightarrow> unat (fl_consumed f') = unat (fl_consumed f) + unat tk"
    and "fl_max f' = fl_max f" "flow_inv f \<Longrightarrow> flow_inv f'"
proof -
  have tk: "tk = (if n < quic_flow_available f then n else quic_flow_available f)"
    and f': "f' = f\<lparr>fl_consumed := fl_consumed f + tk\<rparr>"
    using assms by (auto simp: quic_flow_consume_def quic_flow_available_def Let_def)
  show m: "unat tk = min (unat n) (unat (fl_max f) - unat (fl_consumed f))"
    unfolding tk using flow_available_nat [of f] by (auto simp: word_less_nat_alt)
  show mx: "fl_max f' = fl_max f" using f' by simp
  show c: "unat (fl_consumed f') = unat (fl_consumed f) + unat tk" if "flow_inv f"
  proof -
    have "unat (fl_consumed f) + unat tk \<le> unat (fl_max f)"
      using that m by (auto simp: flow_inv_def word_le_nat_alt)
    also have "\<dots> < 2 ^ 64" by (rule unat_u64_lt)
    finally show ?thesis using f' by (simp add: unat_word_ariths)
  qed
  show "flow_inv f'" if "flow_inv f"
    using c [OF that] m mx that by (auto simp: flow_inv_def word_le_nat_alt)
qed

lemma flow_set_max_inv: "flow_inv f \<Longrightarrow> flow_inv (quic_flow_set_max f m)"
  by (auto simp: flow_inv_def quic_flow_set_max_def)

lemma flow_set_max_nat:
  "unat (fl_max (quic_flow_set_max f m)) = max (unat (fl_max f)) (unat m)"
  "fl_consumed (quic_flow_set_max f m) = fl_consumed f"
  by (auto simp: quic_flow_set_max_def word_less_nat_alt)

lemma flow_run_credit:
  assumes "flow_run f ops = (tks, f')" "flow_inv f"
  shows "flow_inv f' \<and> unat (fl_consumed f') = unat (fl_consumed f) + sum_list (map unat tks)
    \<and> fl_max f \<le> fl_max f'"
  using assms
proof (induction f ops arbitrary: tks f' rule: flow_run.induct)
  case (1 f)
  then show ?case by simp
next
  case (2 f n ops)
  obtain tk g where c: "quic_flow_consume f n = (tk, g)" by fastforce
  obtain ts h where r: "flow_run g ops = (ts, h)" by fastforce
  have "flow_inv g" "unat (fl_consumed g) = unat (fl_consumed f) + unat tk" "fl_max g = fl_max f"
    using flow_consume_nat [OF c] 2(3) by simp_all
  then show ?case using 2 c r by auto
next
  case (3 f m ops)
  have "fl_max f \<le> fl_max (quic_flow_set_max f m)" by (auto simp: quic_flow_set_max_def)
  then show ?case using 3 flow_set_max_inv [of f m] flow_set_max_nat(2) [of f m] by auto
qed

text \<open>C22: from a fresh accountant, whatever is consumed and whatever limits the peer
  announces, the bytes granted in total are exactly the bytes recorded, and never exceed the
  final limit.\<close>

theorem flow_control_safe:
  assumes "flow_run (quic_flow_init m) ops = (tks, f)"
  shows "sum_list (map unat tks) = unat (fl_consumed f)
     \<and> sum_list (map unat tks) \<le> unat (fl_max f) \<and> m \<le> fl_max f"
  using flow_run_credit [OF assms] by (simp add: quic_flow_init_def flow_inv_def word_le_nat_alt)

theorem flow_control_safe_witness:
  "flow_run (quic_flow_init 100) [Consume 70, Consume 70, Set_Max 120, Consume 70]
     = ([70, 30, 20], \<lparr>fl_max = 120, fl_consumed = 120\<rparr>)
   \<and> sum_list (map unat [70, 30, 20 :: u64]) \<le> unat (120 :: u64)"
proof -
  have r: "flow_run (quic_flow_init 100) [Consume 70, Consume 70, Set_Max 120, Consume 70]
      = ([70, 30, 20], \<lparr>fl_max = 120, fl_consumed = 120\<rparr>)" by code_simp
  show ?thesis using r flow_control_safe [OF r] by simp
qed

end
