(* ===== verification/Cc.thy ===== *)
theory Cc
  imports Prelude
begin

text \<open>
  NewReno congestion control: \<open>userspace/quic/cc.c\<close>. All arithmetic is on 64-bit words and
  wraps as the C code's does. The division in \<open>quic_cc_on_acked\<close> traps on a zero divisor, so
  that operation returns an option.
\<close>

section \<open>Definitions\<close>

record quic_cc =
  max_datagram_size :: u64
  cwnd :: u64
  ssthresh :: u64
  bytes_in_flight :: u64
  congestion_recovery_start_time :: u64
  ssthresh_set :: bool

definition u64_max :: "u64 \<Rightarrow> u64 \<Rightarrow> u64" where
  "u64_max a b = (if a > b then a else b)"

definition u64_min :: "u64 \<Rightarrow> u64 \<Rightarrow> u64" where
  "u64_min a b = (if a < b then a else b)"

definition quic_cc_initial_window :: "u64 \<Rightarrow> u64" where
  "quic_cc_initial_window mds = u64_min (10 * mds) (u64_max (2 * mds) 14720)"

definition quic_cc_minimum_window :: "u64 \<Rightarrow> u64" where
  "quic_cc_minimum_window mds = 2 * mds"

definition quic_cc_init :: "u64 \<Rightarrow> quic_cc" where
  "quic_cc_init mds =
     \<lparr>max_datagram_size = mds, cwnd = quic_cc_initial_window mds, ssthresh = - 1,
      bytes_in_flight = 0, congestion_recovery_start_time = 0, ssthresh_set = False\<rparr>"

definition quic_cc_on_sent :: "quic_cc \<Rightarrow> u64 \<Rightarrow> quic_cc" where
  "quic_cc_on_sent cc bytes = cc\<lparr>bytes_in_flight := bytes_in_flight cc + bytes\<rparr>"

definition quic_cc_on_acked :: "quic_cc \<Rightarrow> u64 \<Rightarrow> quic_cc option" where
  "quic_cc_on_acked cc bytes0 =
     (let bytes = (if bytes0 > bytes_in_flight cc then bytes_in_flight cc else bytes0);
          cc = cc\<lparr>bytes_in_flight := bytes_in_flight cc - bytes\<rparr>
      in if cwnd cc < ssthresh cc then Some (cc\<lparr>cwnd := cwnd cc + bytes\<rparr>)
         else if cwnd cc = 0 then None
         else Some (cc\<lparr>cwnd := cwnd cc + (max_datagram_size cc * bytes) div cwnd cc\<rparr>))"

definition quic_cc_on_lost :: "quic_cc \<Rightarrow> u64 \<Rightarrow> u64 \<Rightarrow> u64 \<Rightarrow> quic_cc" where
  "quic_cc_on_lost cc bytes0 lost_send_time now_us =
     (let bytes = (if bytes0 > bytes_in_flight cc then bytes_in_flight cc else bytes0);
          cc = cc\<lparr>bytes_in_flight := bytes_in_flight cc - bytes\<rparr>
      in if congestion_recovery_start_time cc \<noteq> 0
            \<and> lost_send_time \<le> congestion_recovery_start_time cc
         then cc
         else let halved = cwnd cc div 2;
                  min_w = quic_cc_minimum_window (max_datagram_size cc);
                  ss = u64_max halved min_w
              in cc\<lparr>congestion_recovery_start_time := now_us, ssthresh := ss,
                    ssthresh_set := True, cwnd := ss\<rparr>)"

definition quic_cc_on_persistent_congestion :: "quic_cc \<Rightarrow> quic_cc" where
  "quic_cc_on_persistent_congestion cc =
     cc\<lparr>cwnd := quic_cc_minimum_window (max_datagram_size cc),
        congestion_recovery_start_time := 0\<rparr>"

definition quic_cc_can_send :: "quic_cc \<Rightarrow> u64 \<Rightarrow> bool" where
  "quic_cc_can_send cc bytes \<longleftrightarrow> bytes_in_flight cc + bytes \<le> cwnd cc"

lemmas cc_defs = u64_max_def u64_min_def quic_cc_initial_window_def quic_cc_minimum_window_def
  quic_cc_init_def quic_cc_on_sent_def quic_cc_on_acked_def quic_cc_on_lost_def
  quic_cc_on_persistent_congestion_def quic_cc_can_send_def

section \<open>Runs of the controller\<close>

datatype cc_event =
    Sent u64
  | Acked u64
  | Lost u64 u64 u64  \<comment> \<open>bytes, send time, detection time\<close>
  | Persistent

fun cc_step :: "quic_cc \<Rightarrow> cc_event \<Rightarrow> quic_cc option" where
  "cc_step cc (Sent n) = Some (quic_cc_on_sent cc n)"
| "cc_step cc (Acked n) = quic_cc_on_acked cc n"
| "cc_step cc (Lost n t now) = Some (quic_cc_on_lost cc n t now)"
| "cc_step cc Persistent = Some (quic_cc_on_persistent_congestion cc)"

fun cc_run :: "quic_cc \<Rightarrow> cc_event list \<Rightarrow> quic_cc option" where
  "cc_run cc [] = Some cc"
| "cc_run cc (e # es) = do { cc' \<leftarrow> cc_step cc e; cc_run cc' es }"

text \<open>
  The byte counts of a run fit in 64 bits: no addition of the run wraps. A window of
  \<open>2 ^ 64\<close> bytes is out of reach of any real connection.
\<close>

fun cc_fits :: "quic_cc \<Rightarrow> cc_event \<Rightarrow> bool" where
  "cc_fits cc (Sent n) \<longleftrightarrow> unat (bytes_in_flight cc) + unat n < 2 ^ 64"
| "cc_fits cc (Acked n) \<longleftrightarrow>
     unat (cwnd cc) + unat (max_datagram_size cc) * unat (bytes_in_flight cc) < 2 ^ 64"
| "cc_fits cc _ \<longleftrightarrow> True"

fun cc_run_fits :: "quic_cc \<Rightarrow> cc_event list \<Rightarrow> bool" where
  "cc_run_fits cc [] \<longleftrightarrow> True"
| "cc_run_fits cc (e # es) \<longleftrightarrow>
     cc_fits cc e \<and> (case cc_step cc e of None \<Rightarrow> True | Some cc' \<Rightarrow> cc_run_fits cc' es)"

definition cc_inv :: "quic_cc \<Rightarrow> bool" where
  "cc_inv cc \<longleftrightarrow>
     0 < unat (max_datagram_size cc) \<and> 10 * unat (max_datagram_size cc) < 2 ^ 64
     \<and> 2 * unat (max_datagram_size cc) \<le> unat (cwnd cc)
     \<and> 2 * unat (max_datagram_size cc) \<le> unat (ssthresh cc)"

section \<open>The window never falls below its minimum\<close>

lemma unat_u64_max: "unat (u64_max a b) = max (unat a) (unat b)"
  by (auto simp: u64_max_def word_less_nat_alt)

lemma unat_u64_min: "unat (u64_min a b) = min (unat a) (unat b)"
  by (auto simp: u64_min_def word_less_nat_alt)

lemma unat_min_window:
  "10 * unat mds < 2 ^ 64 \<Longrightarrow> unat (quic_cc_minimum_window mds) = 2 * unat mds"
  by (simp add: quic_cc_minimum_window_def unat_word_ariths)

lemma unat_initial_window:
  assumes "10 * unat mds < 2 ^ 64"
  shows "unat (quic_cc_initial_window mds) = min (10 * unat mds) (max (2 * unat mds) 14720)"
  using assms
  by (simp add: quic_cc_initial_window_def unat_u64_min unat_u64_max unat_word_ariths)

lemma cc_init_inv:
  "0 < unat mds \<Longrightarrow> 10 * unat mds < 2 ^ 64 \<Longrightarrow> cc_inv (quic_cc_init mds)"
  by (auto simp: cc_inv_def quic_cc_init_def unat_initial_window unsigned_minus_1_eq_mask mask_eq_exp_minus_1)

lemma cc_acked_grows:
  assumes inv: "cc_inv cc" and fits: "cc_fits cc (Acked n)"
  shows "\<exists>cc'. quic_cc_on_acked cc n = Some cc' \<and> cc_inv cc' \<and> cwnd cc \<le> cwnd cc'
    \<and> unat (bytes_in_flight cc') = unat (bytes_in_flight cc) - unat n"
proof -
  define b where "b = (if n > bytes_in_flight cc then bytes_in_flight cc else n)"
  have b: "unat b = min (unat n) (unat (bytes_in_flight cc))"
    by (auto simp: b_def word_less_nat_alt)
  have mds: "0 < unat (max_datagram_size cc)" and cw: "0 < unat (cwnd cc)"
    using inv by (auto simp: cc_inv_def)
  have prod: "unat (max_datagram_size cc) * unat b
      \<le> unat (max_datagram_size cc) * unat (bytes_in_flight cc)"
    using b by simp
  have b1: "unat b \<le> unat (max_datagram_size cc) * unat (bytes_in_flight cc)"
    using b mds by (metis le_trans min.cobounded2 mult_le_mono1 nat_mult_1 One_nat_def Suc_leI)
  have fl: "unat (bytes_in_flight cc - b) = unat (bytes_in_flight cc) - unat n"
    using b by (simp add: unat_sub_if_size)
  have slow: "unat (cwnd cc + b) = unat (cwnd cc) + unat b"
    using fits b1 by (simp add: unat_word_ariths)
  have div: "unat ((max_datagram_size cc * b) div cwnd cc)
      = unat (max_datagram_size cc) * unat b div unat (cwnd cc)"
  proof -
    have "unat (max_datagram_size cc) * unat b < 2 ^ 64"
      using fits prod unfolding cc_fits.simps by linarith
    then show ?thesis by (simp add: unat_div_distrib unat_word_ariths)
  qed
  have "unat (max_datagram_size cc) * unat b div unat (cwnd cc)
      \<le> unat (max_datagram_size cc) * unat (bytes_in_flight cc)"
    by (rule le_trans [OF div_le_dividend prod])
  then have avoid: "unat (cwnd cc + (max_datagram_size cc * b) div cwnd cc)
      = unat (cwnd cc) + unat (max_datagram_size cc) * unat b div unat (cwnd cc)"
    using fits by (simp add: unat_word_ariths(1) div)
  have "cwnd cc \<noteq> 0" using cw by auto
  then show ?thesis
    using inv slow avoid fl
    by (auto simp: quic_cc_on_acked_def Let_def b_def [symmetric] cc_inv_def word_le_nat_alt)
qed

lemma cc_step_inv:
  assumes "cc_inv cc" "cc_fits cc e"
  shows "\<exists>cc'. cc_step cc e = Some cc' \<and> cc_inv cc'"
proof (cases e)
  case (Acked n)
  then show ?thesis using cc_acked_grows [of cc n] assms by auto
qed (use assms in \<open>auto simp: quic_cc_on_sent_def quic_cc_on_lost_def Let_def cc_inv_def
       quic_cc_on_persistent_congestion_def unat_min_window unat_u64_max\<close>)

lemma cc_run_inv:
  "cc_inv cc \<Longrightarrow> cc_run_fits cc es \<Longrightarrow> \<exists>cc'. cc_run cc es = Some cc' \<and> cc_inv cc'"
proof (induction es arbitrary: cc)
  case Nil
  then show ?case by simp
next
  case (Cons e es)
  then obtain cc1 where "cc_step cc e = Some cc1" "cc_inv cc1"
    using cc_step_inv [of cc e] by auto
  then show ?case using Cons by simp
qed

text \<open>C23: after any run of the controller whose counts fit in 64 bits the run has not trapped
  (no division by zero) and the window is at least the minimum window of two datagrams.\<close>

theorem cc_window_floor:
  assumes "0 < unat mds" "10 * unat mds < 2 ^ 64" "cc_run_fits (quic_cc_init mds) es"
  shows "\<exists>cc. cc_run (quic_cc_init mds) es = Some cc
    \<and> quic_cc_minimum_window (max_datagram_size cc) \<le> cwnd cc \<and> 0 < unat (cwnd cc)"
proof -
  obtain cc where "cc_run (quic_cc_init mds) es = Some cc" and "cc_inv cc"
    using cc_run_inv [OF cc_init_inv] assms by blast
  then show ?thesis by (auto simp: cc_inv_def word_le_nat_alt unat_min_window)
qed

theorem cc_window_floor_witness:
  "cc_run (quic_cc_init 1200) [Sent 12000, Acked 6000, Lost 6000 5 9, Acked 1200, Persistent]
     = Some \<lparr>max_datagram_size = 1200, cwnd = 2400, ssthresh = 9000, bytes_in_flight = 0,
             congestion_recovery_start_time = 0, ssthresh_set = True\<rparr>
   \<and> quic_cc_minimum_window 1200 \<le> 2400"
proof -
  have f: "cc_run_fits (quic_cc_init 1200)
      [Sent 12000, Acked 6000, Lost 6000 5 9, Acked 1200, Persistent]"
    by (simp add: cc_defs)
  have r: "cc_run (quic_cc_init 1200)
      [Sent 12000, Acked 6000, Lost 6000 5 9, Acked 1200, Persistent]
      = Some \<lparr>max_datagram_size = 1200, cwnd = 2400, ssthresh = 9000, bytes_in_flight = 0,
             congestion_recovery_start_time = 0, ssthresh_set = True\<rparr>" by (simp add: cc_defs)
  show ?thesis using cc_window_floor [OF _ _ f] r by simp
qed

text \<open>
  A loss halves the window (down to the minimum) at most once per recovery period:
  once a loss at time \<open>now\<close> has opened a period, the loss of any packet sent at or before
  \<open>now\<close> only takes its bytes out of flight.\<close>

lemma cc_one_reduction_per_period:
  assumes "cc' = quic_cc_on_lost cc n t now" "now \<noteq> 0"
    and "congestion_recovery_start_time cc = 0 \<or> t > congestion_recovery_start_time cc"
    and "t' \<le> now"
  shows "cwnd cc' = u64_max (cwnd cc div 2) (quic_cc_minimum_window (max_datagram_size cc))
    \<and> cwnd (quic_cc_on_lost cc' n' t' now') = cwnd cc'
    \<and> ssthresh (quic_cc_on_lost cc' n' t' now') = ssthresh cc'
    \<and> unat (bytes_in_flight (quic_cc_on_lost cc' n' t' now'))
        = unat (bytes_in_flight cc) - unat n - unat n'"
  using assms
  by (auto simp: quic_cc_on_lost_def Let_def unat_sub_if_size word_less_nat_alt word_le_nat_alt)

text \<open>
  The sending gate: when it admits a packet and the counts fit in 64 bits, sending the
  packet leaves the bytes in flight within the window.\<close>

lemma cc_can_send_sound:
  assumes "quic_cc_can_send cc n" "cc_fits cc (Sent n)"
  shows "unat (bytes_in_flight (quic_cc_on_sent cc n)) = unat (bytes_in_flight cc) + unat n
    \<and> bytes_in_flight (quic_cc_on_sent cc n) \<le> cwnd (quic_cc_on_sent cc n)"
  using assms by (simp add: quic_cc_can_send_def quic_cc_on_sent_def unat_word_ariths)

end
