(* ===== verification/Reassembly.thy ===== *)
theory Reassembly
  imports Prelude
begin

text \<open>
  Byte-stream reassembly as an interface. A chunk is the partial map from stream offsets to the
  bytes it carries, the state of a reassembler is abstracted by the partial map of the bytes it
  has accepted, and its client reads the longest prefix without a hole. The locale states what
  a staging operation promises and derives in-order delivery from it; it is interpreted on the
  CRYPTO reassembler (\<open>Crypto_Stream\<close>) and on the STREAM reassembler (\<open>Stream_Rx\<close>).
\<close>

section \<open>Chunks of a byte stream\<close>

definition chunk :: "nat \<Rightarrow> bytes \<Rightarrow> nat \<rightharpoonup> byte" where
  "chunk off bs i = (if off \<le> i \<and> i < off + length bs then Some (bs ! (i - off)) else None)"

definition agrees :: "(nat \<rightharpoonup> byte) \<Rightarrow> (nat \<rightharpoonup> byte) \<Rightarrow> bool" where
  "agrees m m' \<longleftrightarrow> (\<forall>i. m i = None \<or> m' i = None \<or> m i = m' i)"

lemma chunk_Nil [simp]: "chunk off [] = Map.empty"
  by (rule ext) (simp add: chunk_def)

lemma chunk_Cons: "chunk off (b # bs) = (chunk (Suc off) bs)(off \<mapsto> b)"
  by (rule ext) (auto simp: chunk_def nth_Cons')

lemma dom_chunk: "dom (chunk off bs) = {off..<off + length bs}"
  by (auto simp: chunk_def dom_def)

lemma dom_chunk_Cons: "dom (chunk off (b # bs)) = insert off (dom (chunk (Suc off) bs))"
  unfolding chunk_Cons by simp

lemma all_except: "Q p \<Longrightarrow> (\<forall>i. if i = p then A else Q i) \<longleftrightarrow> A \<and> (\<forall>i. Q i)"
  by metis

lemma agrees_chunk_Cons:
  "agrees m (chunk pos (b # bs)) \<longleftrightarrow> (m pos = None \<or> m pos = Some b) \<and> agrees m (chunk (Suc pos) bs)"
proof -
  let ?Q = "\<lambda>i. m i = None \<or> chunk (Suc pos) bs i = None \<or> m i = chunk (Suc pos) bs i"
  have "agrees m (chunk pos (b # bs))
      \<longleftrightarrow> (\<forall>i. if i = pos then m pos = None \<or> m pos = Some b else ?Q i)"
    unfolding chunk_Cons agrees_def by (intro iff_allI) simp
  also have "\<dots> \<longleftrightarrow> (m pos = None \<or> m pos = Some b) \<and> (\<forall>i. ?Q i)"
    by (rule all_except) (simp add: chunk_def)
  finally show ?thesis by (simp add: agrees_def)
qed

lemma agrees_upd_other:
  "agrees (m(pos \<mapsto> b)) (chunk (Suc pos) bs) \<longleftrightarrow> agrees m (chunk (Suc pos) bs)"
  by (auto simp: agrees_def chunk_def)

lemma chunk_slice:
  assumes "unat off + length p \<le> length S" "p = take (length p) (drop (unat off) S)"
  shows "chunk (unat off) p \<subseteq>\<^sub>m chunk 0 S"
proof -
  have "p ! (i - unat off) = S ! i" if "unat off \<le> i" "i < unat off + length p" for i
    using that assms(1) by (subst assms(2)) simp
  then show ?thesis using assms(1) by (auto simp: map_le_def chunk_def)
qed

lemma agrees_sub: "m \<subseteq>\<^sub>m c \<Longrightarrow> m' \<subseteq>\<^sub>m c \<Longrightarrow> agrees m m'"
  unfolding agrees_def map_le_def by (metis domIff)

section \<open>Delivery by any reassembler\<close>

text \<open>Feeding a sequence of chunks to a staging operation that must accept each of them.\<close>

primrec stage_all :: "('s \<Rightarrow> 'c \<Rightarrow> int \<times> 's) \<Rightarrow> 's \<Rightarrow> 'c list \<Rightarrow> 's option" where
  "stage_all stage s [] = Some s"
| "stage_all stage s (c # cs) =
     (let (rc, s') = stage s c in if rc < 0 then None else stage_all stage s' cs)"

locale reassembler =
  fixes inv :: "bytes \<Rightarrow> 's \<Rightarrow> bool"
    and adm :: "bytes \<Rightarrow> 'c \<Rightarrow> bool"
    and bytes_of :: "'c \<Rightarrow> nat \<rightharpoonup> byte"
    and content :: "'s \<Rightarrow> nat \<rightharpoonup> byte"
    and prefix_of :: "'s \<Rightarrow> bytes"
    and stage :: "'s \<Rightarrow> 'c \<Rightarrow> int \<times> 's"
  assumes adm_sub: "adm S c \<Longrightarrow> bytes_of c \<subseteq>\<^sub>m chunk 0 S"
    and inv_sub: "inv S s \<Longrightarrow> content s \<subseteq>\<^sub>m chunk 0 S"
    and stage_ok: "inv S s \<Longrightarrow> adm S c \<Longrightarrow>
      \<exists>rc s'. stage s c = (rc, s') \<and> 0 \<le> rc \<and> inv S s' \<and> content s' = content s ++ bytes_of c"
    and prefix_nth: "inv S s \<Longrightarrow> i < length (prefix_of s) \<Longrightarrow> content s i = Some (prefix_of s ! i)"
    and prefix_end: "inv S s \<Longrightarrow> content s (length (prefix_of s)) = None"
begin

lemma prefix_take:
  assumes "inv S s"
  shows "prefix_of s = take (length (prefix_of s)) S" "length (prefix_of s) \<le> length S"
proof -
  have *: "i < length S \<and> S ! i = prefix_of s ! i" if "i < length (prefix_of s)" for i
  proof -
    have "chunk 0 S i = Some (prefix_of s ! i)"
      using prefix_nth [OF assms that] inv_sub [OF assms] by (metis domI map_le_def)
    then show ?thesis by (auto simp: chunk_def split: if_splits)
  qed
  show le: "length (prefix_of s) \<le> length S"
  proof (rule ccontr)
    assume "\<not> length (prefix_of s) \<le> length S"
    then show False using * [of "length S"] by simp
  qed
  show "prefix_of s = take (length (prefix_of s)) S"
    using * le by (intro nth_equalityI) auto
qed

lemma stage_all_ok:
  "inv S s \<Longrightarrow> \<forall>c\<in>set cs. adm S c \<Longrightarrow>
   \<exists>s'. stage_all stage s cs = Some s' \<and> inv S s'
     \<and> dom (content s') = dom (content s) \<union> (\<Union>c\<in>set cs. dom (bytes_of c))"
proof (induction cs arbitrary: s)
  case (Cons c cs)
  obtain rc s' where c: "stage s c = (rc, s')" "0 \<le> rc" "inv S s'" "content s' = content s ++ bytes_of c"
    using stage_ok [OF Cons.prems(1), of c] Cons.prems(2) by auto
  then show ?case using Cons.IH [of s'] Cons.prems(2) by (auto simp: Un_assoc)
qed simp

text \<open>
  Chunks of a stream that arrive in any order, with any repetition and overlap, are all
  accepted, and what is then readable is the longest prefix of the stream they cover.
\<close>

lemma delivery:
  assumes "inv S s" "\<forall>c\<in>set cs. adm S c"
  shows "\<exists>s'. stage_all stage s cs = Some s' \<and> inv S s'
    \<and> prefix_of s' = take (length (prefix_of s')) S
    \<and> {..<length (prefix_of s')} \<subseteq> dom (content s) \<union> (\<Union>c\<in>set cs. dom (bytes_of c))
    \<and> length (prefix_of s') \<notin> dom (content s) \<union> (\<Union>c\<in>set cs. dom (bytes_of c))"
proof -
  obtain s' where s': "stage_all stage s cs = Some s'" "inv S s'"
    "dom (content s') = dom (content s) \<union> (\<Union>c\<in>set cs. dom (bytes_of c))"
    using stage_all_ok [OF assms] by blast
  have "{..<length (prefix_of s')} \<subseteq> dom (content s')" using prefix_nth [OF s'(2)] by blast
  moreover have "length (prefix_of s') \<notin> dom (content s')" using prefix_end [OF s'(2)] by blast
  ultimately show ?thesis
    using s' prefix_take(1) [OF s'(2)] unfolding s'(3) by blast
qed

lemma delivery_complete:
  assumes "inv S s" "\<forall>c\<in>set cs. adm S c"
    and "{..<length S} \<subseteq> dom (content s) \<union> (\<Union>c\<in>set cs. dom (bytes_of c))"
  shows "\<exists>s'. stage_all stage s cs = Some s' \<and> inv S s' \<and> prefix_of s' = S"
proof -
  obtain s' where s': "stage_all stage s cs = Some s'" "inv S s'"
    "prefix_of s' = take (length (prefix_of s')) S"
    "length (prefix_of s') \<notin> dom (content s) \<union> (\<Union>c\<in>set cs. dom (bytes_of c))"
    using delivery [OF assms(1,2)] by blast
  have "\<not> length (prefix_of s') < length S" using s'(4) assms(3) by blast
  then have "length (prefix_of s') = length S" using prefix_take(2) [OF s'(2)] by simp
  then show ?thesis using s'(1-3) by auto
qed

end

end
