(* ===== verification/Crypto_Stream.thy ===== *)
theory Crypto_Stream
  imports Reassembly
begin

text \<open>
  The CRYPTO byte stream: \<open>userspace/quic/crypto_stream.c\<close>. The receive side stages chunks
  that arrive in any order into a buffer with one received-bit per byte and exposes the
  in-order prefix; the send side slices a queue of pending bytes. The storage the caller owns
  (\<open>data\<close>, \<open>bitmap\<close>) is part of the state here, and the capacities are the lengths of the lists.
\<close>

section \<open>Definitions\<close>

record quic_crypto_rx =
  rx_data :: bytes
  rx_contig_len :: nat
  rx_highest :: nat
  rx_bitmap :: bytes
  rx_consumed :: nat

definition bm_get :: "bytes \<Rightarrow> nat \<Rightarrow> bool" where
  "bm_get bm i \<longleftrightarrow> drop_bit (i mod 8) (bm ! (i div 8)) AND 1 \<noteq> 0"

definition bm_set :: "bytes \<Rightarrow> nat \<Rightarrow> bytes" where
  "bm_set bm i = bm[i div 8 := (bm ! (i div 8)) OR push_bit (i mod 8) 1]"

definition quic_crypto_rx_init :: "bytes \<Rightarrow> nat \<Rightarrow> quic_crypto_rx" where
  "quic_crypto_rx_init data bitmap_cap =
     \<lparr>rx_data = data, rx_contig_len = 0, rx_highest = 0,
      rx_bitmap = replicate bitmap_cap 0, rx_consumed = 0\<rparr>"

text \<open>
  The staging loop over the payload from position \<open>pos\<close>: it stops at the first byte that
  contradicts one received before, and leaves what it wrote until then.
\<close>

fun stage_loop :: "bytes \<Rightarrow> bytes \<Rightarrow> nat \<Rightarrow> bytes \<Rightarrow> bool \<Rightarrow> bool \<times> bool \<times> bytes \<times> bytes" where
  "stage_loop data bm pos [] saw_new = (True, saw_new, data, bm)"
| "stage_loop data bm pos (b # bs) saw_new =
     (if bm_get bm pos then
        (if data ! pos \<noteq> b then (False, saw_new, data, bm)
         else stage_loop data bm (Suc pos) bs saw_new)
      else stage_loop (data[pos := b]) (bm_set bm pos) (Suc pos) bs True)"

function extend_contig :: "bytes \<Rightarrow> nat \<Rightarrow> nat \<Rightarrow> nat" where
  "extend_contig bm highest c =
     (if c < highest \<and> bm_get bm c then extend_contig bm highest (Suc c) else c)"
  by pat_completeness auto
termination
  by (relation "measure (\<lambda>(bm, highest, c). highest - c)") auto

declare extend_contig.simps [simp del]

definition quic_crypto_rx_stage :: "quic_crypto_rx \<Rightarrow> u64 \<Rightarrow> bytes \<Rightarrow> int \<times> quic_crypto_rx" where
  "quic_crypto_rx_stage rx offset payload =
     (let len = length payload; cap = length (rx_data rx) in
      if len = 0 then (0, rx)
      else if unat offset > cap \<or> len > cap - unat offset then (-1, rx)
      else if (unat offset + len + 7) div 8 > length (rx_bitmap rx) then (-1, rx)
      else
        let off = unat offset;
            (ok, saw_new, data, bm) = stage_loop (rx_data rx) (rx_bitmap rx) off payload False;
            rx = rx\<lparr>rx_data := data, rx_bitmap := bm\<rparr>
        in if \<not> ok then (-1, rx)
           else
             let highest = (if off + len > rx_highest rx then off + len else rx_highest rx);
                 contig = extend_contig bm highest (rx_contig_len rx)
             in (if saw_new then 1 else 0,
                 rx\<lparr>rx_highest := highest, rx_contig_len := contig\<rparr>))"

text \<open>The next unread in-order run; the empty list where the C function returns NULL.\<close>

definition quic_crypto_rx_peek :: "quic_crypto_rx \<Rightarrow> bytes" where
  "quic_crypto_rx_peek rx =
     (if rx_consumed rx \<ge> rx_contig_len rx then []
      else take (rx_contig_len rx - rx_consumed rx) (drop (rx_consumed rx) (rx_data rx)))"

definition quic_crypto_rx_advance :: "quic_crypto_rx \<Rightarrow> nat \<Rightarrow> quic_crypto_rx" where
  "quic_crypto_rx_advance rx n =
     (let n = (if n > rx_contig_len rx - rx_consumed rx
               then rx_contig_len rx - rx_consumed rx else n)
      in rx\<lparr>rx_consumed := rx_consumed rx + n\<rparr>)"

record quic_crypto_tx =
  tx_pending :: bytes
  tx_next_offset :: u64

definition quic_crypto_tx_init :: quic_crypto_tx where
  "quic_crypto_tx_init = \<lparr>tx_pending = [], tx_next_offset = 0\<rparr>"

definition quic_crypto_tx_set_pending :: "quic_crypto_tx \<Rightarrow> bytes \<Rightarrow> quic_crypto_tx" where
  "quic_crypto_tx_set_pending tx pending = tx\<lparr>tx_pending := pending\<rparr>"

definition quic_crypto_tx_next :: "quic_crypto_tx \<Rightarrow> nat \<Rightarrow> (u64 \<times> bytes) option" where
  "quic_crypto_tx_next tx max_payload =
     (if length (tx_pending tx) = 0 \<or> max_payload = 0 then None
      else
        let n = (if length (tx_pending tx) < max_payload then length (tx_pending tx)
                 else max_payload)
        in Some (tx_next_offset tx, take n (tx_pending tx)))"

definition quic_crypto_tx_consume :: "quic_crypto_tx \<Rightarrow> nat \<Rightarrow> quic_crypto_tx" where
  "quic_crypto_tx_consume tx n0 =
     (let n = (if n0 > length (tx_pending tx) then length (tx_pending tx) else n0)
      in tx\<lparr>tx_pending := drop n (tx_pending tx),
            tx_next_offset := tx_next_offset tx + word_of_nat n\<rparr>)"

section \<open>The received-bit map\<close>

lemma bm_get_bit: "bm_get bm i \<longleftrightarrow> bit (bm ! (i div 8)) (i mod 8)"
proof -
  have "drop_bit n w AND 1 \<noteq> 0 \<longleftrightarrow> bit w n" for w :: byte and n
    by (simp add: and_one_eq bit_iff_odd_drop_bit mod_2_eq_odd)
  then show ?thesis by (simp add: bm_get_def)
qed

lemma length_bm_set [simp]: "length (bm_set bm i) = length bm"
  by (simp add: bm_set_def)

lemma bm_get_set:
  assumes "i < 8 * length bm" "j < 8 * length bm"
  shows "bm_get (bm_set bm i) j \<longleftrightarrow> j = i \<or> bm_get bm j"
proof -
  have i: "i div 8 < length bm" using assms(1) by auto
  show ?thesis
  proof (cases "i div 8 = j div 8")
    case True
    have "j = i \<longleftrightarrow> j mod 8 = i mod 8"
      using True by (metis div_mult_mod_eq)
    then show ?thesis using True i
      by (auto simp: bm_get_bit bm_set_def bit_simps)
  next
    case False
    then show ?thesis using i by (auto simp: bm_get_bit bm_set_def)
  qed
qed

lemma bm_get_replicate: "i < 8 * n \<Longrightarrow> \<not> bm_get (replicate n 0) i"
  by (simp add: bm_get_bit less_mult_imp_div_less mult.commute)

section \<open>What has been received\<close>

text \<open>
  The abstract state of the receive side: which byte was received at which offset.
\<close>

definition rx_map :: "bytes \<Rightarrow> bytes \<Rightarrow> nat \<rightharpoonup> byte" where
  "rx_map data bm i = (if i < length data \<and> bm_get bm i then Some (data ! i) else None)"

lemma rx_map_write:
  assumes "pos < length data" "length data \<le> 8 * length bm"
  shows "rx_map (data[pos := b]) (bm_set bm pos) = (rx_map data bm)(pos \<mapsto> b)"
  using assms by (auto simp: rx_map_def bm_get_set fun_eq_iff nth_list_update)

text \<open>
  The loop succeeds exactly when the payload agrees with what was received before, and then
  adds the payload to it.
\<close>

lemma stage_loop_spec:
  assumes "stage_loop data bm pos bs saw = (ok, saw', data', bm')"
    and "pos + length bs \<le> length data" "length data \<le> 8 * length bm"
  shows "length data' = length data \<and> length bm' = length bm
    \<and> (ok \<longleftrightarrow> agrees (rx_map data bm) (chunk pos bs))
    \<and> (ok \<longrightarrow> rx_map data' bm' = rx_map data bm ++ chunk pos bs)
    \<and> (ok \<longrightarrow> (saw' \<longleftrightarrow> saw \<or> \<not> dom (chunk pos bs) \<subseteq> dom (rx_map data bm)))"
  using assms
proof (induction data bm pos bs saw arbitrary: ok saw' data' bm' rule: stage_loop.induct)
  case (1 data bm pos saw)
  then show ?case by (auto simp: agrees_def)
next
  case (2 data bm pos b bs saw)
  have pos: "pos < length data" using 2(4) by simp
  show ?case
  proof (cases "bm_get bm pos")
    case True
    then have m: "rx_map data bm pos = Some (data ! pos)" using pos by (simp add: rx_map_def)
    show ?thesis
    proof (cases "data ! pos = b")
      case eq: True
      have ins: "rx_map data bm ++ chunk pos (b # bs) = rx_map data bm ++ chunk (Suc pos) bs"
        unfolding chunk_Cons using m eq by (auto simp: fun_eq_iff map_add_def chunk_def)
      have "pos \<in> dom (rx_map data bm)" using m by auto
      then show ?thesis using 2(1) [OF True, of ok saw' data' bm'] 2(3-) True eq m ins
        by (simp add: agrees_chunk_Cons dom_chunk_Cons)
    next
      case False
      then show ?thesis using 2(3-) True m by (auto simp: agrees_chunk_Cons)
    qed
  next
    case False
    then have m: "rx_map data bm pos = None" by (simp add: rx_map_def)
    have w: "rx_map (data[pos := b]) (bm_set bm pos) = (rx_map data bm)(pos \<mapsto> b)"
      using pos 2(5) by (rule rx_map_write)
    have ins: "(rx_map data bm)(pos \<mapsto> b) ++ chunk (Suc pos) bs = rx_map data bm ++ chunk pos (b # bs)"
      unfolding chunk_Cons by (auto simp: fun_eq_iff map_add_def chunk_def)
    have "pos \<notin> dom (rx_map data bm)" using m by auto
    moreover have "stage_loop (data[pos := b]) (bm_set bm pos) (Suc pos) bs True = (ok, saw', data', bm')"
      using 2(3) False by simp
    note IH = 2(2) [OF False this, unfolded w ins agrees_upd_other length_list_update length_bm_set]
    ultimately show ?thesis using IH 2(4,5) m by (auto simp: agrees_chunk_Cons dom_chunk_Cons)
  qed
qed

text \<open>A loop that fails has added the payload up to the first byte that contradicts a received one.\<close>

lemma stage_loop_conflict:
  assumes "stage_loop data bm pos bs saw = (False, saw', data', bm')"
    and "pos + length bs \<le> length data" "length data \<le> 8 * length bm"
  shows "\<exists>q b r d. bs = q @ b # r \<and> agrees (rx_map data bm) (chunk pos q)
    \<and> rx_map data bm (pos + length q) = Some d \<and> d \<noteq> b \<and> rx_map data' bm' = rx_map data bm ++ chunk pos q"
  using assms
proof (induction data bm pos bs saw arbitrary: saw' data' bm' rule: stage_loop.induct)
  case (2 data bm pos b bs saw)
  have pos: "pos < length data" using 2(4) by simp
  show ?case
  proof (cases "bm_get bm pos \<and> data ! pos \<noteq> b")
    case True
    then show ?thesis using 2(3) pos by (intro exI [of _ "[]"] exI [of _ b] exI [of _ bs] exI [of _ "data ! pos"]) (auto simp: agrees_def rx_map_def)
  next
    case False
    define m where "m = (if bm_get bm pos then rx_map data bm else (rx_map data bm)(pos \<mapsto> b))"
    have "\<exists>q c r d. bs = q @ c # r \<and> agrees m (chunk (Suc pos) q) \<and> m (Suc pos + length q) = Some d \<and> d \<noteq> c
      \<and> rx_map data' bm' = m ++ chunk (Suc pos) q"
    proof (cases "bm_get bm pos")
      case True
      then show ?thesis using 2(1) [OF True, of saw' data' bm'] 2(3-) False by (simp add: m_def)
    next
      case f: False
      have "stage_loop (data[pos := b]) (bm_set bm pos) (Suc pos) bs True = (False, saw', data', bm')" using 2(3) f by simp
      moreover have "m = rx_map (data[pos := b]) (bm_set bm pos)" using f rx_map_write [OF pos 2(5), of b] by (simp add: m_def)
      ultimately show ?thesis using 2(2) [OF f, of saw' data' bm'] 2(4,5) by simp
    qed
    then obtain q c r d where q: "bs = q @ c # r" "agrees m (chunk (Suc pos) q)" "m (Suc pos + length q) = Some d" "d \<noteq> c"
      "rx_map data' bm' = m ++ chunk (Suc pos) q" by blast
    have mp: "bm_get bm pos \<Longrightarrow> rx_map data bm pos = Some b" using False pos by (simp add: rx_map_def)
    have "agrees (rx_map data bm) (chunk pos (b # q))"
      using q(2) mp by (auto simp: m_def agrees_chunk_Cons agrees_upd_other rx_map_def split: if_splits)
    moreover have "m ++ chunk (Suc pos) q = rx_map data bm ++ chunk pos (b # q)"
      unfolding chunk_Cons m_def using mp by (auto simp: fun_eq_iff map_add_def chunk_def)
    moreover have "rx_map data bm (pos + length (b # q)) = Some d" using q(3) by (simp add: m_def split: if_splits)
    ultimately show ?thesis using q(1,4,5) by (intro exI [of _ "b # q"] exI [of _ c] exI [of _ r] exI [of _ d]) auto
  qed
qed simp

lemma extend_contig_spec:
  assumes "c \<le> highest"
  shows "c \<le> extend_contig bm highest c \<and> extend_contig bm highest c \<le> highest
    \<and> (\<forall>i. c \<le> i \<and> i < extend_contig bm highest c \<longrightarrow> bm_get bm i)
    \<and> (extend_contig bm highest c < highest \<longrightarrow> \<not> bm_get bm (extend_contig bm highest c))"
  using assms
proof (induction bm highest c rule: extend_contig.induct)
  case (1 bm highest c)
  show ?case
  proof (cases "c < highest \<and> bm_get bm c")
    case True
    then have "extend_contig bm highest c = extend_contig bm highest (Suc c)"
      by (subst extend_contig.simps) auto
    then show ?thesis using 1(1) [OF True] True
      by (metis Suc_leI Suc_leD le_neq_implies_less nat_less_le)
  next
    case False
    then have "extend_contig bm highest c = c" by (subst extend_contig.simps) auto
    then show ?thesis using False 1(2) by auto
  qed
qed

section \<open>The receive side keeps its invariant\<close>

definition rx_content :: "quic_crypto_rx \<Rightarrow> nat \<rightharpoonup> byte" where
  "rx_content rx = rx_map (rx_data rx) (rx_bitmap rx)"

definition rx_prefix :: "quic_crypto_rx \<Rightarrow> bytes" where
  "rx_prefix rx = take (rx_contig_len rx) (rx_data rx)"

definition rx_inv :: "quic_crypto_rx \<Rightarrow> bool" where
  "rx_inv rx \<longleftrightarrow>
     length (rx_data rx) \<le> 8 * length (rx_bitmap rx)
     \<and> rx_consumed rx \<le> rx_contig_len rx \<and> rx_contig_len rx \<le> rx_highest rx
     \<and> rx_highest rx \<le> length (rx_data rx)
     \<and> dom (rx_content rx) \<subseteq> {..<rx_highest rx}
     \<and> {..<rx_contig_len rx} \<subseteq> dom (rx_content rx)
     \<and> rx_contig_len rx \<notin> dom (rx_content rx)"

lemma rx_content_init:
  "length data \<le> 8 * n \<Longrightarrow> rx_content (quic_crypto_rx_init data n) = Map.empty"
  by (auto simp: rx_content_def quic_crypto_rx_init_def rx_map_def bm_get_replicate)

lemma rx_init_inv: "length data \<le> 8 * n \<Longrightarrow> rx_inv (quic_crypto_rx_init data n)"
  using rx_content_init [of data n] by (simp add: rx_inv_def quic_crypto_rx_init_def)

lemma extend_contig_dom:
  assumes "c \<le> h" "h \<le> length data" "dom (rx_map data bm) \<subseteq> {..<h}" "{..<c} \<subseteq> dom (rx_map data bm)"
  shows "c \<le> extend_contig bm h c" "extend_contig bm h c \<le> h"
    "{..<extend_contig bm h c} \<subseteq> dom (rx_map data bm)"
    "extend_contig bm h c \<notin> dom (rx_map data bm)"
proof -
  let ?e = "extend_contig bm h c"
  note sp = extend_contig_spec [OF assms(1), of bm]
  show "c \<le> ?e" "?e \<le> h" using sp by simp_all
  show "{..<?e} \<subseteq> dom (rx_map data bm)"
  proof
    fix i assume "i \<in> {..<?e}"
    then show "i \<in> dom (rx_map data bm)"
      using sp assms(2,4) by (cases "i < c") (auto simp: rx_map_def)
  qed
  show "?e \<notin> dom (rx_map data bm)"
    using sp assms(3) by (cases "?e < h") (auto simp: rx_map_def)
qed

lemma rx_stage_ok:
  assumes inv: "rx_inv rx" and fit: "unat off + length p \<le> length (rx_data rx)"
    and agr: "agrees (rx_content rx) (chunk (unat off) p)"
  shows "\<exists>rc rx'. quic_crypto_rx_stage rx off p = (rc, rx') \<and> rx_inv rx'
    \<and> rc = (if dom (chunk (unat off) p) \<subseteq> dom (rx_content rx) then 0 else 1)
    \<and> rx_content rx' = rx_content rx ++ chunk (unat off) p
    \<and> length (rx_data rx') = length (rx_data rx) \<and> rx_consumed rx' = rx_consumed rx
    \<and> rx_contig_len rx \<le> rx_contig_len rx'"
proof (cases "p = []")
  case True
  then show ?thesis using inv by (simp add: quic_crypto_rx_stage_def)
next
  case False
  obtain ok saw d b where sl: "stage_loop (rx_data rx) (rx_bitmap rx) (unat off) p False = (ok, saw, d, b)"
    by (metis prod_cases4)
  have big: "length (rx_data rx) \<le> 8 * length (rx_bitmap rx)" using inv by (simp add: rx_inv_def)
  note sp = stage_loop_spec [OF sl fit big]
  have ok: ok and m: "rx_map d b = rx_content rx ++ chunk (unat off) p"
    and saw: "saw \<longleftrightarrow> \<not> dom (chunk (unat off) p) \<subseteq> dom (rx_content rx)"
    and len: "length d = length (rx_data rx)" "length b = length (rx_bitmap rx)"
    using sp agr by (simp_all add: rx_content_def)
  let ?h = "if unat off + length p > rx_highest rx then unat off + length p else rx_highest rx"
  let ?c = "extend_contig b ?h (rx_contig_len rx)"
  let ?rx = "rx\<lparr>rx_data := d, rx_bitmap := b, rx_highest := ?h, rx_contig_len := ?c\<rparr>"
  have guards: "\<not> length (rx_data rx) < unat off" "\<not> length (rx_data rx) - unat off < length p"
    "\<not> length (rx_bitmap rx) < (unat off + length p + 7) div 8"
    using fit big by linarith+
  have r: "quic_crypto_rx_stage rx off p = (if saw then 1 else 0, ?rx)"
    using False ok guards by (simp add: quic_crypto_rx_stage_def Let_def sl)
  have h: "rx_contig_len rx \<le> ?h" "?h \<le> length d" "dom (rx_map d b) \<subseteq> {..<?h}"
    "{..<rx_contig_len rx} \<subseteq> dom (rx_map d b)"
    using inv fit len by (auto simp: rx_inv_def m dom_chunk)
  note e = extend_contig_dom [OF h]
  have "rx_inv ?rx" using inv h e big len by (auto simp: rx_inv_def rx_content_def)
  then show ?thesis using r saw m len e(1) by (auto simp: rx_content_def)
qed

text \<open>A chunk that contradicts an earlier one, or does not fit, is refused.\<close>

lemma rx_stage_conflict:
  assumes "rx_inv rx" "unat off + length p \<le> length (rx_data rx)"
    and "\<not> agrees (rx_content rx) (chunk (unat off) p)"
  obtains rx' q b r d where "quic_crypto_rx_stage rx off p = (- 1, rx')" "p = q @ b # r"
    "agrees (rx_content rx) (chunk (unat off) q)" "rx_content rx (unat off + length q) = Some d" "d \<noteq> b"
    "rx_content rx' = rx_content rx ++ chunk (unat off) q" "quic_crypto_rx_peek rx' = quic_crypto_rx_peek rx"
proof -
  obtain ok saw d b where sl: "stage_loop (rx_data rx) (rx_bitmap rx) (unat off) p False = (ok, saw, d, b)"
    by (metis prod_cases4)
  have big: "length (rx_data rx) \<le> 8 * length (rx_bitmap rx)" using assms(1) by (simp add: rx_inv_def)
  note sp = stage_loop_spec [OF sl assms(2) big]
  have nok: "ok = False" using sp assms(3) by (simp add: rx_content_def)
  let ?rx = "rx\<lparr>rx_data := d, rx_bitmap := b\<rparr>"
  have "p \<noteq> []" using assms(3) by (auto simp: agrees_def)
  then have st: "quic_crypto_rx_stage rx off p = (- 1, ?rx)" using nok assms(2) big by (simp add: quic_crypto_rx_stage_def Let_def sl)
  obtain q c r e where q: "p = q @ c # r" "agrees (rx_content rx) (chunk (unat off) q)" "rx_content rx (unat off + length q) = Some e"
    "e \<noteq> c" "rx_map d b = rx_content rx ++ chunk (unat off) q"
    using stage_loop_conflict [OF sl [unfolded nok] assms(2) big] unfolding rx_content_def by blast
  have "d ! i = rx_data rx ! i" if "i < rx_contig_len rx" for i
  proof -
    have i: "rx_content rx i = Some (rx_data rx ! i)" using assms(1) that by (auto simp: rx_inv_def rx_content_def rx_map_def split: if_splits)
    then have "rx_map d b i = Some (rx_data rx ! i)" unfolding q(5)
      using q(2) [unfolded agrees_def, rule_format, of i] by (auto simp: map_add_def split: option.split)
    then show ?thesis by (simp add: rx_map_def split: if_splits)
  qed
  then have "quic_crypto_rx_peek ?rx = quic_crypto_rx_peek rx"
    using sp assms(1) by (auto simp: quic_crypto_rx_peek_def rx_inv_def intro!: nth_equalityI)
  then show ?thesis using that [OF st q(1-4)] q(5) by (simp add: rx_content_def)
qed

lemma rx_stage_overflow:
  assumes "p \<noteq> []" "length (rx_data rx) < unat off + length p"
  shows "quic_crypto_rx_stage rx off p = (- 1, rx)"
  using assms by (auto simp: quic_crypto_rx_stage_def Let_def)

lemma rx_advance_inv: "rx_inv rx \<Longrightarrow> rx_inv (quic_crypto_rx_advance rx n)"
  by (auto simp: quic_crypto_rx_advance_def Let_def rx_inv_def rx_content_def)

lemma rx_prefix_content:
  assumes "rx_inv rx"
  shows "length (rx_prefix rx) = rx_contig_len rx"
    and "i < length (rx_prefix rx) \<Longrightarrow> rx_content rx i = Some (rx_prefix rx ! i)"
    and "rx_content rx (length (rx_prefix rx)) = None"
proof -
  show len: "length (rx_prefix rx) = rx_contig_len rx"
    using assms by (auto simp: rx_inv_def rx_prefix_def)
  show "rx_content rx i = Some (rx_prefix rx ! i)" if "i < length (rx_prefix rx)"
  proof -
    have "i \<in> dom (rx_content rx)" using that len assms by (auto simp: rx_inv_def)
    then show ?thesis using that len by (auto simp: rx_content_def rx_map_def rx_prefix_def split: if_splits)
  qed
  show "rx_content rx (length (rx_prefix rx)) = None"
    using assms len by (auto simp: rx_inv_def)
qed

lemma rx_peek_prefix:
  "rx_inv rx \<Longrightarrow> quic_crypto_rx_peek rx = drop (rx_consumed rx) (rx_prefix rx)"
  by (auto simp: quic_crypto_rx_peek_def rx_prefix_def rx_inv_def drop_take)

section \<open>The receive side is a reassembler\<close>

definition rx_stage_chunk :: "quic_crypto_rx \<Rightarrow> u64 \<times> bytes \<Rightarrow> int \<times> quic_crypto_rx" where
  "rx_stage_chunk rx c = quic_crypto_rx_stage rx (fst c) (snd c)"

definition chunk_of :: "u64 \<times> bytes \<Rightarrow> nat \<rightharpoonup> byte" where
  "chunk_of c = chunk (unat (fst c)) (snd c)"

definition slice_of :: "bytes \<Rightarrow> u64 \<times> bytes \<Rightarrow> bool" where
  "slice_of S c \<longleftrightarrow> unat (fst c) + length (snd c) \<le> length S
     \<and> snd c = take (length (snd c)) (drop (unat (fst c)) S)"

definition rx_inv_for :: "bytes \<Rightarrow> quic_crypto_rx \<Rightarrow> bool" where
  "rx_inv_for S rx \<longleftrightarrow> rx_inv rx \<and> length S \<le> length (rx_data rx) \<and> rx_content rx \<subseteq>\<^sub>m chunk 0 S"

lemma slice_sub: "slice_of S c \<Longrightarrow> chunk_of c \<subseteq>\<^sub>m chunk 0 S"
  unfolding slice_of_def chunk_of_def by (rule chunk_slice) auto

lemma map_le_add: "m \<subseteq>\<^sub>m c \<Longrightarrow> m' \<subseteq>\<^sub>m c \<Longrightarrow> m ++ m' \<subseteq>\<^sub>m c"
  unfolding map_le_def by (metis domIff map_add_None map_add_dom_app_simps(1,3))

lemma rx_stage_slice:
  assumes "rx_inv_for S rx" "slice_of S c"
  shows "\<exists>rc rx'. rx_stage_chunk rx c = (rc, rx') \<and> 0 \<le> rc \<and> rx_inv_for S rx'
    \<and> rx_content rx' = rx_content rx ++ chunk_of c \<and> rx_consumed rx' = rx_consumed rx"
proof -
  have fit: "unat (fst c) + length (snd c) \<le> length (rx_data rx)"
    using assms by (auto simp: slice_of_def rx_inv_for_def)
  have agr: "agrees (rx_content rx) (chunk (unat (fst c)) (snd c))"
    using agrees_sub slice_sub [OF assms(2)] assms(1) by (auto simp: rx_inv_for_def chunk_of_def)
  have "rx_inv rx" using assms(1) by (simp add: rx_inv_for_def)
  from rx_stage_ok [OF this fit agr] show ?thesis
    using assms(1) map_le_add [OF _ slice_sub [OF assms(2)], of "rx_content rx"]
    by (auto simp: rx_stage_chunk_def chunk_of_def rx_inv_for_def)
qed

interpretation crx: reassembler rx_inv_for slice_of chunk_of rx_content rx_prefix rx_stage_chunk
proof
  show "chunk_of c \<subseteq>\<^sub>m chunk 0 S" if "slice_of S c" for S c
    using that by (rule slice_sub)
  show "rx_content rx \<subseteq>\<^sub>m chunk 0 S" if "rx_inv_for S rx" for S rx
    using that by (simp add: rx_inv_for_def)
  show "\<exists>rc rx'. rx_stage_chunk rx c = (rc, rx') \<and> 0 \<le> rc \<and> rx_inv_for S rx'
      \<and> rx_content rx' = rx_content rx ++ chunk_of c"
    if "rx_inv_for S rx" "slice_of S c" for S rx c
    using rx_stage_slice [OF that] by blast
  show "rx_content rx i = Some (rx_prefix rx ! i)"
    if "rx_inv_for S rx" "i < length (rx_prefix rx)" for S rx i
    using that rx_prefix_content(2) by (simp add: rx_inv_for_def)
  show "rx_content rx (length (rx_prefix rx)) = None" if "rx_inv_for S rx" for S rx
    using that rx_prefix_content(3) by (simp add: rx_inv_for_def)
qed

lemma stage_all_consumed:
  "rx_inv_for S rx \<Longrightarrow> \<forall>c\<in>set cs. slice_of S c \<Longrightarrow> stage_all rx_stage_chunk rx cs = Some rx' \<Longrightarrow>
   rx_consumed rx' = rx_consumed rx"
proof (induction cs arbitrary: rx)
  case (Cons c cs)
  then show ?case using rx_stage_slice [of S rx c] by fastforce
qed simp

lemma rx_inv_for_init:
  assumes "length data \<le> 8 * n" "length S \<le> length data"
  shows "rx_inv_for S (quic_crypto_rx_init data n)"
  using assms rx_init_inv [OF assms(1)] rx_content_init [OF assms(1)]
  by (simp add: rx_inv_for_def) (simp add: quic_crypto_rx_init_def)

section \<open>The send side\<close>

text \<open>
  The sender's loop: take the next slice for each payload budget of a list and consume it.
\<close>

primrec tx_drain :: "quic_crypto_tx \<Rightarrow> nat list \<Rightarrow> (u64 \<times> bytes) list \<times> quic_crypto_tx" where
  "tx_drain tx [] = ([], tx)"
| "tx_drain tx (m # ms) =
     (case quic_crypto_tx_next tx m of
        None \<Rightarrow> tx_drain tx ms
      | Some c \<Rightarrow> let (cs, tx') = tx_drain (quic_crypto_tx_consume tx (length (snd c))) ms
                  in (c # cs, tx'))"

definition tx_at :: "bytes \<Rightarrow> quic_crypto_tx \<Rightarrow> bool" where
  "tx_at S tx \<longleftrightarrow> unat (tx_next_offset tx) \<le> length S \<and> length S < 2 ^ 64
     \<and> tx_pending tx = drop (unat (tx_next_offset tx)) S"

lemma tx_at_init: "length S < 2 ^ 64 \<Longrightarrow> tx_at S (quic_crypto_tx_set_pending quic_crypto_tx_init S)"
  by (simp add: tx_at_def quic_crypto_tx_set_pending_def quic_crypto_tx_init_def)

lemma tx_offset_add:
  assumes "unat (x :: u64) + n \<le> L" "L < 2 ^ 64"
  shows "unat (x + word_of_nat n) = unat x + n"
proof -
  have "unat (word_of_nat n :: u64) = n" using assms by (simp add: unat_of_nat)
  then show ?thesis using assms by (simp add: unat_word_ariths(1))
qed

lemma tx_next_step:
  assumes "tx_at S tx" "quic_crypto_tx_next tx m = Some c"
  shows "slice_of S c" "snd c \<noteq> []" "length (snd c) \<le> m" "fst c = tx_next_offset tx"
    "tx_at S (quic_crypto_tx_consume tx (length (snd c)))"
    "unat (tx_next_offset (quic_crypto_tx_consume tx (length (snd c)))) = unat (fst c) + length (snd c)"
proof -
  define n where "n = min (length (tx_pending tx)) m"
  have c: "c = (tx_next_offset tx, take n (tx_pending tx))" and nz: "0 < n"
    using assms(2) by (auto simp: quic_crypto_tx_next_def Let_def min_def n_def split: if_splits)
  have len: "length (snd c) = n" by (simp add: c n_def)
  have pend: "tx_pending tx = drop (unat (tx_next_offset tx)) S"
    and off: "unat (tx_next_offset tx) \<le> length S" "length S < 2 ^ 64"
    using assms(1) by (simp_all add: tx_at_def)
  have fit: "unat (tx_next_offset tx) + n \<le> length S" using off(1) by (simp add: pend n_def)
  note sum = tx_offset_add [OF fit off(2)]
  show "slice_of S c" using fit len by (simp add: slice_of_def) (simp add: c pend)
  show "snd c \<noteq> []" "length (snd c) \<le> m" using nz by (auto simp: c n_def)
  show "fst c = tx_next_offset tx" by (simp add: c)
  have cons: "quic_crypto_tx_consume tx n =
      tx\<lparr>tx_pending := drop n (tx_pending tx), tx_next_offset := tx_next_offset tx + word_of_nat n\<rparr>"
    by (simp add: quic_crypto_tx_consume_def Let_def n_def)
  show "unat (tx_next_offset (quic_crypto_tx_consume tx (length (snd c)))) = unat (fst c) + length (snd c)"
    unfolding len cons by (simp add: c sum)
  show "tx_at S (quic_crypto_tx_consume tx (length (snd c)))"
    unfolding len cons using fit off(2) pend by (simp add: tx_at_def sum add.commute)
qed

lemma tx_drain_slices:
  "tx_at S tx \<Longrightarrow> tx_drain tx ms = (cs, tx') \<Longrightarrow>
   tx_at S tx' \<and> (\<forall>c\<in>set cs. slice_of S c)
   \<and> {unat (tx_next_offset tx)..<unat (tx_next_offset tx')} \<subseteq> (\<Union>c\<in>set cs. dom (chunk_of c))
   \<and> concat (map snd cs) @ tx_pending tx' = tx_pending tx"
proof (induction ms arbitrary: tx cs)
  case (Cons m ms)
  show ?case
  proof (cases "quic_crypto_tx_next tx m")
    case None
    then show ?thesis using Cons by simp
  next
    case (Some c)
    obtain cs' where d: "tx_drain (quic_crypto_tx_consume tx (length (snd c))) ms = (cs', tx')"
      and cs: "cs = c # cs'"
      using Cons.prems(2) Some by (auto split: prod.splits)
    note st = tx_next_step [OF Cons.prems(1) Some]
    note IH = Cons.IH [OF st(5) d, unfolded st(6)]
    have "{unat (tx_next_offset tx)..<unat (tx_next_offset tx')}
        \<subseteq> dom (chunk_of c) \<union> {unat (fst c) + length (snd c)..<unat (tx_next_offset tx')}"
      using st(4) by (auto simp: chunk_of_def dom_chunk)
    moreover have "snd c @ tx_pending (quic_crypto_tx_consume tx (length (snd c))) = tx_pending tx"
      using Some by (auto simp: quic_crypto_tx_next_def quic_crypto_tx_consume_def Let_def split: if_splits)
    ultimately show ?thesis using IH st(1) by (auto simp: cs)
  qed
qed simp

section \<open>Properties\<close>

text \<open>
  C8: The slices the sender cuts from a byte string under any sequence of payload budgets,
  delivered to a fresh receive buffer in any order and with any repetition, are all accepted,
  and once the sender has nothing pending the receiver can read exactly that byte string.
\<close>

theorem crypto_stream_delivery:
  assumes "tx_drain (quic_crypto_tx_set_pending quic_crypto_tx_init S) budgets = (cs, tx')"
    and "tx_pending tx' = []" "set arrived = set cs"
    and "length S \<le> length data" "length data \<le> 8 * bitmap_cap" "length S < 2 ^ 64"
  shows "\<exists>rx. stage_all rx_stage_chunk (quic_crypto_rx_init data bitmap_cap) arrived = Some rx
    \<and> quic_crypto_rx_peek rx = S"
proof -
  let ?rx = "quic_crypto_rx_init data bitmap_cap"
  note d = tx_drain_slices [OF tx_at_init [OF assms(6)] assms(1)]
  have "unat (tx_next_offset tx') = length S" using d assms(2) by (auto simp: tx_at_def)
  then have cov: "{..<length S} \<subseteq> (\<Union>c\<in>set arrived. dom (chunk_of c))"
    using d unfolding assms(3)
    by (auto simp: quic_crypto_tx_set_pending_def quic_crypto_tx_init_def lessThan_atLeast0)
  have inv: "rx_inv_for S ?rx" using assms(5,4) by (rule rx_inv_for_init)
  have adm: "\<forall>c\<in>set arrived. slice_of S c" using d unfolding assms(3) by blast
  obtain rx where rx: "stage_all rx_stage_chunk ?rx arrived = Some rx" "rx_inv_for S rx" "rx_prefix rx = S"
    using crx.delivery_complete [OF inv adm] cov by blast
  moreover have "rx_consumed rx = 0" using stage_all_consumed [OF inv adm rx(1)]
    by (simp add: quic_crypto_rx_init_def)
  ultimately show ?thesis using rx_peek_prefix by (simp add: rx_inv_for_def)
qed

theorem crypto_stream_delivery_witness:
  "\<exists>rx. stage_all rx_stage_chunk (quic_crypto_rx_init [9, 9, 9, 9] 1) [(2, [3]), (0, [1, 2]), (2, [3])] = Some rx
    \<and> quic_crypto_rx_peek rx = [1, 2, 3]"
  by (rule crypto_stream_delivery [where budgets = "[2, 2]" and cs = "[(0, [1, 2]), (2, [3])]"
        and tx' = "\<lparr>tx_pending = [], tx_next_offset = 3\<rparr>"])
    (simp_all add: quic_crypto_tx_set_pending_def quic_crypto_tx_init_def quic_crypto_tx_next_def
      quic_crypto_tx_consume_def insert_commute)

text \<open>
  C9: Staging a chunk into a well-formed receive buffer. A chunk that fits and agrees with what was received leaves
  the buffer well-formed and adds exactly its bytes, and the return value tells whether one of them is new. A chunk
  that does not fit is refused and changes nothing. A chunk that contradicts a received byte is refused after its
  bytes up to the first contradiction were added; the bytes that can be read are not touched, but the buffer need
  not be well-formed any more, and the callers give up the connection.
\<close>

theorem crypto_rx_stage_refines:
  assumes "rx_inv rx" "p \<noteq> []"
  shows "let (rc, rx') = quic_crypto_rx_stage rx off p in
    (if length (rx_data rx) < unat off + length p then rc = -1 \<and> rx' = rx
     else if agrees (rx_content rx) (chunk (unat off) p)
     then rx_inv rx' \<and> rx_content rx' = rx_content rx ++ chunk (unat off) p
       \<and> rc = (if dom (chunk (unat off) p) \<subseteq> dom (rx_content rx) then 0 else 1)
     else rc = -1 \<and> quic_crypto_rx_peek rx' = quic_crypto_rx_peek rx
       \<and> (\<exists>q b r d. p = q @ b # r \<and> agrees (rx_content rx) (chunk (unat off) q)
            \<and> rx_content rx (unat off + length q) = Some d \<and> d \<noteq> b
            \<and> rx_content rx' = rx_content rx ++ chunk (unat off) q))"
proof -
  consider "length (rx_data rx) < unat off + length p"
    | (ok) "unat off + length p \<le> length (rx_data rx)" "agrees (rx_content rx) (chunk (unat off) p)"
    | (bad) "unat off + length p \<le> length (rx_data rx)" "\<not> agrees (rx_content rx) (chunk (unat off) p)" by linarith
  then show ?thesis
  proof cases
    case 1
    then show ?thesis using rx_stage_overflow [OF assms(2) 1] by simp
  next
    case ok
    obtain rc rx' where r: "quic_crypto_rx_stage rx off p = (rc, rx')" "rx_inv rx'"
      "rc = (if dom (chunk (unat off) p) \<subseteq> dom (rx_content rx) then 0 else 1)"
      "rx_content rx' = rx_content rx ++ chunk (unat off) p" using rx_stage_ok [OF assms(1) ok] by blast
    have "\<not> length (rx_data rx) < unat off + length p" using ok(1) by simp
    then show ?thesis using r ok(2) by simp
  next
    case bad
    obtain rx' q b r d where r: "quic_crypto_rx_stage rx off p = (- 1, rx')" "p = q @ b # r"
      "agrees (rx_content rx) (chunk (unat off) q)" "rx_content rx (unat off + length q) = Some d" "d \<noteq> b"
      "rx_content rx' = rx_content rx ++ chunk (unat off) q" "quic_crypto_rx_peek rx' = quic_crypto_rx_peek rx"
      by (rule rx_stage_conflict [OF assms(1) bad])
    have "\<exists>q b r d. p = q @ b # r \<and> agrees (rx_content rx) (chunk (unat off) q)
      \<and> rx_content rx (unat off + length q) = Some d \<and> d \<noteq> b \<and> rx_content rx' = rx_content rx ++ chunk (unat off) q"
      using r(2-6) by blast
    then show ?thesis using bad r(1,7) by (simp add: not_less)
  qed
qed

theorem crypto_rx_stage_refines_witness:
  "(let (rc, rx') = quic_crypto_rx_stage (quic_crypto_rx_init [9, 9] 1) 1 [7] in
     rx_inv rx' \<and> rx_content rx' = rx_content (quic_crypto_rx_init [9, 9] 1) ++ chunk 1 [7] \<and> rc = 1)
   \<and> quic_crypto_rx_stage (quic_crypto_rx_init [9, 9] 1) 1 [7, 7] = (-1, quic_crypto_rx_init [9, 9] 1)"
proof -
  define rx where "rx = quic_crypto_rx_init [9, 9 :: byte] 1"
  have i: "rx_inv rx" by (simp add: rx_def rx_init_inv)
  have c: "rx_content rx = Map.empty" by (simp add: rx_def rx_content_init)
  have l: "rx_data rx = [9, 9]" by (simp add: rx_def quic_crypto_rx_init_def)
  have a: "agrees Map.empty m" for m by (simp add: agrees_def)
  obtain rc rx' where e: "quic_crypto_rx_stage rx 1 [7] = (rc, rx')" by fastforce
  obtain rc2 rx2 where e2: "quic_crypto_rx_stage rx 1 [7, 7] = (rc2, rx2)" by fastforce
  have "\<not> length (rx_data rx) < unat (1 :: u64) + length [7 :: byte]" "length (rx_data rx) < unat (1 :: u64) + length [7, 7 :: byte]"
    by (simp_all add: l)
  then have "rx_inv rx'" "rx_content rx' = rx_content rx ++ chunk 1 [7]" "rc = 1" "rc2 = -1" "rx2 = rx"
    using crypto_rx_stage_refines [OF i, of "[7]" 1, unfolded e] crypto_rx_stage_refines [OF i, of "[7, 7]" 1, unfolded e2]
    by (simp_all add: c a dom_chunk)
  then show ?thesis unfolding rx_def [symmetric] e e2 by (simp only: prod.case Let_def simp_thms)
qed

end
