(* ===== verification/Stream_Rx.thy ===== *)
theory Stream_Rx
  imports Crypto_Stream
begin

text \<open>
  The receive side of a STREAM: \<open>userspace/quic/stream.c\<close>. It wraps the CRYPTO reassembler with
  the stream's life cycle and its final size. The embedded \<open>data\<close> and \<open>bitmap\<close> arrays are the
  lists of the inner state. NULL arguments are not represented.
\<close>

section \<open>Definitions\<close>

definition QUIC_STREAM_RX_CAP :: nat where
  "QUIC_STREAM_RX_CAP = 16384"

definition QUIC_STREAM_BITMAP_CAP :: nat where
  "QUIC_STREAM_BITMAP_CAP = (QUIC_STREAM_RX_CAP + 7) div 8"

record quic_stream_rx =
  in_use :: bool
  stream_id :: u64
  fin_seen :: bool
  final_size :: u64
  stream_rx :: quic_crypto_rx

definition quic_stream_rx_init :: "u64 \<Rightarrow> quic_stream_rx" where
  "quic_stream_rx_init sid =
     \<lparr>in_use = True, stream_id = sid, fin_seen = False, final_size = 0,
      stream_rx = quic_crypto_rx_init (replicate QUIC_STREAM_RX_CAP 0) QUIC_STREAM_BITMAP_CAP\<rparr>"

text \<open>All fields zeroed; the inner reassembler has no storage until the next init.\<close>

definition quic_stream_rx_clear :: quic_stream_rx where
  "quic_stream_rx_clear =
     \<lparr>in_use = False, stream_id = 0, fin_seen = False, final_size = 0,
      stream_rx = quic_crypto_rx_init [] 0\<rparr>"

definition quic_stream_rx_ingest ::
  "quic_stream_rx \<Rightarrow> u64 \<Rightarrow> bytes \<Rightarrow> bool \<Rightarrow> int \<times> quic_stream_rx" where
  "quic_stream_rx_ingest s offset data fin =
     (let len = word_of_nat (length data) in
      if \<not> in_use s then (-1, s)
      else if offset + len < offset then (-1, s)
      else
        let end_off = offset + len in
        if fin_seen s \<and> end_off > final_size s then (-1, s)
        else if fin_seen s \<and> fin \<and> end_off \<noteq> final_size s then (-1, s)
        else if \<not> fin_seen s \<and> fin \<and> rx_highest (stream_rx s) > unat end_off then (-1, s)
        else
          let s = (if \<not> fin_seen s \<and> fin then s\<lparr>fin_seen := True, final_size := end_off\<rparr> else s)
          in if length data = 0 then (if fin then 1 else 0, s)
             else let (rc, rx) = quic_crypto_rx_stage (stream_rx s) offset data
                  in (rc, s\<lparr>stream_rx := rx\<rparr>))"

definition quic_stream_rx_peek :: "quic_stream_rx \<Rightarrow> bytes" where
  "quic_stream_rx_peek s = (if \<not> in_use s then [] else quic_crypto_rx_peek (stream_rx s))"

definition quic_stream_rx_advance :: "quic_stream_rx \<Rightarrow> nat \<Rightarrow> quic_stream_rx" where
  "quic_stream_rx_advance s n =
     (if \<not> in_use s then s else s\<lparr>stream_rx := quic_crypto_rx_advance (stream_rx s) n\<rparr>)"

definition quic_stream_rx_is_complete :: "quic_stream_rx \<Rightarrow> bool" where
  "quic_stream_rx_is_complete s \<longleftrightarrow>
     in_use s \<and> fin_seen s \<and> rx_contig_len (stream_rx s) = unat (final_size s)"

section \<open>The final size\<close>

text \<open>
  What holds after any sequence of calls, rejected ones included. A rejected frame may leave
  bytes behind in the buffer, so this is weaker than the reassembler's own invariant.
\<close>

definition size_inv :: "quic_stream_rx \<Rightarrow> bool" where
  "size_inv s \<longleftrightarrow>
     rx_consumed (stream_rx s) \<le> rx_contig_len (stream_rx s)
     \<and> rx_contig_len (stream_rx s) \<le> rx_highest (stream_rx s)
     \<and> (fin_seen s \<longrightarrow> rx_highest (stream_rx s) \<le> unat (final_size s))"

lemma size_inv_init: "size_inv (quic_stream_rx_init sid)"
  by (simp add: size_inv_def quic_stream_rx_init_def quic_crypto_rx_init_def)

lemma stage_frame:
  assumes "quic_crypto_rx_stage rx off p = (rc, rx')" "rx_contig_len rx \<le> rx_highest rx"
  shows "rx_consumed rx' = rx_consumed rx" "rx_contig_len rx \<le> rx_contig_len rx'"
    "rx_contig_len rx' \<le> rx_highest rx'" "rx_highest rx' \<le> max (rx_highest rx) (unat off + length p)"
proof -
  obtain ok saw d b where sl: "stage_loop (rx_data rx) (rx_bitmap rx) (unat off) p False = (ok, saw, d, b)"
    by (metis prod_cases4)
  let ?h = "if unat off + length p > rx_highest rx then unat off + length p else rx_highest rx"
  have "rx_contig_len rx \<le> ?h" using assms(2) by simp
  from extend_contig_spec [OF this, of b]
  have e: "rx_contig_len rx \<le> extend_contig b ?h (rx_contig_len rx)"
    "extend_contig b ?h (rx_contig_len rx) \<le> ?h"
    by blast+
  have "rx' = rx \<or> rx' = rx\<lparr>rx_data := d, rx_bitmap := b\<rparr>
      \<or> rx' = rx\<lparr>rx_data := d, rx_bitmap := b, rx_highest := ?h,
              rx_contig_len := extend_contig b ?h (rx_contig_len rx)\<rparr>"
    using assms(1) by (simp add: quic_crypto_rx_stage_def Let_def sl split: if_splits)
  then show "rx_consumed rx' = rx_consumed rx" "rx_contig_len rx \<le> rx_contig_len rx'"
    "rx_contig_len rx' \<le> rx_highest rx'" "rx_highest rx' \<le> max (rx_highest rx) (unat off + length p)"
    using e assms(2) by auto
qed

lemma end_no_wrap:
  assumes "\<not> off + word_of_nat n < (off :: u64)" "n < 2 ^ 64"
  shows "unat (off + word_of_nat n) = unat off + n"
proof -
  have n: "unat (word_of_nat n :: u64) = n" using assms(2) by (simp add: unat_of_nat)
  show ?thesis
  proof (cases "unat off + n < 2 ^ 64")
    case True
    then show ?thesis using n by (simp add: unat_word_ariths(1))
  next
    case False
    then have "unat (off + word_of_nat n) = unat off + n - 2 ^ 64"
      using n unat_u64_lt [of off] assms(2) by (simp add: unat_word_ariths(1) mod_if)
    then show ?thesis using assms False by (simp add: word_less_nat_alt)
  qed
qed

lemma ingest_size:
  assumes inv: "size_inv s" and len: "length p < 2 ^ 64"
    and st: "quic_stream_rx_ingest s off p fin = (rc, s')"
  shows "size_inv s'" "fin_seen s \<Longrightarrow> fin_seen s' \<and> final_size s' = final_size s"
    "rx_contig_len (stream_rx s) \<le> rx_contig_len (stream_rx s')" "in_use s' = in_use s"
proof -
  let ?e = "off + word_of_nat (length p)"
  let ?t = "if \<not> fin_seen s \<and> fin then s\<lparr>fin_seen := True, final_size := ?e\<rparr> else s"
  obtain src rx where sg: "quic_crypto_rx_stage (stream_rx s) off p = (src, rx)"
    by (cases "quic_crypto_rx_stage (stream_rx s) off p") simp
  have le: "rx_contig_len (stream_rx s) \<le> rx_highest (stream_rx s)" using inv by (simp add: size_inv_def)
  note f = stage_frame [OF sg le]
  have "s' = s \<or> (\<not> ?e < off \<and> (fin_seen s \<longrightarrow> ?e \<le> final_size s)
      \<and> (\<not> fin_seen s \<and> fin \<longrightarrow> rx_highest (stream_rx s) \<le> unat ?e)
      \<and> (s' = ?t \<or> s' = ?t\<lparr>stream_rx := rx\<rparr>))"
    using st sg by (auto simp: quic_stream_rx_ingest_def Let_def split: if_splits)
  then consider (same) "s' = s"
    | (new) "\<not> ?e < off" "fin_seen s \<longrightarrow> ?e \<le> final_size s"
      "\<not> fin_seen s \<and> fin \<longrightarrow> rx_highest (stream_rx s) \<le> unat ?e" "s' = ?t \<or> s' = ?t\<lparr>stream_rx := rx\<rparr>"
    by blast
  then have "size_inv s' \<and> (fin_seen s \<longrightarrow> fin_seen s' \<and> final_size s' = final_size s)
    \<and> rx_contig_len (stream_rx s) \<le> rx_contig_len (stream_rx s') \<and> in_use s' = in_use s"
  proof cases
    case new
    have e: "unat ?e = unat off + length p" using end_no_wrap [OF new(1) len] .
    from new(4) show ?thesis using new(2,3) f inv e
      by (elim disjE; simp add: size_inv_def word_le_nat_alt max_def split: if_splits; linarith?)
  qed (use inv in simp)
  then show "size_inv s'" "fin_seen s \<Longrightarrow> fin_seen s' \<and> final_size s' = final_size s"
    "rx_contig_len (stream_rx s) \<le> rx_contig_len (stream_rx s')" "in_use s' = in_use s"
    by auto
qed

datatype stream_op = Ingest u64 bytes bool | Advance nat

primrec stream_step :: "quic_stream_rx \<Rightarrow> stream_op \<Rightarrow> quic_stream_rx" where
  "stream_step s (Ingest off p fin) = snd (quic_stream_rx_ingest s off p fin)"
| "stream_step s (Advance n) = quic_stream_rx_advance s n"

definition stream_run :: "quic_stream_rx \<Rightarrow> stream_op list \<Rightarrow> quic_stream_rx" where
  "stream_run = foldl stream_step"

fun op_fits :: "stream_op \<Rightarrow> bool" where
  "op_fits (Ingest off p fin) \<longleftrightarrow> length p < 2 ^ 64"
| "op_fits (Advance n) \<longleftrightarrow> True"

lemma step_size:
  assumes "size_inv s" "op_fits x"
  shows "size_inv (stream_step s x)
    \<and> (fin_seen s \<longrightarrow> fin_seen (stream_step s x) \<and> final_size (stream_step s x) = final_size s)"
proof (cases x)
  case (Ingest off p fin)
  then show ?thesis using assms ingest_size(1,2) [OF assms(1), of p off fin]
    by (cases "quic_stream_rx_ingest s off p fin") auto
next
  case (Advance n)
  then show ?thesis using assms(1)
    by (auto simp: quic_stream_rx_advance_def size_inv_def quic_crypto_rx_advance_def Let_def)
qed

lemma run_size:
  "size_inv s \<Longrightarrow> \<forall>x\<in>set xs. op_fits x \<Longrightarrow>
   size_inv (stream_run s xs)
   \<and> (fin_seen s \<longrightarrow> fin_seen (stream_run s xs) \<and> final_size (stream_run s xs) = final_size s)"
  unfolding stream_run_def
proof (induction xs arbitrary: s)
  case (Cons x xs)
  then show ?case using step_size [of s x] by simp
qed simp

section \<open>The stream is a reassembler\<close>

type_synonym stream_chunk = "u64 \<times> bytes \<times> bool"

definition ingest_chunk :: "quic_stream_rx \<Rightarrow> stream_chunk \<Rightarrow> int \<times> quic_stream_rx" where
  "ingest_chunk s c = (case c of (off, p, fin) \<Rightarrow> quic_stream_rx_ingest s off p fin)"

definition stream_bytes :: "stream_chunk \<Rightarrow> nat \<rightharpoonup> byte" where
  "stream_bytes c = chunk (unat (fst c)) (fst (snd c))"

definition is_fin :: "stream_chunk \<Rightarrow> bool" where
  "is_fin c = snd (snd c)"

definition stream_slice :: "bytes \<Rightarrow> stream_chunk \<Rightarrow> bool" where
  "stream_slice S c \<longleftrightarrow> slice_of S (fst c, fst (snd c))
     \<and> (is_fin c \<longrightarrow> unat (fst c) + length (fst (snd c)) = length S)"

definition stream_content :: "quic_stream_rx \<Rightarrow> nat \<rightharpoonup> byte" where
  "stream_content s = rx_content (stream_rx s)"

definition stream_prefix :: "quic_stream_rx \<Rightarrow> bytes" where
  "stream_prefix s = rx_prefix (stream_rx s)"

definition stream_inv_for :: "bytes \<Rightarrow> quic_stream_rx \<Rightarrow> bool" where
  "stream_inv_for S s \<longleftrightarrow> in_use s \<and> rx_inv_for S (stream_rx s) \<and> length S < 2 ^ 64
     \<and> (fin_seen s \<longrightarrow> unat (final_size s) = length S)
     \<and> rx_highest (stream_rx s) \<le> length S"

lemma stream_ingest_slice:
  assumes inv: "stream_inv_for S s" and adm: "stream_slice S c"
  shows "\<exists>rc s'. ingest_chunk s c = (rc, s') \<and> 0 \<le> rc \<and> stream_inv_for S s'
    \<and> stream_content s' = stream_content s ++ stream_bytes c
    \<and> fin_seen s' = (fin_seen s \<or> is_fin c)
    \<and> rx_consumed (stream_rx s') = rx_consumed (stream_rx s)"
proof -
  obtain off p fin where c: "c = (off, p, fin)" by (cases c)
  let ?e = "off + word_of_nat (length p)"
  have sl: "slice_of S (off, p)" and fit: "unat off + length p \<le> length S" and lt: "length S < 2 ^ 64"
    using adm inv by (auto simp: stream_slice_def slice_of_def c stream_inv_for_def)
  have e: "unat ?e = unat off + length p" using tx_offset_add [OF fit lt] .
  have nw: "\<not> ?e < off" by (simp add: word_less_nat_alt e)
  have rxi: "rx_inv_for S (stream_rx s)" using inv by (simp add: stream_inv_for_def)
  obtain rc rx' where st: "quic_crypto_rx_stage (stream_rx s) off p = (rc, rx')" "0 \<le> rc"
    "rx_inv_for S rx'" "rx_content rx' = rx_content (stream_rx s) ++ chunk (unat off) p"
    "rx_consumed rx' = rx_consumed (stream_rx s)"
    using rx_stage_slice [OF rxi sl] by (auto simp: rx_stage_chunk_def chunk_of_def)
  have "rx_contig_len (stream_rx s) \<le> rx_highest (stream_rx s)"
    using rxi by (simp add: rx_inv_for_def rx_inv_def)
  from stage_frame(4) [OF st(1) this] have hi: "rx_highest rx' \<le> length S"
    using inv fit by (simp add: stream_inv_for_def max_def split: if_splits)
  let ?t = "if \<not> fin_seen s \<and> fin then s\<lparr>fin_seen := True, final_size := ?e\<rparr> else s"
  have fe: "fin \<Longrightarrow> unat ?e = length S" using adm e by (simp add: stream_slice_def is_fin_def c)
  have g: "fin_seen s \<Longrightarrow> \<not> final_size s < ?e" "fin_seen s \<Longrightarrow> fin \<Longrightarrow> ?e = final_size s"
    "\<not> fin_seen s \<Longrightarrow> fin \<Longrightarrow> \<not> unat ?e < rx_highest (stream_rx s)"
    using inv fit e fe by (auto simp: stream_inv_for_def word_less_nat_alt word_eq_iff_unsigned [where 'a = nat])
  have "ingest_chunk s c = (if p = [] then (if fin then 1 else 0, ?t) else (rc, ?t\<lparr>stream_rx := rx'\<rparr>))"
    using inv g nw st(1)
    by (cases "fin_seen s"; cases fin)
      (simp_all add: ingest_chunk_def c quic_stream_rx_ingest_def Let_def stream_inv_for_def)
  then show ?thesis using inv st hi fe
    by (auto simp: stream_inv_for_def stream_content_def stream_bytes_def is_fin_def c)
qed

interpretation srx: reassembler stream_inv_for stream_slice stream_bytes stream_content stream_prefix ingest_chunk
proof
  show "stream_bytes c \<subseteq>\<^sub>m chunk 0 S" if "stream_slice S c" for S c
    using slice_sub that by (auto simp: stream_bytes_def stream_slice_def chunk_of_def)
  show "stream_content s \<subseteq>\<^sub>m chunk 0 S" if "stream_inv_for S s" for S s
    using that by (simp add: stream_content_def stream_inv_for_def rx_inv_for_def)
  show "\<exists>rc s'. ingest_chunk s c = (rc, s') \<and> 0 \<le> rc \<and> stream_inv_for S s'
      \<and> stream_content s' = stream_content s ++ stream_bytes c"
    if "stream_inv_for S s" "stream_slice S c" for S s c
    using stream_ingest_slice [OF that] by blast
  show "stream_content s i = Some (stream_prefix s ! i)"
    if "stream_inv_for S s" "i < length (stream_prefix s)" for S s i
    using that by (auto intro: crx.prefix_nth simp: stream_inv_for_def stream_prefix_def stream_content_def)
  show "stream_content s (length (stream_prefix s)) = None" if "stream_inv_for S s" for S s
    using that by (auto intro: crx.prefix_end simp: stream_inv_for_def stream_prefix_def stream_content_def)
qed

lemma stream_inv_init:
  "length S \<le> QUIC_STREAM_RX_CAP \<Longrightarrow> stream_inv_for S (quic_stream_rx_init sid)"
  using rx_inv_for_init [of "replicate QUIC_STREAM_RX_CAP 0" QUIC_STREAM_BITMAP_CAP S]
  by (simp add: stream_inv_for_def quic_stream_rx_init_def QUIC_STREAM_BITMAP_CAP_def QUIC_STREAM_RX_CAP_def)
    (simp add: quic_crypto_rx_init_def)

lemma stream_content_init: "stream_content (quic_stream_rx_init sid) = Map.empty"
  using rx_content_init [of "replicate QUIC_STREAM_RX_CAP 0" QUIC_STREAM_BITMAP_CAP]
  by (simp add: stream_content_def quic_stream_rx_init_def QUIC_STREAM_BITMAP_CAP_def QUIC_STREAM_RX_CAP_def)

lemma stage_all_fin:
  "stream_inv_for S s \<Longrightarrow> \<forall>c\<in>set cs. stream_slice S c \<Longrightarrow> stage_all ingest_chunk s cs = Some s' \<Longrightarrow>
   fin_seen s' = (fin_seen s \<or> (\<exists>c\<in>set cs. is_fin c))
   \<and> rx_consumed (stream_rx s') = rx_consumed (stream_rx s)"
proof (induction cs arbitrary: s)
  case (Cons c cs)
  then show ?case using stream_ingest_slice [of S s c] by fastforce
qed simp

lemma cover_iff: "{..<n} \<subseteq> A \<Longrightarrow> n \<notin> A \<Longrightarrow> n \<le> L \<Longrightarrow> {..<L} \<subseteq> A \<longleftrightarrow> n = (L :: nat)"
  by (cases "n < L") auto

section \<open>Properties\<close>

text \<open>
  C7: Frames that carry slices of one byte stream of at most 16384 bytes, with FIN only on
  frames that reach its end, are all accepted in any order and with any repetition. What is
  readable then is a prefix of the stream, and the stream is reported complete exactly when a
  FIN was among the frames and they cover every byte; the readable run is then the whole stream.
\<close>

theorem stream_delivery:
  assumes "length S \<le> QUIC_STREAM_RX_CAP" "\<forall>c\<in>set cs. stream_slice S c"
  shows "\<exists>s. stage_all ingest_chunk (quic_stream_rx_init sid) cs = Some s
    \<and> (\<exists>n. quic_stream_rx_peek s = take n S)
    \<and> (quic_stream_rx_is_complete s \<longleftrightarrow>
         (\<exists>c\<in>set cs. is_fin c) \<and> {..<length S} \<subseteq> (\<Union>c\<in>set cs. dom (stream_bytes c)))
    \<and> (quic_stream_rx_is_complete s \<longrightarrow> quic_stream_rx_peek s = S)"
proof -
  let ?s0 = "quic_stream_rx_init sid"
  let ?cov = "\<Union>c\<in>set cs. dom (stream_bytes c)"
  have inv0: "stream_inv_for S ?s0" using assms(1) by (rule stream_inv_init)
  obtain s where s: "stage_all ingest_chunk ?s0 cs = Some s" "stream_inv_for S s"
    "stream_prefix s = take (length (stream_prefix s)) S"
    "{..<length (stream_prefix s)} \<subseteq> ?cov" "length (stream_prefix s) \<notin> ?cov"
    using srx.delivery [OF inv0 assms(2)] by (auto simp: stream_content_init)
  have fin: "fin_seen s = (\<exists>c\<in>set cs. is_fin c)" "rx_consumed (stream_rx s) = 0"
    using stage_all_fin [OF inv0 assms(2) s(1)] by (simp_all add: quic_stream_rx_init_def quic_crypto_rx_init_def)
  have rxi: "rx_inv (stream_rx s)" "in_use s" using s(2) by (simp_all add: stream_inv_for_def rx_inv_for_def)
  have pk: "quic_stream_rx_peek s = stream_prefix s"
    using rx_peek_prefix [OF rxi(1)] fin(2) rxi(2) by (simp add: quic_stream_rx_peek_def stream_prefix_def)
  have len: "length (stream_prefix s) = rx_contig_len (stream_rx s)"
    using rx_prefix_content(1) [OF rxi(1)] by (simp add: stream_prefix_def)
  have "{..<length S} \<subseteq> ?cov \<longleftrightarrow> length (stream_prefix s) = length S"
    using s(4,5) srx.prefix_take(2) [OF s(2)] by (rule cover_iff)
  then have "quic_stream_rx_is_complete s \<longleftrightarrow> (\<exists>c\<in>set cs. is_fin c) \<and> {..<length S} \<subseteq> ?cov"
    using s(2) fin(1) len unfolding quic_stream_rx_is_complete_def stream_inv_for_def by metis
  moreover have "quic_stream_rx_is_complete s \<Longrightarrow> stream_prefix s = S"
    using s(2,3) len unfolding quic_stream_rx_is_complete_def stream_inv_for_def by (metis order_refl take_all)
  ultimately show ?thesis using s(1,3) pk by metis
qed

theorem stream_delivery_witness:
  "\<exists>s. stage_all ingest_chunk (quic_stream_rx_init 4) [(1, [8, 9], True), (0, [7, 8], False)] = Some s
    \<and> (\<exists>n. quic_stream_rx_peek s = take n [7, 8, 9])
    \<and> (quic_stream_rx_is_complete s \<longleftrightarrow>
         (\<exists>c\<in>set [(1, [8, 9], True), (0, [7, 8], False)]. is_fin c)
         \<and> {..<length [7 :: byte, 8, 9]} \<subseteq> (\<Union>c\<in>set [(1, [8, 9], True), (0, [7, 8], False)]. dom (stream_bytes c)))
    \<and> (quic_stream_rx_is_complete s \<longrightarrow> quic_stream_rx_peek s = [7, 8, 9])"
  by (rule stream_delivery) (simp_all add: QUIC_STREAM_RX_CAP_def stream_slice_def slice_of_def is_fin_def)

text \<open>
  C10: Once a FIN has fixed the final size of a stream, no later sequence of frames and reads,
  rejected frames included, changes it, and no byte beyond it is ever counted as received or
  handed to the reader.
\<close>

theorem stream_final_size_fixed:
  assumes "size_inv s" "fin_seen s" "\<forall>x\<in>set xs. op_fits x"
  shows "fin_seen (stream_run s xs) \<and> final_size (stream_run s xs) = final_size s
    \<and> rx_highest (stream_rx (stream_run s xs)) \<le> unat (final_size s)
    \<and> rx_consumed (stream_rx (stream_run s xs)) + length (quic_stream_rx_peek (stream_run s xs))
        \<le> unat (final_size s)"
proof -
  let ?t = "stream_run s xs"
  have t: "size_inv ?t" "fin_seen ?t" "final_size ?t = final_size s"
    using run_size [OF assms(1,3)] assms(2) by auto
  have "length (quic_stream_rx_peek ?t) \<le> rx_contig_len (stream_rx ?t) - rx_consumed (stream_rx ?t)"
    by (simp add: quic_stream_rx_peek_def quic_crypto_rx_peek_def)
  then show ?thesis using t by (auto simp: size_inv_def)
qed

theorem stream_final_size_fixed_witness:
  "let s = \<lparr>in_use = True, stream_id = 0, fin_seen = True, final_size = 2,
            stream_rx = quic_crypto_rx_init [0, 0, 0] 1\<rparr>; xs = [Ingest 0 [5, 6, 7] False, Advance 1] in
   fin_seen (stream_run s xs) \<and> final_size (stream_run s xs) = final_size s
    \<and> rx_highest (stream_rx (stream_run s xs)) \<le> unat (final_size s)
    \<and> rx_consumed (stream_rx (stream_run s xs)) + length (quic_stream_rx_peek (stream_run s xs))
        \<le> unat (final_size s)"
  unfolding Let_def
  by (rule stream_final_size_fixed) (simp_all add: size_inv_def quic_crypto_rx_init_def)

end
