(* ===== verification/Loss.thy ===== *)
theory Loss
  imports Cc
begin

text \<open>
  Loss detection: \<open>userspace/quic/loss.c\<close>. The round-trip-time estimator, the tracker of sent
  packets with its acknowledgement and loss sweeps, and the probe timeout. All times are 64-bit
  microsecond counts that wrap as in C. The tracker's 256 slots are a list; the sweeps over it
  are recursions that return the updated slots.
\<close>

section \<open>Definitions\<close>

subsection \<open>The round-trip time\<close>

definition QUIC_LOSS_PACKET_THRESHOLD :: u64 where
  "QUIC_LOSS_PACKET_THRESHOLD = 3"

definition QUIC_LOSS_GRANULARITY_US :: u64 where
  "QUIC_LOSS_GRANULARITY_US = 1000"

definition QUIC_LOSS_MAX_TRACKED :: nat where
  "QUIC_LOSS_MAX_TRACKED = 256"

record quic_rtt =
  latest_rtt :: u64
  smoothed_rtt :: u64
  rttvar :: u64
  min_rtt :: u64
  first_sample :: bool

definition abs_diff :: "u64 \<Rightarrow> u64 \<Rightarrow> u64" where
  "abs_diff a b = (if a > b then a - b else b - a)"

definition quic_rtt_init :: quic_rtt where
  "quic_rtt_init = \<lparr>latest_rtt = 0, smoothed_rtt = 0, rttvar = 0, min_rtt = 0, first_sample = False\<rparr>"

definition quic_rtt_sample :: "quic_rtt \<Rightarrow> u64 \<Rightarrow> u64 \<Rightarrow> u64 \<Rightarrow> quic_rtt" where
  "quic_rtt_sample r latest_rtt_us ack_delay_us max_ack_delay_us =
     (let r = r\<lparr>latest_rtt := latest_rtt_us\<rparr> in
      if \<not> first_sample r then
        r\<lparr>first_sample := True, min_rtt := latest_rtt_us, smoothed_rtt := latest_rtt_us,
          rttvar := latest_rtt_us div 2\<rparr>
      else
        let r = r\<lparr>min_rtt := u64_min (min_rtt r) latest_rtt_us\<rparr>;
            delay = (if max_ack_delay_us > 0 \<and> ack_delay_us > max_ack_delay_us
                     then max_ack_delay_us else ack_delay_us);
            adjusted_rtt = (if latest_rtt_us \<ge> min_rtt r + delay
                            then latest_rtt_us - delay else latest_rtt_us);
            rttvar_sample = abs_diff (smoothed_rtt r) adjusted_rtt
        in r\<lparr>rttvar := (3 * rttvar r + rttvar_sample) div 4,
             smoothed_rtt := (7 * smoothed_rtt r + adjusted_rtt) div 8\<rparr>)"

subsection \<open>The sent-packet tracker\<close>

record quic_sent_pkt =
  pn :: u64
  time_sent :: u64
  pkt_size :: u16
  ack_eliciting :: bool
  in_flight :: bool
  used :: bool

record quic_loss =
  pkts :: "quic_sent_pkt list"
  largest_acked :: u64
  have_largest_acked :: bool
  loss_time :: u64
  time_of_last_ack_eliciting_sent :: u64
  pto_count :: u32
  ack_eliciting_in_flight :: u32

record quic_pn_range =
  range_lo :: u64
  range_hi :: u64

definition quic_sent_pkt_zero :: quic_sent_pkt where
  "quic_sent_pkt_zero =
     \<lparr>pn = 0, time_sent = 0, pkt_size = 0, ack_eliciting = False, in_flight = False, used = False\<rparr>"

definition quic_loss_init :: quic_loss where
  "quic_loss_init =
     \<lparr>pkts = replicate QUIC_LOSS_MAX_TRACKED quic_sent_pkt_zero, largest_acked = 0,
      have_largest_acked = False, loss_time = 0, time_of_last_ack_eliciting_sent = 0,
      pto_count = 0, ack_eliciting_in_flight = 0\<rparr>"

text \<open>The index of the first free slot.\<close>

fun find_free :: "quic_sent_pkt list \<Rightarrow> nat option" where
  "find_free [] = None"
| "find_free (s # ss) = (if \<not> used s then Some 0 else map_option Suc (find_free ss))"

text \<open>The index of the earliest send time, the first of equal ones.\<close>

definition find_oldest :: "quic_sent_pkt list \<Rightarrow> nat" where
  "find_oldest ps =
     foldl (\<lambda>oldest i. if time_sent (ps ! i) < time_sent (ps ! oldest) then i else oldest)
       0 [1..<length ps]"

definition quic_loss_on_sent :: "quic_loss \<Rightarrow> u64 \<Rightarrow> u64 \<Rightarrow> nat \<Rightarrow> bool \<Rightarrow> bool \<Rightarrow> quic_loss" where
  "quic_loss_on_sent l pkt_pn now_us size_n eliciting inflight =
     (let i = (case find_free (pkts l) of Some i \<Rightarrow> i | None \<Rightarrow> find_oldest (pkts l));
          s = \<lparr>pn = pkt_pn, time_sent = now_us,
               pkt_size = (if size_n > 65535 then 65535 else word_of_nat size_n),
               ack_eliciting = eliciting, in_flight = inflight, used = True\<rparr>;
          l = l\<lparr>pkts := (pkts l)[i := s]\<rparr>
      in if eliciting
         then l\<lparr>time_of_last_ack_eliciting_sent := now_us,
                ack_eliciting_in_flight := ack_eliciting_in_flight l + 1\<rparr>
         else l)"

fun pn_in_ranges :: "u64 \<Rightarrow> quic_pn_range list \<Rightarrow> bool" where
  "pn_in_ranges p [] = False"
| "pn_in_ranges p (r # rs) =
     (if p \<ge> range_lo r \<and> p \<le> range_hi r then True else pn_in_ranges p rs)"

definition loss_delay_us :: "quic_rtt \<Rightarrow> u64" where
  "loss_delay_us rtt =
     (if \<not> first_sample rtt then QUIC_LOSS_GRANULARITY_US
      else let base = u64_max (latest_rtt rtt) (smoothed_rtt rtt);
               scaled = base * 9 div 8
           in u64_max scaled QUIC_LOSS_GRANULARITY_US)"

definition dec_in_flight :: "quic_sent_pkt \<Rightarrow> u32 \<Rightarrow> u32" where
  "dec_in_flight s fl = (if ack_eliciting s \<and> fl > 0 then fl - 1 else fl)"

text \<open>
  The loss sweep: the numbers of the lost packets, the slots left, the loss timer and the
  ack-eliciting count.
\<close>

fun detect_loop ::
  "u64 \<Rightarrow> u64 \<Rightarrow> u64 \<Rightarrow> quic_sent_pkt list \<Rightarrow> u64 \<Rightarrow> u32 \<Rightarrow>
   u64 list \<times> quic_sent_pkt list \<times> u64 \<times> u32" where
  "detect_loop largest delay lost_send_time [] lt fl = ([], [], lt, fl)"
| "detect_loop largest delay lost_send_time (s # ss) lt fl =
     (if \<not> used s \<or> pn s > largest then
        let (lost, ps, lt', fl') = detect_loop largest delay lost_send_time ss lt fl
        in (lost, s # ps, lt', fl')
      else if largest - pn s \<ge> QUIC_LOSS_PACKET_THRESHOLD \<or> time_sent s \<le> lost_send_time then
        let (lost, ps, lt', fl') =
              detect_loop largest delay lost_send_time ss lt (dec_in_flight s fl)
        in (pn s # lost, s\<lparr>used := False\<rparr> # ps, lt', fl')
      else
        let deadline = time_sent s + delay;
            (lost, ps, lt', fl') =
              detect_loop largest delay lost_send_time ss
                (if lt = 0 \<or> deadline < lt then deadline else lt) fl
        in (lost, s # ps, lt', fl'))"

text \<open>The count of lost packets, the numbers stored in the caller's array, the tracker.\<close>

definition detect_lost_inner :: "quic_loss \<Rightarrow> quic_rtt \<Rightarrow> u64 \<Rightarrow> nat \<Rightarrow> nat \<times> u64 list \<times> quic_loss" where
  "detect_lost_inner l rtt now_us cap =
     (let l = l\<lparr>loss_time := 0\<rparr> in
      if \<not> have_largest_acked l then (0, [], l)
      else
        let delay = loss_delay_us rtt;
            lost_send_time = (if now_us > delay then now_us - delay else 0);
            (lost, ps, lt, fl) =
              detect_loop (largest_acked l) delay lost_send_time (pkts l) 0 (ack_eliciting_in_flight l)
        in (length lost, take cap lost,
            l\<lparr>pkts := ps, loss_time := lt, ack_eliciting_in_flight := fl\<rparr>))"

text \<open>The acknowledgement sweep with its locals.\<close>

record ack_sweep =
  newly_acked :: nat
  have_largest_new :: bool
  largest_new_pn :: u64
  largest_new_send_time :: u64
  largest_new_eliciting :: bool

fun ack_loop ::
  "quic_pn_range list \<Rightarrow> quic_sent_pkt list \<Rightarrow> ack_sweep \<Rightarrow> u32 \<Rightarrow>
   quic_sent_pkt list \<times> ack_sweep \<times> u32" where
  "ack_loop rs [] a fl = ([], a, fl)"
| "ack_loop rs (s # ss) a fl =
     (if \<not> used s \<or> \<not> pn_in_ranges (pn s) rs then
        let (ps, a', fl') = ack_loop rs ss a fl in (s # ps, a', fl')
      else
        let a = a\<lparr>newly_acked := newly_acked a + 1\<rparr>;
            a = (if \<not> have_largest_new a \<or> pn s > largest_new_pn a
                 then a\<lparr>largest_new_pn := pn s, largest_new_send_time := time_sent s,
                        largest_new_eliciting := ack_eliciting s, have_largest_new := True\<rparr>
                 else a);
            (ps, a', fl') = ack_loop rs ss a (dec_in_flight s fl)
        in (s\<lparr>used := False\<rparr> # ps, a', fl'))"

definition largest_of :: "quic_pn_range list \<Rightarrow> u64" where
  "largest_of rs = foldl (\<lambda>m r. if range_hi r > m then range_hi r else m) (range_hi (hd rs)) (tl rs)"

definition quic_loss_on_ack ::
  "quic_loss \<Rightarrow> quic_rtt \<Rightarrow> quic_pn_range list \<Rightarrow> u64 \<Rightarrow> u64 \<Rightarrow> u64 \<Rightarrow> nat \<Rightarrow>
   nat \<times> nat \<times> u64 list \<times> quic_loss \<times> quic_rtt" where
  "quic_loss_on_ack l rtt rs ack_delay_us max_ack_delay_us now_us out_cap =
     (if rs = [] then (0, 0, [], l, rtt)
      else
        let largest = largest_of rs;
            l = (if \<not> have_largest_acked l \<or> largest > largest_acked l
                 then l\<lparr>largest_acked := largest, have_largest_acked := True\<rparr> else l);
            (ps, a, fl) =
              ack_loop rs (pkts l)
                \<lparr>newly_acked = 0, have_largest_new = False, largest_new_pn = 0,
                 largest_new_send_time = 0, largest_new_eliciting = False\<rparr>
                (ack_eliciting_in_flight l);
            l = l\<lparr>pkts := ps, ack_eliciting_in_flight := fl\<rparr>;
            rtt = (if have_largest_new a \<and> largest_new_eliciting a \<and> largest_new_pn a = largest
                   then quic_rtt_sample rtt
                          (if now_us > largest_new_send_time a
                           then now_us - largest_new_send_time a else 0)
                          ack_delay_us max_ack_delay_us
                   else rtt);
            l = (if newly_acked a > 0 then l\<lparr>pto_count := 0\<rparr> else l);
            (lost, pns, l) = detect_lost_inner l rtt now_us out_cap
        in (newly_acked a, lost, pns, l, rtt))"

definition quic_loss_detect_lost :: "quic_loss \<Rightarrow> quic_rtt \<Rightarrow> u64 \<Rightarrow> nat \<Rightarrow> nat \<times> u64 list \<times> quic_loss" where
  "quic_loss_detect_lost l rtt now_us out_cap = detect_lost_inner l rtt now_us out_cap"

subsection \<open>The probe timeout\<close>

definition quic_loss_pto_us :: "quic_rtt \<Rightarrow> u64 \<Rightarrow> u64" where
  "quic_loss_pto_us rtt max_ack_delay_us =
     (if \<not> first_sample rtt then 0
      else smoothed_rtt rtt + u64_max (4 * rttvar rtt) QUIC_LOSS_GRANULARITY_US + max_ack_delay_us)"

definition quic_loss_pto_deadline :: "quic_loss \<Rightarrow> quic_rtt \<Rightarrow> u64 \<Rightarrow> u64" where
  "quic_loss_pto_deadline l rtt max_ack_delay_us =
     (if ack_eliciting_in_flight l = 0 then 0
      else if time_of_last_ack_eliciting_sent l = 0 then 0
      else
        let base = quic_loss_pto_us rtt max_ack_delay_us;
            base = (if base = 0 then 333000 + max_ack_delay_us else base);
            shift = (if pto_count l > 16 then 16 else pto_count l);
            backed = push_bit (unat shift) base
        in time_of_last_ack_eliciting_sent l + backed)"

section \<open>The sweeps\<close>

text \<open>A packet the loss sweep gives up on, and one it waits for.\<close>

definition pkt_lost :: "u64 \<Rightarrow> u64 \<Rightarrow> quic_sent_pkt \<Rightarrow> bool" where
  "pkt_lost largest lost_send_time s \<longleftrightarrow> used s \<and> pn s \<le> largest
     \<and> (largest - pn s \<ge> QUIC_LOSS_PACKET_THRESHOLD \<or> time_sent s \<le> lost_send_time)"

definition pkt_waits :: "u64 \<Rightarrow> u64 \<Rightarrow> quic_sent_pkt \<Rightarrow> bool" where
  "pkt_waits largest lost_send_time s \<longleftrightarrow>
     used s \<and> pn s \<le> largest \<and> \<not> pkt_lost largest lost_send_time s"

definition free_if :: "(quic_sent_pkt \<Rightarrow> bool) \<Rightarrow> quic_sent_pkt \<Rightarrow> quic_sent_pkt" where
  "free_if P s = (if P s then s\<lparr>used := False\<rparr> else s)"

definition n_eliciting :: "quic_sent_pkt list \<Rightarrow> nat" where
  "n_eliciting ps = length (filter (\<lambda>s. used s \<and> ack_eliciting s) ps)"

lemma n_eliciting_simps [simp]:
  "n_eliciting [] = 0"
  "n_eliciting (s # ss) = (if used s \<and> ack_eliciting s then Suc (n_eliciting ss) else n_eliciting ss)"
  by (simp_all add: n_eliciting_def)

lemma dec_in_flight_nat:
  "unat (dec_in_flight s fl) = (if ack_eliciting s then unat fl - 1 else unat fl)"
proof -
  have "fl > 0 \<Longrightarrow> unat (fl - 1) = unat fl - 1"
    by (simp add: unat_sub_if_size word_less_nat_alt)
  then show ?thesis by (auto simp: dec_in_flight_def word_less_nat_alt)
qed

lemma detect_loop_slots:
  "detect_loop largest delay t ss lt fl = (lost, ps, lt', fl') \<Longrightarrow>
   lost = map pn (filter (pkt_lost largest t) ss) \<and> ps = map (free_if (pkt_lost largest t)) ss"
proof (induction ss arbitrary: lt fl lost ps)
  case (Cons s ss)
  then show ?case
    by (auto simp: pkt_lost_def free_if_def not_le not_less Let_def split: if_splits prod.splits)
qed simp

lemma detect_loop_count:
  "detect_loop largest delay t ss lt fl = (lost, ps, lt', fl') \<Longrightarrow> unat fl = n_eliciting ss + k \<Longrightarrow>
   unat fl' = n_eliciting ps + k"
proof (induction ss arbitrary: lt fl lost ps k)
  case (Cons s ss)
  show ?case
  proof (cases "used s \<and> pn s \<le> largest \<and> (largest - pn s \<ge> QUIC_LOSS_PACKET_THRESHOLD \<or> time_sent s \<le> t)")
    case True
    then obtain l' p' where d: "detect_loop largest delay t ss lt (dec_in_flight s fl) = (l', p', lt', fl')"
      and ps: "ps = s\<lparr>used := False\<rparr> # p'"
      using Cons.prems(1) by (auto simp: leD Let_def split: prod.splits)
    have "unat (dec_in_flight s fl) = n_eliciting ss + k"
      using Cons.prems(2) True by (simp add: dec_in_flight_nat split: if_splits)
    from Cons.IH [OF d this] show ?thesis by (simp add: ps)
  next
    case False
    then obtain lt0 l' p' where d: "detect_loop largest delay t ss lt0 fl = (l', p', lt', fl')" "ps = s # p'"
      using Cons.prems(1) by (auto simp: not_less not_le Let_def split: prod.splits if_splits)
    let ?e = "if used s \<and> ack_eliciting s then 1 else 0"
    have "unat fl = n_eliciting ss + (k + ?e)" using Cons.prems(2) by simp
    from Cons.IH [OF d(1) this] show ?thesis by (simp add: d(2))
  qed
qed simp

text \<open>The loss timer is the earliest deadline of the packets still waited for.\<close>

lemma detect_loop_timer:
  "detect_loop largest delay t ss lt fl = (lost, ps, lt', fl') \<Longrightarrow>
   D = (\<lambda>s. time_sent s + delay) ` {s \<in> set ss. pkt_waits largest t s} \<Longrightarrow> 0 \<notin> D \<Longrightarrow>
   (lt' = 0 \<longleftrightarrow> lt = 0 \<and> D = {}) \<and> lt' \<in> insert lt D \<and> (\<forall>d\<in>D. lt' \<le> d) \<and> (lt \<noteq> 0 \<longrightarrow> lt' \<le> lt)"
proof (induction ss arbitrary: lt fl lost ps D)
  case (Cons s ss)
  let ?D = "(\<lambda>s. time_sent s + delay) ` {s \<in> set ss. pkt_waits largest t s}"
  show ?case
  proof (cases "pkt_waits largest t s")
    case True
    let ?d = "time_sent s + delay"
    let ?lt = "if lt = 0 \<or> ?d < lt then ?d else lt"
    have D: "D = insert ?d ?D" using True Cons.prems(2) by auto
    then have nz: "?d \<noteq> 0" "0 \<notin> ?D" using Cons.prems(3) by auto
    obtain l' p' where d: "detect_loop largest delay t ss ?lt fl = (l', p', lt', fl')"
      using Cons.prems(1) True
      by (auto simp: pkt_waits_def pkt_lost_def not_less Let_def split: prod.splits if_splits)
    from Cons.IH [OF d refl nz(2)] nz(1) show ?thesis unfolding D by (auto split: if_splits)
  next
    case False
    have D: "D = ?D" using False Cons.prems(2) by auto
    obtain fl0 l' p' where d: "detect_loop largest delay t ss lt fl0 = (l', p', lt', fl')"
      using Cons.prems(1) False
      by (auto simp: pkt_waits_def pkt_lost_def not_less Let_def split: prod.splits if_splits)
    from Cons.IH [OF d refl] Cons.prems(3) show ?thesis unfolding D by blast
  qed
qed simp

lemma ack_loop_slots:
  "ack_loop rs ss a fl = (ps, a', fl') \<Longrightarrow>
   ps = map (free_if (\<lambda>s. used s \<and> pn_in_ranges (pn s) rs)) ss
   \<and> newly_acked a' = newly_acked a + length (filter (\<lambda>s. used s \<and> pn_in_ranges (pn s) rs) ss)"
proof (induction ss arbitrary: a fl ps)
  case (Cons s ss)
  then show ?case by (auto simp: free_if_def Let_def split: if_splits prod.splits)
qed simp

lemma ack_loop_count:
  "ack_loop rs ss a fl = (ps, a', fl') \<Longrightarrow> unat fl = n_eliciting ss + k \<Longrightarrow> unat fl' = n_eliciting ps + k"
proof (induction ss arbitrary: a fl ps k)
  case (Cons s ss)
  show ?case
  proof (cases "used s \<and> pn_in_ranges (pn s) rs")
    case True
    then obtain a0 p' where d: "ack_loop rs ss a0 (dec_in_flight s fl) = (p', a', fl')"
      and ps: "ps = s\<lparr>used := False\<rparr> # p'"
      using Cons.prems(1) by (auto simp: Let_def split: prod.splits)
    have "unat (dec_in_flight s fl) = n_eliciting ss + k"
      using Cons.prems(2) True by (simp add: dec_in_flight_nat split: if_splits)
    from Cons.IH [OF d this] show ?thesis by (simp add: ps)
  next
    case False
    then obtain p' where d: "ack_loop rs ss a fl = (p', a', fl')" "ps = s # p'"
      using Cons.prems(1) by (auto split: prod.splits)
    let ?e = "if used s \<and> ack_eliciting s then 1 else 0"
    have "unat fl = n_eliciting ss + (k + ?e)" using Cons.prems(2) by simp
    from Cons.IH [OF d(1) this] show ?thesis by (simp add: d(2))
  qed
qed simp

text \<open>The candidate for the round-trip sample is the newly acknowledged packet of largest number.\<close>

lemma ack_loop_largest:
  "ack_loop rs ss a fl = (ps, a', fl') \<Longrightarrow>
   (have_largest_new a' \<longleftrightarrow> have_largest_new a \<or> (\<exists>s\<in>set ss. used s \<and> pn_in_ranges (pn s) rs))
   \<and> (\<forall>s\<in>set ss. used s \<and> pn_in_ranges (pn s) rs \<longrightarrow> pn s \<le> largest_new_pn a')
   \<and> (have_largest_new a \<longrightarrow> largest_new_pn a \<le> largest_new_pn a')
   \<and> ((have_largest_new a' = have_largest_new a \<and> largest_new_pn a' = largest_new_pn a
        \<and> largest_new_send_time a' = largest_new_send_time a
        \<and> largest_new_eliciting a' = largest_new_eliciting a)
      \<or> (\<exists>s\<in>set ss. used s \<and> pn_in_ranges (pn s) rs \<and> largest_new_pn a' = pn s
        \<and> largest_new_send_time a' = time_sent s \<and> largest_new_eliciting a' = ack_eliciting s))"
proof (induction ss arbitrary: a fl ps)
  case (Cons s ss)
  show ?case
  proof (cases "used s \<and> pn_in_ranges (pn s) rs")
    case False
    then obtain p' where d: "ack_loop rs ss a fl = (p', a', fl')"
      using Cons.prems(1) by (auto split: prod.splits)
    show ?thesis using Cons.IH [OF d] False by auto
  next
    case True
    let ?b = "a\<lparr>newly_acked := Suc (newly_acked a)\<rparr>"
    let ?c = "if \<not> have_largest_new ?b \<or> pn s > largest_new_pn ?b
      then ?b\<lparr>largest_new_pn := pn s, largest_new_send_time := time_sent s,
              largest_new_eliciting := ack_eliciting s, have_largest_new := True\<rparr> else ?b"
    obtain p' where d: "ack_loop rs ss ?c (dec_in_flight s fl) = (p', a', fl')"
      using Cons.prems(1) True by (auto simp: Let_def split: prod.splits)
    show ?thesis
    proof (cases "\<not> have_largest_new a \<or> pn s > largest_new_pn a")
      case new: True
      show ?thesis using Cons.IH [OF d] True new by auto
    next
      case old: False
      show ?thesis using Cons.IH [OF d] True old by auto
    qed
  qed
qed simp

lemma free_if_twice:
  "free_if (pkt_lost largest t) (free_if (\<lambda>s. used s \<and> Q s) s)
     = free_if (\<lambda>s. used s \<and> (Q s \<or> pkt_lost largest t s)) s"
  by (auto simp: free_if_def pkt_lost_def)

lemma pkt_lost_free_if:
  "pkt_lost largest t (free_if (\<lambda>s. used s \<and> Q s) s) \<longleftrightarrow> \<not> Q s \<and> pkt_lost largest t s"
  by (auto simp: free_if_def pkt_lost_def)

lemma foldl_hi:
  "m \<le> foldl (\<lambda>m r. if range_hi r > m then range_hi r else m) m rs
   \<and> (\<forall>r\<in>set rs. range_hi r \<le> foldl (\<lambda>m r. if range_hi r > m then range_hi r else m) m rs)"
proof (induction rs arbitrary: m)
  case (Cons r rs)
  show ?case using Cons.IH [of "if range_hi r > m then range_hi r else m"]
    by (auto split: if_splits)
qed simp

lemma largest_of_ge: "r \<in> set rs \<Longrightarrow> range_hi r \<le> largest_of rs"
  by (cases rs) (use foldl_hi in \<open>auto simp: largest_of_def\<close>)

lemma pn_in_ranges_iff: "pn_in_ranges p rs \<longleftrightarrow> (\<exists>r\<in>set rs. range_lo r \<le> p \<and> p \<le> range_hi r)"
  by (induction rs) auto

definition lost_before :: "quic_rtt \<Rightarrow> u64 \<Rightarrow> u64" where
  "lost_before rtt now_us = (if now_us > loss_delay_us rtt then now_us - loss_delay_us rtt else 0)"

lemma detect_lost_spec:
  assumes "detect_lost_inner l rtt now_us cap = (n, pns, l')" "have_largest_acked l"
    and "unat (ack_eliciting_in_flight l) = n_eliciting (pkts l) + k"
  shows "pkts l' = map (free_if (pkt_lost (largest_acked l) (lost_before rtt now_us))) (pkts l)"
    "n = length (filter (pkt_lost (largest_acked l) (lost_before rtt now_us)) (pkts l))"
    "pns = take cap (map pn (filter (pkt_lost (largest_acked l) (lost_before rtt now_us)) (pkts l)))"
    "unat (ack_eliciting_in_flight l') = n_eliciting (pkts l') + k"
    "largest_acked l' = largest_acked l" "have_largest_acked l'" "pto_count l' = pto_count l"
    "time_of_last_ack_eliciting_sent l' = time_of_last_ack_eliciting_sent l"
proof -
  obtain lost ps lt fl where d: "detect_loop (largest_acked l) (loss_delay_us rtt) (lost_before rtt now_us)
      (pkts l) 0 (ack_eliciting_in_flight l) = (lost, ps, lt, fl)"
    by (metis prod_cases4)
  have r: "n = length lost" "pns = take cap lost"
    "l' = l\<lparr>pkts := ps, loss_time := lt, ack_eliciting_in_flight := fl\<rparr>"
    using assms(1,2) d by (auto simp: detect_lost_inner_def Let_def lost_before_def)
  show "pkts l' = map (free_if (pkt_lost (largest_acked l) (lost_before rtt now_us))) (pkts l)"
    "n = length (filter (pkt_lost (largest_acked l) (lost_before rtt now_us)) (pkts l))"
    "pns = take cap (map pn (filter (pkt_lost (largest_acked l) (lost_before rtt now_us)) (pkts l)))"
    using detect_loop_slots [OF d] r by auto
  show "unat (ack_eliciting_in_flight l') = n_eliciting (pkts l') + k"
    using detect_loop_count [OF d assms(3)] r by simp
qed (use assms in \<open>auto simp: detect_lost_inner_def Let_def split: prod.splits\<close>)

text \<open>
  One acknowledgement: which slots it frees, what it counts, and what happens to the
  ack-eliciting count.
\<close>

lemma on_ack_spec:
  assumes st: "quic_loss_on_ack l rtt rs ad mad now_us cap = (acked, lost, pns, l', rtt')"
    and ne: "rs \<noteq> []"
    and k: "unat (ack_eliciting_in_flight l) = n_eliciting (pkts l) + k"
  defines "L \<equiv> if have_largest_acked l then max (largest_acked l) (largest_of rs) else largest_of rs"
    and "acks \<equiv> \<lambda>s. pn_in_ranges (pn s) rs"
  shows "largest_acked l' = L \<and> have_largest_acked l'"
    "acked = length (filter (\<lambda>s. used s \<and> acks s) (pkts l))"
    "lost = length (filter (\<lambda>s. \<not> acks s \<and> pkt_lost L (lost_before rtt' now_us) s) (pkts l))"
    "pkts l' = map (free_if (\<lambda>s. used s \<and> (acks s \<or> pkt_lost L (lost_before rtt' now_us) s))) (pkts l)"
    "unat (ack_eliciting_in_flight l') = n_eliciting (pkts l') + k"
    "pto_count l' = (if acked > 0 then 0 else pto_count l)"
proof -
  define l1 where "l1 = l\<lparr>largest_acked := L, have_largest_acked := True\<rparr>"
  have l1: "(if \<not> have_largest_acked l \<or> largest_of rs > largest_acked l
      then l\<lparr>largest_acked := largest_of rs, have_largest_acked := True\<rparr> else l) = l1"
    by (auto simp: l1_def L_def max_def)
  obtain ps a fl where al: "ack_loop rs (pkts l1) \<lparr>newly_acked = 0, have_largest_new = False,
      largest_new_pn = 0, largest_new_send_time = 0, largest_new_eliciting = False\<rparr>
      (ack_eliciting_in_flight l1) = (ps, a, fl)"
    by (metis prod_cases3)
  define l2 where "l2 = (let l = l1\<lparr>pkts := ps, ack_eliciting_in_flight := fl\<rparr>
    in if newly_acked a > 0 then l\<lparr>pto_count := 0\<rparr> else l)"
  have d: "detect_lost_inner l2 rtt' now_us cap = (lost, pns, l')" and ac: "acked = newly_acked a"
    using st ne unfolding quic_loss_on_ack_def l2_def Let_def l1 al prod.case
    by (auto split: prod.splits if_splits)
  have "unat (ack_eliciting_in_flight l1) = n_eliciting (pkts l1) + k" using k by (simp add: l1_def)
  from ack_loop_count [OF al this] have k2: "unat (ack_eliciting_in_flight l2) = n_eliciting (pkts l2) + k"
    by (simp add: l2_def Let_def)
  have h2: "have_largest_acked l2" "largest_acked l2 = L" by (simp_all add: l2_def l1_def Let_def)
  have p2: "pkts l2 = map (free_if (\<lambda>s. used s \<and> acks s)) (pkts l)"
    "newly_acked a = length (filter (\<lambda>s. used s \<and> acks s) (pkts l))"
    using ack_loop_slots [OF al] by (auto simp: l2_def l1_def acks_def Let_def)
  note d' = detect_lost_spec [OF d h2(1) k2, unfolded h2(2)]
  show "largest_acked l' = L \<and> have_largest_acked l'" using d' by simp
  show "acked = length (filter (\<lambda>s. used s \<and> acks s) (pkts l))" using ac p2 by simp
  show "lost = length (filter (\<lambda>s. \<not> acks s \<and> pkt_lost L (lost_before rtt' now_us) s) (pkts l))"
    using d'(2) by (simp add: p2(1) filter_map o_def pkt_lost_free_if)
  show "pkts l' = map (free_if (\<lambda>s. used s \<and> (acks s \<or> pkt_lost L (lost_before rtt' now_us) s))) (pkts l)"
    using d'(1) by (simp add: p2(1) free_if_twice)
  show "unat (ack_eliciting_in_flight l') = n_eliciting (pkts l') + k" by (rule d'(4))
  show "pto_count l' = (if acked > 0 then 0 else pto_count l)"
    using d'(7) ac by (simp add: l2_def l1_def Let_def)
qed

section \<open>Sending\<close>

lemma find_free_Some: "find_free ps = Some i \<Longrightarrow> i < length ps \<and> \<not> used (ps ! i)"
  by (induction ps arbitrary: i) (auto split: if_splits)

lemma find_free_None: "find_free ps = None \<longleftrightarrow> (\<forall>s\<in>set ps. used s)"
  by (induction ps) auto

lemma foldl_index_lt:
  "j < n \<Longrightarrow> \<forall>i\<in>set is. i < n \<Longrightarrow> foldl (\<lambda>oldest i. if P i oldest then i else oldest) j is < (n :: nat)"
  by (induction "is" arbitrary: j) auto

lemma find_oldest_lt: "ps \<noteq> [] \<Longrightarrow> find_oldest ps < length ps"
  unfolding find_oldest_def by (rule foldl_index_lt) auto

lemma n_eliciting_update:
  "i < length ps \<Longrightarrow>
   n_eliciting (ps[i := s]) + (if used (ps ! i) \<and> ack_eliciting (ps ! i) then 1 else 0)
     = n_eliciting ps + (if used s \<and> ack_eliciting s then 1 else 0)"
proof (induction ps arbitrary: i)
  case (Cons p ps)
  show ?case
  proof (cases i)
    case (Suc j)
    then show ?thesis using Cons.IH [of j] Cons.prems by (auto split: if_splits)
  qed simp
qed simp

lemma n_eliciting_le: "n_eliciting ps \<le> length ps"
  by (simp add: n_eliciting_def)

lemma on_sent_free:
  assumes "find_free (pkts l) = Some i" "unat (ack_eliciting_in_flight l) = n_eliciting (pkts l)"
    and "length (pkts l) < 2 ^ 32"
  shows "unat (ack_eliciting_in_flight (quic_loss_on_sent l p now_us n e f))
      = n_eliciting (pkts (quic_loss_on_sent l p now_us n e f))"
proof -
  have i: "i < length (pkts l)" "\<not> used (pkts l ! i)" using find_free_Some [OF assms(1)] by auto
  let ?s = "\<lparr>pn = p, time_sent = now_us, pkt_size = (if n > 65535 then 65535 else word_of_nat n),
    ack_eliciting = e, in_flight = f, used = True\<rparr>"
  have u: "n_eliciting ((pkts l)[i := ?s]) = n_eliciting (pkts l) + (if e then 1 else 0)"
    using n_eliciting_update [OF i(1), of ?s] i(2) by simp
  moreover have "n_eliciting ((pkts l)[i := ?s]) < 2 ^ 32"
    using n_eliciting_le [of "(pkts l)[i := ?s]"] assms(3) by simp
  ultimately show ?thesis using assms(1,2)
    by (auto simp: quic_loss_on_sent_def Let_def unat_word_ariths(1))
qed

lemma on_sent_length: "length (pkts (quic_loss_on_sent l p now_us n e f)) = length (pkts l)"
  by (simp add: quic_loss_on_sent_def Let_def)

section \<open>Runs of the tracker\<close>

datatype loss_event =
    Pkt_Sent u64 u64 nat bool bool
  | Ack_Received "quic_pn_range list" u64 u64 u64 nat
  | Loss_Timer u64 nat

fun loss_step :: "quic_loss \<times> quic_rtt \<Rightarrow> loss_event \<Rightarrow> quic_loss \<times> quic_rtt" where
  "loss_step (l, rtt) (Pkt_Sent p now_us n e f) = (quic_loss_on_sent l p now_us n e f, rtt)"
| "loss_step (l, rtt) (Ack_Received rs ad mad now_us cap) =
     (case quic_loss_on_ack l rtt rs ad mad now_us cap of (_, _, _, l', rtt') \<Rightarrow> (l', rtt'))"
| "loss_step (l, rtt) (Loss_Timer now_us cap) =
     (case quic_loss_detect_lost l rtt now_us cap of (_, _, l') \<Rightarrow> (l', rtt))"

text \<open>A run in which every packet sent finds a free slot.\<close>

fun loss_run :: "quic_loss \<times> quic_rtt \<Rightarrow> loss_event list \<Rightarrow> (quic_loss \<times> quic_rtt) option" where
  "loss_run st [] = Some st"
| "loss_run st (Pkt_Sent p now_us n e f # es) =
     (if find_free (pkts (fst st)) = None then None
      else loss_run (loss_step st (Pkt_Sent p now_us n e f)) es)"
| "loss_run st (Ack_Received rs ad mad now_us cap # es) =
     loss_run (loss_step st (Ack_Received rs ad mad now_us cap)) es"
| "loss_run st (Loss_Timer now_us cap # es) = loss_run (loss_step st (Loss_Timer now_us cap)) es"

definition loss_inv :: "quic_loss \<Rightarrow> bool" where
  "loss_inv l \<longleftrightarrow> length (pkts l) = QUIC_LOSS_MAX_TRACKED
     \<and> unat (ack_eliciting_in_flight l) = n_eliciting (pkts l)"

lemma n_eliciting_unused: "(\<forall>s\<in>set ps. \<not> used s) \<Longrightarrow> n_eliciting ps = 0"
  by (simp add: n_eliciting_def)

lemma loss_inv_init: "loss_inv quic_loss_init"
  using n_eliciting_unused [of "replicate QUIC_LOSS_MAX_TRACKED quic_sent_pkt_zero"]
  by (simp add: loss_inv_def quic_loss_init_def quic_sent_pkt_zero_def)

lemma loss_inv_ack:
  assumes "loss_inv l" "quic_loss_on_ack l rtt rs ad mad now_us cap = (a, b, c, l', rtt')"
  shows "loss_inv l'"
proof (cases "rs = []")
  case True
  then show ?thesis using assms by (simp add: quic_loss_on_ack_def)
next
  case False
  have "unat (ack_eliciting_in_flight l) = n_eliciting (pkts l) + 0" using assms(1) by (simp add: loss_inv_def)
  from on_ack_spec(4,5) [OF assms(2) False this] show ?thesis using assms(1) by (simp add: loss_inv_def)
qed

lemma loss_inv_detect:
  assumes "loss_inv l" "quic_loss_detect_lost l rtt now_us cap = (a, b, l')"
  shows "loss_inv l'"
proof (cases "have_largest_acked l")
  case False
  then show ?thesis using assms by (auto simp: quic_loss_detect_lost_def detect_lost_inner_def loss_inv_def)
next
  case True
  have "unat (ack_eliciting_in_flight l) = n_eliciting (pkts l) + 0" using assms(1) by (simp add: loss_inv_def)
  from detect_lost_spec(1,4) [OF assms(2) [unfolded quic_loss_detect_lost_def] True this]
  show ?thesis using assms(1) by (simp add: loss_inv_def)
qed

lemma loss_run_inv:
  "loss_run st es = Some st' \<Longrightarrow> loss_inv (fst st) \<Longrightarrow> loss_inv (fst st')"
proof (induction st es rule: loss_run.induct)
  case (2 st p now_us n e f es)
  obtain l rtt where st: "st = (l, rtt)" by (cases st)
  obtain i where i: "find_free (pkts l) = Some i" using 2(2) st by (auto split: if_splits)
  have "loss_inv (quic_loss_on_sent l p now_us n e f)"
    using 2(3) on_sent_free [OF i, of p now_us n e f] on_sent_length [of l p now_us n e f]
    by (simp add: loss_inv_def st QUIC_LOSS_MAX_TRACKED_def)
  then show ?case using 2(1,2) st i by simp
next
  case (3 st rs ad mad now_us cap es)
  then show ?case using loss_inv_ack by (cases st) (auto split: prod.splits)
next
  case (4 st now_us cap es)
  then show ?case using loss_inv_detect by (cases st) (auto split: prod.splits)
qed simp

section \<open>The estimator\<close>

definition sample_fits :: "u64 \<times> u64 \<times> u64 \<Rightarrow> bool" where
  "sample_fits x \<longleftrightarrow> unat (fst x) < 2 ^ 60 \<and> unat (fst (snd x)) < 2 ^ 62"

definition rtt_run :: "quic_rtt \<Rightarrow> (u64 \<times> u64 \<times> u64) list \<Rightarrow> quic_rtt" where
  "rtt_run = foldl (\<lambda>r x. quic_rtt_sample r (fst x) (fst (snd x)) (snd (snd x)))"

definition rtt_within :: "quic_rtt \<Rightarrow> nat \<Rightarrow> nat \<Rightarrow> bool" where
  "rtt_within r lo hi \<longleftrightarrow> first_sample r \<and> unat (min_rtt r) = lo
     \<and> lo \<le> unat (smoothed_rtt r) \<and> unat (smoothed_rtt r) \<le> hi \<and> unat (rttvar r) \<le> hi"

lemma unat_mul_small:
  "unat (numeral n :: u64) * unat x < 2 ^ 64 \<Longrightarrow> unat (numeral n * x :: u64) = unat (numeral n :: u64) * unat x"
  by (simp add: unat_word_ariths(2))

lemma unat_abs_diff: "unat (abs_diff a b) = (if unat a > unat b then unat a - unat b else unat b - unat a)"
  by (auto simp: abs_diff_def word_less_nat_alt unat_sub_if_size)

lemma unat_avg:
  assumes "unat s \<le> hi" "unat x \<le> hi" "hi < 2 ^ 60"
  shows "unat ((3 * s + x) div 4 :: u64) = (3 * unat s + unat x) div 4"
    "unat ((7 * s + x) div 8 :: u64) = (7 * unat s + unat x) div 8"
  using assms by (simp_all add: unat_div_distrib unat_word_ariths(1) unat_mul_small)

lemma rtt_sample_first:
  assumes "\<not> first_sample r"
  shows "rtt_within (quic_rtt_sample r x d m) (unat x) (unat x)"
  using assms by (simp add: quic_rtt_sample_def rtt_within_def unat_div_distrib)

lemma rtt_sample_within:
  assumes "rtt_within r lo hi" "lo \<le> hi" "hi < 2 ^ 60" "sample_fits (x, d, m)"
  shows "rtt_within (quic_rtt_sample r x d m) (min lo (unat x)) (max hi (unat x))"
proof -
  define dl where "dl = (if m > 0 \<and> d > m then m else d)"
  define adj where "adj = (if x \<ge> u64_min (min_rtt r) x + dl then x - dl else x)"
  let ?lo = "min lo (unat x)" and ?hi = "max hi (unat x)"
  have x: "unat x < 2 ^ 60" and d: "unat dl < 2 ^ 62"
    using assms(4) by (auto simp: sample_fits_def dl_def word_less_nat_alt)
  have lo: "unat (min_rtt r) = lo" and f: "first_sample r"
    and s: "lo \<le> unat (smoothed_rtt r)" "unat (smoothed_rtt r) \<le> ?hi" "unat (rttvar r) \<le> ?hi"
    using assms(1) by (auto simp: rtt_within_def)
  have hi: "?hi < 2 ^ 60" using assms(3) x by simp
  have "unat (u64_min (min_rtt r) x + dl) = ?lo + unat dl"
    using d x by (simp add: unat_word_ariths(1) unat_u64_min lo)
  then have adj: "?lo \<le> unat adj" "unat adj \<le> ?hi"
    by (auto simp: adj_def word_le_nat_alt unat_sub_if_size)
  have "unat (abs_diff (smoothed_rtt r) adj) \<le> ?hi" using s(2) adj(2)
    unfolding unat_abs_diff by (simp only: split: if_split) linarith
  note avg = unat_avg [OF s(3) this hi] unat_avg [OF s(2) adj(2) hi]
  have r: "quic_rtt_sample r x d m = r\<lparr>latest_rtt := x, min_rtt := u64_min (min_rtt r) x,
      rttvar := (3 * rttvar r + abs_diff (smoothed_rtt r) adj) div 4,
      smoothed_rtt := (7 * smoothed_rtt r + adj) div 8\<rparr>"
    using f by (simp add: quic_rtt_sample_def Let_def adj_def dl_def)
  show ?thesis
    unfolding r rtt_within_def
    using f lo s adj avg(1,4) \<open>unat (abs_diff (smoothed_rtt r) adj) \<le> ?hi\<close>
    by (auto simp: unat_u64_min)
qed

lemma rtt_run_within:
  "rtt_within r lo hi \<Longrightarrow> lo \<le> hi \<Longrightarrow> hi < 2 ^ 60 \<Longrightarrow> \<forall>x\<in>set xs. sample_fits x \<Longrightarrow>
   rtt_within (rtt_run r xs) (Min (insert lo (unat ` fst ` set xs))) (Max (insert hi (unat ` fst ` set xs)))"
proof (induction xs arbitrary: r lo hi)
  case Nil
  then show ?case by (simp add: rtt_run_def)
next
  case (Cons x xs)
  obtain a d m where x: "x = (a, d, m)" by (cases x)
  let ?lo = "min lo (unat a)" and ?hi = "max hi (unat a)"
  have "rtt_within (quic_rtt_sample r a d m) ?lo ?hi"
    using rtt_sample_within Cons.prems x by simp
  moreover have "?hi < 2 ^ 60" using Cons.prems x by (simp add: sample_fits_def)
  ultimately have "rtt_within (rtt_run (quic_rtt_sample r a d m) xs)
      (Min (insert ?lo (unat ` fst ` set xs))) (Max (insert ?hi (unat ` fst ` set xs)))"
    using Cons.IH Cons.prems by (simp add: min_le_iff_disj)
  moreover have "Min (insert ?lo (unat ` fst ` set xs)) = Min (insert lo (insert (unat a) (unat ` fst ` set xs)))"
    "Max (insert ?hi (unat ` fst ` set xs)) = Max (insert hi (insert (unat a) (unat ` fst ` set xs)))"
    by (cases "xs = []"; simp add: min.assoc max.assoc)+
  ultimately show ?case by (simp add: rtt_run_def x)
qed

section \<open>Properties\<close>

text \<open>
  C24: An acknowledgement frees exactly the tracked packets in its ranges and those the loss
  rule gives up on (three or more numbers behind the largest acknowledged, or sent before the
  loss delay), counts both correctly, and keeps the ack-eliciting count exact; the probe
  back-off is reset exactly when a packet was newly acknowledged.
\<close>

theorem loss_on_ack_exact:
  assumes "quic_loss_on_ack l rtt rs ad mad now_us cap = (acked, lost, pns, l', rtt')"
    and "rs \<noteq> []" "unat (ack_eliciting_in_flight l) = n_eliciting (pkts l)"
  defines "t \<equiv> lost_before rtt' now_us" and "acks \<equiv> \<lambda>s. pn_in_ranges (pn s) rs"
  shows "(\<forall>r\<in>set rs. range_hi r \<le> largest_acked l')
    \<and> acked = length (filter (\<lambda>s. used s \<and> acks s) (pkts l))
    \<and> lost = length (filter (\<lambda>s. \<not> acks s \<and> pkt_lost (largest_acked l') t s) (pkts l))
    \<and> pkts l' = map (free_if (\<lambda>s. used s \<and> (acks s \<or> pkt_lost (largest_acked l') t s))) (pkts l)
    \<and> unat (ack_eliciting_in_flight l') = n_eliciting (pkts l')
    \<and> pto_count l' = (if acked > 0 then 0 else pto_count l)"
proof -
  have "unat (ack_eliciting_in_flight l) = n_eliciting (pkts l) + 0" using assms(3) by simp
  note sp = on_ack_spec [OF assms(1,2) this]
  have "range_hi r \<le> largest_acked l'" if "r \<in> set rs" for r
    using sp(1) largest_of_ge [OF that] by (auto simp: max_def split: if_splits)
  then show ?thesis using sp unfolding t_def acks_def by auto
qed

theorem loss_on_ack_exact_witness:
  "let p = \<lambda>i t. \<lparr>pn = i, time_sent = t, pkt_size = 1200, ack_eliciting = True, in_flight = True, used = True\<rparr>;
       l = \<lparr>pkts = [p 2 50, p 5 60, p 9 70], largest_acked = 0, have_largest_acked = False, loss_time = 0,
            time_of_last_ack_eliciting_sent = 70, pto_count = 2, ack_eliciting_in_flight = 3\<rparr>
   in \<exists>pns l' rtt'. quic_loss_on_ack l quic_rtt_init [\<lparr>range_lo = 5, range_hi = 5\<rparr>] 0 0 100 4
        = (1, 1, pns, l', rtt')
      \<and> pkts l' = [(p 2 50)\<lparr>used := False\<rparr>, (p 5 60)\<lparr>used := False\<rparr>, p 9 70]
      \<and> ack_eliciting_in_flight l' = 1 \<and> pto_count l' = 0"
proof -
  let ?p = "\<lambda>i t. \<lparr>pn = i, time_sent = t, pkt_size = 1200, ack_eliciting = True, in_flight = True, used = True\<rparr>"
  let ?l = "\<lparr>pkts = [?p 2 50, ?p 5 60, ?p 9 70], largest_acked = 0, have_largest_acked = False, loss_time = 0,
    time_of_last_ack_eliciting_sent = 70, pto_count = 2, ack_eliciting_in_flight = 3\<rparr>"
  obtain a b c l' r where st: "quic_loss_on_ack ?l quic_rtt_init [\<lparr>range_lo = 5, range_hi = 5\<rparr>] 0 0 100 4
      = (a, b, c, l', r)"
    by (metis prod_cases5)
  have n: "unat (ack_eliciting_in_flight ?l) = n_eliciting (pkts ?l)" by simp
  have "unat (ack_eliciting_in_flight ?l) = n_eliciting (pkts ?l) + 0" by simp
  from on_ack_spec(1) [OF st _ this] have L: "largest_acked l' = 5" by (simp add: largest_of_def)
  note th = loss_on_ack_exact [OF st _ n, unfolded L]
  have "acked = 1" if "acked = a" for acked using th that by simp
  moreover have "pkts l' = [(?p 2 50)\<lparr>used := False\<rparr>, (?p 5 60)\<lparr>used := False\<rparr>, ?p 9 70]"
    using th by (simp add: free_if_def pkt_lost_def QUIC_LOSS_PACKET_THRESHOLD_def)
  moreover have "b = 1" using th by (simp add: pkt_lost_def QUIC_LOSS_PACKET_THRESHOLD_def)
  ultimately show ?thesis using th st by (simp add: word_unat_eq_iff Let_def)
qed

text \<open>
  C25: After every run of sends, acknowledgements and loss-timer expiries in which no send found
  the tracker full, the ack-eliciting count is the number of tracked ack-eliciting packets, so
  the probe timer is off when there is none.
\<close>

theorem loss_counter_exact:
  assumes "loss_run (quic_loss_init, rtt) es = Some (l, rtt')"
  shows "unat (ack_eliciting_in_flight l) = n_eliciting (pkts l)
    \<and> (n_eliciting (pkts l) = 0 \<longrightarrow> quic_loss_pto_deadline l rtt' mad = 0)"
proof -
  have "loss_inv l" using loss_run_inv [OF assms] loss_inv_init by simp
  then show ?thesis by (auto simp: loss_inv_def quic_loss_pto_deadline_def unat_eq_zero)
qed

theorem loss_counter_exact_witness:
  "\<exists>l rtt'. loss_run (quic_loss_init, quic_rtt_init)
      [Pkt_Sent 0 10 1200 True True, Ack_Received [\<lparr>range_lo = 0, range_hi = 0\<rparr>] 0 0 20 4] = Some (l, rtt')
    \<and> unat (ack_eliciting_in_flight l) = n_eliciting (pkts l)"
proof -
  let ?es = "[Pkt_Sent 0 10 1200 True True, Ack_Received [\<lparr>range_lo = 0, range_hi = 0\<rparr>] 0 0 20 4]"
  have "find_free (pkts quic_loss_init) \<noteq> None"
    by (simp add: quic_loss_init_def find_free_None QUIC_LOSS_MAX_TRACKED_def quic_sent_pkt_zero_def)
  then obtain l rtt' where "loss_run (quic_loss_init, quic_rtt_init) ?es = Some (l, rtt')" by fastforce
  then show ?thesis using loss_counter_exact [of quic_rtt_init ?es l rtt'] by blast
qed

text \<open>
  C26: When the tracker is full, a send drops a tracked packet; if that packet was ack-eliciting,
  the count is not reduced for it and exceeds the number of tracked ack-eliciting packets by one
  from then on: acknowledging every tracked packet leaves it at one, so the probe timer stays armed.
\<close>

theorem loss_eviction_leaks_count:
  assumes "loss_inv l" "\<forall>s\<in>set (pkts l). used s \<and> ack_eliciting s"
    and "l1 = quic_loss_on_sent l p now_us n True f"
    and "quic_loss_on_ack l1 rtt rs ad mad now_us' cap = (acked, lost, pns, l2, rtt')"
    and "rs \<noteq> []" "\<forall>s\<in>set (pkts l1). pn_in_ranges (pn s) rs"
  shows "unat (ack_eliciting_in_flight l1) = n_eliciting (pkts l1) + 1
    \<and> n_eliciting (pkts l2) = 0 \<and> ack_eliciting_in_flight l2 = 1"
proof -
  have len: "length (pkts l) = 256" using assms(1) by (simp add: loss_inv_def QUIC_LOSS_MAX_TRACKED_def)
  have ff: "find_free (pkts l) = None" using assms(2) by (simp add: find_free_None)
  have i: "find_oldest (pkts l) < length (pkts l)" using find_oldest_lt [of "pkts l"] len by fastforce
  define s where "s = \<lparr>pn = p, time_sent = now_us, pkt_size = (if n > 65535 then 65535 else word_of_nat n),
    ack_eliciting = True, in_flight = f, used = True\<rparr>"
  have p1: "pkts l1 = (pkts l)[find_oldest (pkts l) := s]"
    and c1: "ack_eliciting_in_flight l1 = ack_eliciting_in_flight l + 1"
    using assms(3) ff by (simp_all add: quic_loss_on_sent_def Let_def s_def)
  have n1: "n_eliciting (pkts l1) = n_eliciting (pkts l)"
    using n_eliciting_update [OF i, of s] assms(2) i by (simp add: p1 s_def)
  have "n_eliciting (pkts l) \<le> 256" using n_eliciting_le [of "pkts l"] len by simp
  then have k: "unat (ack_eliciting_in_flight l1) = n_eliciting (pkts l1) + 1"
    using assms(1) by (simp add: c1 n1 loss_inv_def unat_word_ariths(1))
  note sp = on_ack_spec(4,5) [OF assms(4,5) k]
  have "\<forall>s\<in>set (pkts l2). \<not> used s" using sp(1) assms(6) by (auto simp: free_if_def)
  then have z: "n_eliciting (pkts l2) = 0" by (rule n_eliciting_unused)
  then have "unat (ack_eliciting_in_flight l2) = unat (1 :: u32)" using sp(2) by simp
  then show ?thesis using k z by (simp only: word_unat_eq_iff)
qed

theorem loss_eviction_leaks_count_witness:
  "\<exists>l1 l2 rtt' acked lost pns.
    quic_loss_on_ack l1 quic_rtt_init [\<lparr>range_lo = 0, range_hi = 9\<rparr>] 0 0 100 4 = (acked, lost, pns, l2, rtt')
    \<and> n_eliciting (pkts l2) = 0 \<and> ack_eliciting_in_flight l2 = 1"
proof -
  let ?p = "\<lparr>pn = 7, time_sent = 50, pkt_size = 1200, ack_eliciting = True, in_flight = True, used = True\<rparr>"
  let ?l = "\<lparr>pkts = replicate 256 ?p, largest_acked = 0, have_largest_acked = False, loss_time = 0,
    time_of_last_ack_eliciting_sent = 50, pto_count = 0, ack_eliciting_in_flight = 256\<rparr>"
  let ?l1 = "quic_loss_on_sent ?l 8 60 1200 True True"
  obtain a b c l2 r where st: "quic_loss_on_ack ?l1 quic_rtt_init [\<lparr>range_lo = 0, range_hi = 9\<rparr>] 0 0 100 4
      = (a, b, c, l2, r)"
    by (metis prod_cases5)
  have inv: "loss_inv ?l" by (simp add: loss_inv_def QUIC_LOSS_MAX_TRACKED_def n_eliciting_def)
  have pk: "\<forall>s\<in>set (pkts ?l1). pn_in_ranges (pn s) [\<lparr>range_lo = 0, range_hi = 9\<rparr>]"
    unfolding quic_loss_on_sent_def Let_def
    by (rule ballI) (auto dest!: subsetD [OF set_update_subset_insert])
  have "n_eliciting (pkts l2) = 0 \<and> ack_eliciting_in_flight l2 = 1"
    using loss_eviction_leaks_count [OF inv _ refl st _ pk] by simp
  then show ?thesis using st by blast
qed

text \<open>
  The loss sweep arms the loss timer at the earliest deadline of the packets it still waits
  for, and turns it off when there is none.
\<close>

lemma loss_timer_earliest:
  assumes "quic_loss_detect_lost l rtt now_us cap = (n, pns, l')" "have_largest_acked l"
    and "D = (\<lambda>s. time_sent s + loss_delay_us rtt)
               ` {s \<in> set (pkts l). pkt_waits (largest_acked l) (lost_before rtt now_us) s}" "0 \<notin> D"
  shows "loss_time l' = (if D = {} then 0 else Min D)"
proof -
  obtain lost ps lt fl where d: "detect_loop (largest_acked l) (loss_delay_us rtt) (lost_before rtt now_us)
      (pkts l) 0 (ack_eliciting_in_flight l) = (lost, ps, lt, fl)"
    by (metis prod_cases4)
  have lt: "loss_time l' = lt"
    using assms(1,2) d by (auto simp: quic_loss_detect_lost_def detect_lost_inner_def Let_def lost_before_def)
  have "finite D" using assms(3) by simp
  then show ?thesis using detect_loop_timer [OF d assms(3,4)] lt by (auto intro: Min_eqI [symmetric])
qed

text \<open>
  After any sequence of samples below 2^60 microseconds the minimum is the smallest sample
  seen, the smoothed round-trip time lies between the smallest and the largest sample, and the
  variation does not exceed the largest; the probe timeout lies between the bounds these give.
\<close>

lemma rtt_estimate_bounded:
  assumes "xs \<noteq> []" "\<forall>x\<in>set xs. sample_fits x" "r = rtt_run quic_rtt_init xs"
    and "lo = Min (unat ` fst ` set xs)" "hi = Max (unat ` fst ` set xs)" "unat mad < 2 ^ 60"
  shows "unat (min_rtt r) = lo \<and> lo \<le> unat (smoothed_rtt r) \<and> unat (smoothed_rtt r) \<le> hi
    \<and> unat (rttvar r) \<le> hi
    \<and> lo + 1000 + unat mad \<le> unat (quic_loss_pto_us r mad)
    \<and> unat (quic_loss_pto_us r mad) \<le> hi + max (4 * hi) 1000 + unat mad"
proof -
  obtain x ys where xs: "xs = x # ys" using assms(1) by (cases xs) auto
  obtain a d m where x: "x = (a, d, m)" by (cases x)
  have "rtt_within (quic_rtt_sample quic_rtt_init a d m) (unat a) (unat a)"
    by (rule rtt_sample_first) (simp add: quic_rtt_init_def)
  moreover have "unat a < 2 ^ 60" using assms(2) xs x by (simp add: sample_fits_def)
  ultimately have "rtt_within (rtt_run (quic_rtt_sample quic_rtt_init a d m) ys)
      (Min (insert (unat a) (unat ` fst ` set ys))) (Max (insert (unat a) (unat ` fst ` set ys)))"
    using assms(2) xs by (intro rtt_run_within) auto
  then have w: "rtt_within r lo hi" by (simp add: assms(3,4,5) xs x rtt_run_def)
  have hi: "hi < 2 ^ 60" using assms(1,2,5) by (auto simp: sample_fits_def)
  have "unat (4 * rttvar r) = 4 * unat (rttvar r)"
    using w hi unat_mul_small [of "num.Bit0 (num.Bit0 num.One)" "rttvar r"] by (simp add: rtt_within_def)
  moreover have a: "unat (smoothed_rtt r) + max (4 * unat (rttvar r)) 1000 < 2 ^ 64"
    and b: "unat (smoothed_rtt r) + max (4 * unat (rttvar r)) 1000 + unat mad < 2 ^ 64"
    using w hi assms(6) by (auto simp: rtt_within_def max_def)
  ultimately have "unat (quic_loss_pto_us r mad) = unat (smoothed_rtt r) + max (4 * unat (rttvar r)) 1000 + unat mad"
    using w a b
    by (simp add: quic_loss_pto_us_def rtt_within_def unat_word_ariths(1) unat_u64_max QUIC_LOSS_GRANULARITY_US_def)
  then show ?thesis using w by (auto simp: rtt_within_def)
qed

end
