(* ===== verification/Transport_Params.thy ===== *)
theory Transport_Params
  imports Frames
begin

text \<open>
  QUIC transport parameters: \<open>userspace/quic/transport_params.c\<close>. The struct's fixed arrays
  are lists of that length beside their length fields. A flag \<open>QUIC_TP_F_x = 1u << i\<close> is named by
  its bit number \<open>i\<close>; the flags are numbered in the order in which the encoder writes the
  parameters. The encoder's result is an option where the C function returns 0 for failure.
\<close>

section \<open>Definitions\<close>

record quic_transport_params =
  tp_present :: u32
  original_dcid :: bytes
  original_dcid_len :: byte
  max_idle_timeout_ms :: u64
  stateless_reset_token :: bytes
  max_udp_payload_size :: u64
  initial_max_data :: u64
  initial_max_stream_data_bidi_local :: u64
  initial_max_stream_data_bidi_remote :: u64
  initial_max_stream_data_uni :: u64
  initial_max_streams_bidi :: u64
  initial_max_streams_uni :: u64
  ack_delay_exponent :: u64
  max_ack_delay_ms :: u64
  active_connection_id_limit :: u64
  initial_source_cid :: bytes
  initial_source_cid_len :: byte
  retry_source_cid :: bytes
  retry_source_cid_len :: byte

definition quic_tp_init_defaults :: quic_transport_params where
  "quic_tp_init_defaults =
     \<lparr>tp_present = 0, original_dcid = replicate 20 0, original_dcid_len = 0,
      max_idle_timeout_ms = 0, stateless_reset_token = replicate 16 0,
      max_udp_payload_size = 65527, initial_max_data = 0,
      initial_max_stream_data_bidi_local = 0, initial_max_stream_data_bidi_remote = 0,
      initial_max_stream_data_uni = 0, initial_max_streams_bidi = 0, initial_max_streams_uni = 0,
      ack_delay_exponent = 3, max_ack_delay_ms = 25, active_connection_id_limit = 2,
      initial_source_cid = replicate 20 0, initial_source_cid_len = 0,
      retry_source_cid = replicate 20 0, retry_source_cid_len = 0\<rparr>"

definition tp_put_varint :: "nat \<Rightarrow> bytes \<Rightarrow> u64 \<Rightarrow> bytes option" where
  "tp_put_varint cap out v = map_option ((@) out) (quic_varint_encode (cap - length out) v)"

text \<open>
  A value above 2^62 - 1 has size 0; the final comparison then holds with nothing written.
\<close>

definition put_tlv_varint :: "nat \<Rightarrow> u64 \<Rightarrow> u64 \<Rightarrow> bytes \<Rightarrow> bytes option" where
  "put_tlv_varint cap ident v out =
     do { let vlen = quic_varint_size v;
          out \<leftarrow> tp_put_varint cap out ident;
          out \<leftarrow> tp_put_varint cap out (word_of_nat vlen);
          if cap - length out < vlen then None
          else let w = (case quic_varint_encode (cap - length out) v of None \<Rightarrow> [] | Some w \<Rightarrow> w)
               in if length w \<noteq> vlen then None else Some (out @ w) }"

definition put_tlv_bytes :: "nat \<Rightarrow> u64 \<Rightarrow> bytes \<Rightarrow> nat \<Rightarrow> bytes \<Rightarrow> bytes option" where
  "put_tlv_bytes cap ident p len out =
     do { out \<leftarrow> tp_put_varint cap out ident;
          out \<leftarrow> tp_put_varint cap out (word_of_nat len);
          if cap - length out < len then None else Some (out @ take len p) }"

definition put_tlv_empty :: "nat \<Rightarrow> u64 \<Rightarrow> bytes \<Rightarrow> bytes option" where
  "put_tlv_empty cap ident out =
     do { out \<leftarrow> tp_put_varint cap out ident; tp_put_varint cap out 0 }"

definition tp_has :: "quic_transport_params \<Rightarrow> nat \<Rightarrow> bool" where
  "tp_has tp i \<longleftrightarrow> tp_present tp AND push_bit i 1 \<noteq> 0"

definition tp_valid :: "quic_transport_params \<Rightarrow> bool" where
  "tp_valid tp \<longleftrightarrow>
     \<not> (tp_has tp 3 \<and> max_udp_payload_size tp < 1200)
     \<and> \<not> (tp_has tp 10 \<and> ack_delay_exponent tp > 20)
     \<and> \<not> (tp_has tp 11 \<and> max_ack_delay_ms tp \<ge> push_bit 14 1)
     \<and> \<not> (tp_has tp 13 \<and> active_connection_id_limit tp < 2)
     \<and> \<not> (tp_has tp 8 \<and> initial_max_streams_bidi tp > push_bit 60 1)
     \<and> \<not> (tp_has tp 9 \<and> initial_max_streams_uni tp > push_bit 60 1)
     \<and> \<not> (tp_has tp 0 \<and> original_dcid_len tp > 20)
     \<and> \<not> (tp_has tp 14 \<and> initial_source_cid_len tp > 20)
     \<and> \<not> (tp_has tp 15 \<and> retry_source_cid_len tp > 20)"

definition put_if :: "bool \<Rightarrow> (bytes \<Rightarrow> bytes option) \<Rightarrow> bytes \<Rightarrow> bytes option" where
  "put_if c put out = (if c then put out else Some out)"

definition quic_tp_encode :: "quic_transport_params \<Rightarrow> nat \<Rightarrow> bytes option" where
  "quic_tp_encode tp cap =
     (if \<not> tp_valid tp then None
      else do {
        out \<leftarrow> put_if (tp_has tp 0) (put_tlv_bytes cap 0x00 (original_dcid tp) (unat (original_dcid_len tp))) [];
        out \<leftarrow> put_if (tp_has tp 1) (put_tlv_varint cap 0x01 (max_idle_timeout_ms tp)) out;
        out \<leftarrow> put_if (tp_has tp 2) (put_tlv_bytes cap 0x02 (stateless_reset_token tp) 16) out;
        out \<leftarrow> put_if (tp_has tp 3) (put_tlv_varint cap 0x03 (max_udp_payload_size tp)) out;
        out \<leftarrow> put_if (tp_has tp 4) (put_tlv_varint cap 0x04 (initial_max_data tp)) out;
        out \<leftarrow> put_if (tp_has tp 5) (put_tlv_varint cap 0x05 (initial_max_stream_data_bidi_local tp)) out;
        out \<leftarrow> put_if (tp_has tp 6) (put_tlv_varint cap 0x06 (initial_max_stream_data_bidi_remote tp)) out;
        out \<leftarrow> put_if (tp_has tp 7) (put_tlv_varint cap 0x07 (initial_max_stream_data_uni tp)) out;
        out \<leftarrow> put_if (tp_has tp 8) (put_tlv_varint cap 0x08 (initial_max_streams_bidi tp)) out;
        out \<leftarrow> put_if (tp_has tp 9) (put_tlv_varint cap 0x09 (initial_max_streams_uni tp)) out;
        out \<leftarrow> put_if (tp_has tp 10) (put_tlv_varint cap 0x0a (ack_delay_exponent tp)) out;
        out \<leftarrow> put_if (tp_has tp 11) (put_tlv_varint cap 0x0b (max_ack_delay_ms tp)) out;
        out \<leftarrow> put_if (tp_has tp 12) (put_tlv_empty cap 0x0c) out;
        out \<leftarrow> put_if (tp_has tp 13) (put_tlv_varint cap 0x0e (active_connection_id_limit tp)) out;
        out \<leftarrow> put_if (tp_has tp 14) (put_tlv_bytes cap 0x0f (initial_source_cid tp) (unat (initial_source_cid_len tp))) out;
        put_if (tp_has tp 15) (put_tlv_bytes cap 0x10 (retry_source_cid tp) (unat (retry_source_cid_len tp))) out })"

text \<open>The flag bit of a parameter id, \<open>None\<close> for an unknown one.\<close>

definition tp_flag_for :: "u64 \<Rightarrow> nat option" where
  "tp_flag_for ident =
     (if ident \<le> 0x0c then Some (unat ident)
      else if ident = 0x0e then Some 13
      else if ident = 0x0f then Some 14
      else if ident = 0x10 then Some 15
      else None)"

text \<open>The decoder's local starts at 0 and a failed read counts as 0 bytes read.\<close>

definition decode_full_varint :: "bytes \<Rightarrow> u64 option" where
  "decode_full_varint val =
     (let (v, n) = (case quic_varint_decode val of None \<Rightarrow> (0, 0) | Some r \<Rightarrow> r)
      in if n \<noteq> length val then None else Some v)"

definition tp_varint ::
  "bytes \<Rightarrow> (u64 \<Rightarrow> bool) \<Rightarrow> (u64 \<Rightarrow> quic_transport_params) \<Rightarrow> quic_transport_params option" where
  "tp_varint val bad upd =
     do { v \<leftarrow> decode_full_varint val; if bad v then None else Some (upd v) }"

text \<open>The switch over the parameter id, for a value of the declared length.\<close>

definition tp_store :: "u64 \<Rightarrow> bytes \<Rightarrow> quic_transport_params \<Rightarrow> quic_transport_params option" where
  "tp_store ident val tp =
     (if ident = 0x00 then
        (if length val > 20 then None
         else Some (tp\<lparr>original_dcid := val @ drop (length val) (original_dcid tp),
                       original_dcid_len := word_of_nat (length val)\<rparr>))
      else if ident = 0x0f then
        (if length val > 20 then None
         else Some (tp\<lparr>initial_source_cid := val @ drop (length val) (initial_source_cid tp),
                       initial_source_cid_len := word_of_nat (length val)\<rparr>))
      else if ident = 0x10 then
        (if length val > 20 then None
         else Some (tp\<lparr>retry_source_cid := val @ drop (length val) (retry_source_cid tp),
                       retry_source_cid_len := word_of_nat (length val)\<rparr>))
      else if ident = 0x02 then
        (if length val \<noteq> 16 then None else Some (tp\<lparr>stateless_reset_token := val\<rparr>))
      else if ident = 0x0c then (if length val \<noteq> 0 then None else Some tp)
      else if ident = 0x01 then tp_varint val (\<lambda>v. False) (\<lambda>v. tp\<lparr>max_idle_timeout_ms := v\<rparr>)
      else if ident = 0x03 then tp_varint val (\<lambda>v. v < 1200) (\<lambda>v. tp\<lparr>max_udp_payload_size := v\<rparr>)
      else if ident = 0x04 then tp_varint val (\<lambda>v. False) (\<lambda>v. tp\<lparr>initial_max_data := v\<rparr>)
      else if ident = 0x05 then tp_varint val (\<lambda>v. False) (\<lambda>v. tp\<lparr>initial_max_stream_data_bidi_local := v\<rparr>)
      else if ident = 0x06 then tp_varint val (\<lambda>v. False) (\<lambda>v. tp\<lparr>initial_max_stream_data_bidi_remote := v\<rparr>)
      else if ident = 0x07 then tp_varint val (\<lambda>v. False) (\<lambda>v. tp\<lparr>initial_max_stream_data_uni := v\<rparr>)
      else if ident = 0x08 then tp_varint val (\<lambda>v. v > push_bit 60 1) (\<lambda>v. tp\<lparr>initial_max_streams_bidi := v\<rparr>)
      else if ident = 0x09 then tp_varint val (\<lambda>v. v > push_bit 60 1) (\<lambda>v. tp\<lparr>initial_max_streams_uni := v\<rparr>)
      else if ident = 0x0a then tp_varint val (\<lambda>v. v > 20) (\<lambda>v. tp\<lparr>ack_delay_exponent := v\<rparr>)
      else if ident = 0x0b then tp_varint val (\<lambda>v. v \<ge> push_bit 14 1) (\<lambda>v. tp\<lparr>max_ack_delay_ms := v\<rparr>)
      else if ident = 0x0e then tp_varint val (\<lambda>v. v < 2) (\<lambda>v. tp\<lparr>active_connection_id_limit := v\<rparr>)
      else None)"

definition tp_apply :: "u64 \<Rightarrow> bytes \<Rightarrow> quic_transport_params \<Rightarrow> quic_transport_params option" where
  "tp_apply ident val tp =
     (case tp_flag_for ident of
        None \<Rightarrow> Some tp
      | Some i \<Rightarrow>
          if tp_has tp i then None
          else do { tp \<leftarrow> tp_store ident val tp;
                    Some (tp\<lparr>tp_present := tp_present tp OR push_bit i 1\<rparr>) })"

text \<open>The loop over the parameters; the argument is the input from \<open>off\<close> on.\<close>

function tp_loop :: "bytes \<Rightarrow> quic_transport_params \<Rightarrow> quic_transport_params option" where
  "tp_loop inp tp =
     (if inp = [] then Some tp
      else case quic_varint_decode inp of
        None \<Rightarrow> None
      | Some (ident, n) \<Rightarrow>
          (case quic_varint_decode (drop n inp) of
             None \<Rightarrow> None
           | Some (len, m) \<Rightarrow>
               let inp' = drop (n + m) inp in
               if unat len > length inp' then None
               else case tp_apply ident (take (unat len) inp') tp of
                 None \<Rightarrow> None
               | Some tp' \<Rightarrow> tp_loop (drop (unat len) inp') tp'))"
  by pat_completeness auto
termination
  by (relation "measure (\<lambda>(inp, tp). length inp)") (auto dest: varint.dec_within)

declare tp_loop.simps [simp del]

definition quic_tp_decode :: "bytes \<Rightarrow> quic_transport_params option" where
  "quic_tp_decode inp = tp_loop inp (quic_tp_init_defaults\<lparr>tp_present := 0\<rparr>)"

section \<open>One parameter\<close>

lemma tp_has_bit: "tp_has tp i \<longleftrightarrow> bit (tp_present tp) i"
  by (simp add: tp_has_def push_bit_of_1 and_exp_eq_0_iff_not_bit)

text \<open>The bytes of one parameter: id, length, value.\<close>

definition tlv :: "u64 \<Rightarrow> bytes \<Rightarrow> bytes \<Rightarrow> bool" where
  "tlv ident val bs \<longleftrightarrow>
     (\<exists>c a d b. quic_varint_encode c ident = Some a \<and> quic_varint_encode d (word_of_nat (length val)) = Some b
        \<and> length val < 2 ^ 64 \<and> bs = a @ b @ val)"

lemma tp_loop_Nil [simp]: "tp_loop [] tp = Some tp"
  by (simp add: tp_loop.simps)

lemma tp_loop_tlv:
  assumes "tlv ident val bs"
  shows "tp_loop (bs @ rest) tp = Option.bind (tp_apply ident val tp) (tp_loop rest)"
proof -
  obtain c a d b where a: "quic_varint_encode c ident = Some a"
    and b: "quic_varint_encode d (word_of_nat (length val)) = Some b"
    and len: "length val < 2 ^ 64" and bs: "bs = a @ b @ val"
    using assms by (auto simp: tlv_def)
  have u: "unat (word_of_nat (length val) :: u64) = length val" using len by (simp add: unat_of_nat)
  have "a \<noteq> []" using a by (rule varint.enc_nonempty)
  moreover have "quic_varint_decode (a @ b @ val @ rest) = Some (ident, length a)"
    using a by (rule quic_varint_roundtrip)
  moreover have "quic_varint_decode (b @ val @ rest) = Some (word_of_nat (length val), length b)"
    using b by (rule quic_varint_roundtrip)
  ultimately show ?thesis
    unfolding bs by (subst tp_loop.simps) (simp add: u split: option.split)
qed

lemma tp_put_varint_Some:
  "tp_put_varint cap out v = Some out' \<longleftrightarrow> (\<exists>a. quic_varint_encode (cap - length out) v = Some a \<and> out' = out @ a)"
  by (auto simp: tp_put_varint_def)

lemma put_tlv_bytes_tlv:
  assumes "put_tlv_bytes cap ident p len out = Some out'" "len \<le> length p" "len < 2 ^ 62"
  shows "\<exists>bs. out' = out @ bs \<and> tlv ident (take len p) bs"
proof -
  obtain a b where "quic_varint_encode (cap - length out) ident = Some a"
    "quic_varint_encode (cap - length (out @ a)) (word_of_nat len) = Some b" "out' = out @ a @ b @ take len p"
    using assms(1) by (auto simp: put_tlv_bytes_def Option.bind_eq_Some_conv tp_put_varint_Some split: if_splits)
  then show ?thesis using assms(2,3) unfolding tlv_def by (intro exI [of _ "a @ b @ take len p"]) auto
qed

lemma put_tlv_empty_tlv:
  assumes "put_tlv_empty cap ident out = Some out'"
  shows "\<exists>bs. out' = out @ bs \<and> tlv ident [] bs"
proof -
  obtain a b where "quic_varint_encode (cap - length out) ident = Some a"
    "quic_varint_encode (cap - length (out @ a)) 0 = Some b" "out' = out @ a @ b"
    using assms by (auto simp: put_tlv_empty_def Option.bind_eq_Some_conv tp_put_varint_Some)
  then show ?thesis unfolding tlv_def by (intro exI [of _ "a @ b"]) auto
qed

lemma put_tlv_varint_tlv:
  assumes "put_tlv_varint cap ident v out = Some out'" "v \<le> QUIC_VARINT_MAX"
  shows "\<exists>bs w. out' = out @ bs \<and> tlv ident w bs \<and> decode_full_varint w = Some v"
proof -
  have v: "unat v < 2 ^ 62" using assms(2) by (simp add: QUIC_VARINT_MAX_def word_le_nat_alt)
  then have sz: "0 < quic_varint_size v" "quic_varint_size v \<le> 8" by (simp_all add: quic_varint_size_nat)
  obtain a b w where ab: "quic_varint_encode (cap - length out) ident = Some a"
    "quic_varint_encode (cap - length (out @ a)) (word_of_nat (quic_varint_size v)) = Some b"
    and w: "quic_varint_encode (cap - length (out @ a @ b)) v = Some w" "out' = out @ a @ b @ w"
    "length w = quic_varint_size v"
    using assms(1) sz
    by (auto simp: put_tlv_varint_def Option.bind_eq_Some_conv tp_put_varint_Some Let_def
        split: if_splits option.splits)
  have "decode_full_varint w = Some v"
    using varint.dec_enc [OF w(1)] by (simp add: decode_full_varint_def)
  moreover have "tlv ident w (a @ b @ w)"
    unfolding tlv_def using ab w(3) sz(2) by (intro exI [of _ a] exI [of _ b] exI) auto
  ultimately show ?thesis using w(2) by blast
qed

section \<open>The parameters read so far\<close>

text \<open>
  What the decoder holds after the first \<open>k\<close> parameters of an encoding: their values where
  present, the defaults elsewhere.
\<close>

definition cid_field :: "bytes \<Rightarrow> byte \<Rightarrow> bytes" where
  "cid_field p len = take (unat len) p @ replicate (20 - unat len) 0"

definition tp_upto :: "nat \<Rightarrow> quic_transport_params \<Rightarrow> quic_transport_params" where
  "tp_upto k tp =
     (let fld = (\<lambda>i. i < k \<and> tp_has tp i) in
      \<lparr>tp_present = take_bit k (tp_present tp),
       original_dcid = (if fld 0 then cid_field (original_dcid tp) (original_dcid_len tp) else replicate 20 0),
       original_dcid_len = (if fld 0 then original_dcid_len tp else 0),
       max_idle_timeout_ms = (if fld 1 then max_idle_timeout_ms tp else 0),
       stateless_reset_token = (if fld 2 then stateless_reset_token tp else replicate 16 0),
       max_udp_payload_size = (if fld 3 then max_udp_payload_size tp else 65527),
       initial_max_data = (if fld 4 then initial_max_data tp else 0),
       initial_max_stream_data_bidi_local = (if fld 5 then initial_max_stream_data_bidi_local tp else 0),
       initial_max_stream_data_bidi_remote = (if fld 6 then initial_max_stream_data_bidi_remote tp else 0),
       initial_max_stream_data_uni = (if fld 7 then initial_max_stream_data_uni tp else 0),
       initial_max_streams_bidi = (if fld 8 then initial_max_streams_bidi tp else 0),
       initial_max_streams_uni = (if fld 9 then initial_max_streams_uni tp else 0),
       ack_delay_exponent = (if fld 10 then ack_delay_exponent tp else 3),
       max_ack_delay_ms = (if fld 11 then max_ack_delay_ms tp else 25),
       active_connection_id_limit = (if fld 13 then active_connection_id_limit tp else 2),
       initial_source_cid = (if fld 14 then cid_field (initial_source_cid tp) (initial_source_cid_len tp) else replicate 20 0),
       initial_source_cid_len = (if fld 14 then initial_source_cid_len tp else 0),
       retry_source_cid = (if fld 15 then cid_field (retry_source_cid tp) (retry_source_cid_len tp) else replicate 20 0),
       retry_source_cid_len = (if fld 15 then retry_source_cid_len tp else 0)\<rparr>)"

definition reads_back :: "nat \<Rightarrow> quic_transport_params \<Rightarrow> bytes \<Rightarrow> bool" where
  "reads_back k tp out \<longleftrightarrow> (\<forall>rest. tp_loop (out @ rest) quic_tp_init_defaults = tp_loop rest (tp_upto k tp))"

lemma reads_back_0: "reads_back 0 tp []"
  by (simp add: reads_back_def tp_upto_def quic_tp_init_defaults_def)

lemma take_bit_set: "bit (p :: u32) k \<Longrightarrow> take_bit k p OR 2 ^ k = take_bit (Suc k) p"
  by (rule bit_word_eqI) (auto simp: bit_simps less_Suc_eq)

lemma take_bit_unset: "\<not> bit (p :: u32) k \<Longrightarrow> take_bit (Suc k) p = take_bit k p"
  by (rule bit_word_eqI) (auto simp: bit_simps less_Suc_eq)

lemma tp_upto_not_has: "\<not> tp_has (tp_upto k tp) k"
  by (simp add: tp_has_bit tp_upto_def bit_simps)

lemma tp_upto_skip: "\<not> tp_has tp k \<Longrightarrow> tp_upto (Suc k) tp = tp_upto k tp"
proof -
  assume n: "\<not> tp_has tp k"
  have eq: "(i < Suc k \<and> tp_has tp i) = (i < k \<and> tp_has tp i)" for i
    using n by (auto simp: less_Suc_eq)
  have "take_bit (Suc k) (tp_present tp) = take_bit k (tp_present tp)"
    using n by (simp add: take_bit_unset tp_has_bit)
  then show ?thesis by (simp only: tp_upto_def Let_def eq)
qed

text \<open>One more parameter: reading it back stores its value.\<close>

lemma reads_back_step:
  assumes "reads_back k tp out" "put_if (tp_has tp k) put out = Some out'"
    and "\<And>o'. tp_has tp k \<Longrightarrow> put out = Some o' \<Longrightarrow> \<exists>bs val. o' = out @ bs \<and> tlv ident val bs
      \<and> tp_store ident val (tp_upto k tp) = Some (t\<lparr>tp_present := tp_present (tp_upto k tp)\<rparr>)"
    and "tp_flag_for ident = Some k"
    and "tp_has tp k \<Longrightarrow> t\<lparr>tp_present := take_bit k' (tp_present tp)\<rparr> = tp_upto k' tp" "k' = Suc k"
  shows "reads_back k' tp out'"
proof (cases "tp_has tp k")
  case False
  then show ?thesis using assms(1,2) by (simp add: put_if_def tp_upto_skip reads_back_def assms(6))
next
  case True
  then obtain bs val where o': "out' = out @ bs" and tl: "tlv ident val bs"
    and st: "tp_store ident val (tp_upto k tp) = Some (t\<lparr>tp_present := tp_present (tp_upto k tp)\<rparr>)"
    using assms(2,3) by (auto simp: put_if_def)
  have "tp_apply ident val (tp_upto k tp) = Some (t\<lparr>tp_present := take_bit k (tp_present tp) OR push_bit k 1\<rparr>)"
    using st assms(4) tp_upto_not_has [of k tp] by (simp add: tp_apply_def) (simp add: tp_upto_def)
  moreover have "t\<lparr>tp_present := take_bit k (tp_present tp) OR push_bit k 1\<rparr> = tp_upto k' tp"
    using True assms(5,6) by (simp add: take_bit_set tp_has_bit)
  ultimately have "tp_apply ident val (tp_upto k tp) = Some (tp_upto k' tp)" by simp
  then show ?thesis using assms(1) tp_loop_tlv [OF tl] by (simp add: reads_back_def o')
qed

lemma tp_upto_fill:
  "tp_has tp 0 \<Longrightarrow> (tp_upto 0 tp)\<lparr>original_dcid := cid_field (original_dcid tp) (original_dcid_len tp), original_dcid_len := original_dcid_len tp, tp_present := take_bit 1 (tp_present tp)\<rparr> = tp_upto 1 tp"
  "tp_has tp 1 \<Longrightarrow> (tp_upto 1 tp)\<lparr>max_idle_timeout_ms := max_idle_timeout_ms tp, tp_present := take_bit 2 (tp_present tp)\<rparr> = tp_upto 2 tp"
  "tp_has tp 2 \<Longrightarrow> (tp_upto 2 tp)\<lparr>stateless_reset_token := stateless_reset_token tp, tp_present := take_bit 3 (tp_present tp)\<rparr> = tp_upto 3 tp"
  "tp_has tp 3 \<Longrightarrow> (tp_upto 3 tp)\<lparr>max_udp_payload_size := max_udp_payload_size tp, tp_present := take_bit 4 (tp_present tp)\<rparr> = tp_upto 4 tp"
  "tp_has tp 4 \<Longrightarrow> (tp_upto 4 tp)\<lparr>initial_max_data := initial_max_data tp, tp_present := take_bit 5 (tp_present tp)\<rparr> = tp_upto 5 tp"
  "tp_has tp 5 \<Longrightarrow> (tp_upto 5 tp)\<lparr>initial_max_stream_data_bidi_local := initial_max_stream_data_bidi_local tp, tp_present := take_bit 6 (tp_present tp)\<rparr> = tp_upto 6 tp"
  "tp_has tp 6 \<Longrightarrow> (tp_upto 6 tp)\<lparr>initial_max_stream_data_bidi_remote := initial_max_stream_data_bidi_remote tp, tp_present := take_bit 7 (tp_present tp)\<rparr> = tp_upto 7 tp"
  "tp_has tp 7 \<Longrightarrow> (tp_upto 7 tp)\<lparr>initial_max_stream_data_uni := initial_max_stream_data_uni tp, tp_present := take_bit 8 (tp_present tp)\<rparr> = tp_upto 8 tp"
  "tp_has tp 8 \<Longrightarrow> (tp_upto 8 tp)\<lparr>initial_max_streams_bidi := initial_max_streams_bidi tp, tp_present := take_bit 9 (tp_present tp)\<rparr> = tp_upto 9 tp"
  "tp_has tp 9 \<Longrightarrow> (tp_upto 9 tp)\<lparr>initial_max_streams_uni := initial_max_streams_uni tp, tp_present := take_bit 10 (tp_present tp)\<rparr> = tp_upto 10 tp"
  "tp_has tp 10 \<Longrightarrow> (tp_upto 10 tp)\<lparr>ack_delay_exponent := ack_delay_exponent tp, tp_present := take_bit 11 (tp_present tp)\<rparr> = tp_upto 11 tp"
  "tp_has tp 11 \<Longrightarrow> (tp_upto 11 tp)\<lparr>max_ack_delay_ms := max_ack_delay_ms tp, tp_present := take_bit 12 (tp_present tp)\<rparr> = tp_upto 12 tp"
  "tp_has tp 12 \<Longrightarrow> (tp_upto 12 tp)\<lparr>tp_present := take_bit 13 (tp_present tp)\<rparr> = tp_upto 13 tp"
  "tp_has tp 13 \<Longrightarrow> (tp_upto 13 tp)\<lparr>active_connection_id_limit := active_connection_id_limit tp, tp_present := take_bit 14 (tp_present tp)\<rparr> = tp_upto 14 tp"
  "tp_has tp 14 \<Longrightarrow> (tp_upto 14 tp)\<lparr>initial_source_cid := cid_field (initial_source_cid tp) (initial_source_cid_len tp), initial_source_cid_len := initial_source_cid_len tp, tp_present := take_bit 15 (tp_present tp)\<rparr> = tp_upto 15 tp"
  "tp_has tp 15 \<Longrightarrow> (tp_upto 15 tp)\<lparr>retry_source_cid := cid_field (retry_source_cid tp) (retry_source_cid_len tp), retry_source_cid_len := retry_source_cid_len tp, tp_present := take_bit 16 (tp_present tp)\<rparr> = tp_upto 16 tp"
  by (simp_all add: tp_upto_def)

lemma reads_back_varint:
  assumes "reads_back k tp out" "put_if (tp_has tp k) (put_tlv_varint cap ident v) out = Some out'"
    and "tp_has tp k \<Longrightarrow> v \<le> QUIC_VARINT_MAX"
    and "\<And>val. tp_has tp k \<Longrightarrow> decode_full_varint val = Some v \<Longrightarrow>
      tp_store ident val (tp_upto k tp) = Some (t\<lparr>tp_present := tp_present (tp_upto k tp)\<rparr>)"
    and "tp_flag_for ident = Some k"
    and "tp_has tp k \<Longrightarrow> t\<lparr>tp_present := take_bit k' (tp_present tp)\<rparr> = tp_upto k' tp" "k' = Suc k"
  shows "reads_back k' tp out'"
  by (rule reads_back_step [OF assms(1,2) _ assms(5-7)]) (use assms(3,4) put_tlv_varint_tlv in blast)

lemma reads_back_cid:
  assumes "reads_back k tp out" "put_if (tp_has tp k) (put_tlv_bytes cap ident p (unat (len :: byte))) out = Some out'"
    and "tp_has tp k \<Longrightarrow> unat len \<le> 20 \<and> length p = 20"
    and "tp_has tp k \<Longrightarrow> unat len \<le> 20 \<Longrightarrow> length p = 20 \<Longrightarrow>
      tp_store ident (take (unat len) p) (tp_upto k tp) = Some (t\<lparr>tp_present := tp_present (tp_upto k tp)\<rparr>)"
    and "tp_flag_for ident = Some k"
    and "tp_has tp k \<Longrightarrow> t\<lparr>tp_present := take_bit k' (tp_present tp)\<rparr> = tp_upto k' tp" "k' = Suc k"
  shows "reads_back k' tp out'"
proof (rule reads_back_step [OF assms(1,2) _ assms(5-7)])
  fix o' assume has: "tp_has tp k" and put: "put_tlv_bytes cap ident p (unat len) out = Some o'"
  show "\<exists>bs val. o' = out @ bs \<and> tlv ident val bs
      \<and> tp_store ident val (tp_upto k tp) = Some (t\<lparr>tp_present := tp_present (tp_upto k tp)\<rparr>)"
    using put_tlv_bytes_tlv [OF put] assms(3,4) [OF has] by auto
qed

lemma reads_back_token:
  assumes "reads_back k tp out" "put_if (tp_has tp k) (put_tlv_bytes cap ident p 16) out = Some out'"
    and "length p = 16" "tp_flag_for ident = Some k"
    and "tp_store ident p (tp_upto k tp) = Some ((tp_upto k tp)\<lparr>stateless_reset_token := p\<rparr>)"
    and "tp_has tp k \<Longrightarrow>
      (tp_upto k tp)\<lparr>stateless_reset_token := p, tp_present := take_bit k' (tp_present tp)\<rparr> = tp_upto k' tp"
    and "k' = Suc k"
  shows "reads_back k' tp out'"
proof (rule reads_back_step [OF assms(1,2) _ assms(4) _ assms(7),
      where t = "(tp_upto k tp)\<lparr>stateless_reset_token := p\<rparr>"])
  fix o' assume put: "put_tlv_bytes cap ident p 16 out = Some o'"
  show "\<exists>bs val. o' = out @ bs \<and> tlv ident val bs \<and> tp_store ident val (tp_upto k tp)
      = Some ((tp_upto k tp)\<lparr>stateless_reset_token := p, tp_present := tp_present (tp_upto k tp)\<rparr>)"
    using put_tlv_bytes_tlv [OF put] assms(3,5) by auto
qed (rule assms(6))

text \<open>The arrays have their declared sizes, and the integers to be written fit a varint.\<close>

definition tp_sizes :: "quic_transport_params \<Rightarrow> bool" where
  "tp_sizes tp \<longleftrightarrow> length (original_dcid tp) = 20 \<and> length (stateless_reset_token tp) = 16
     \<and> length (initial_source_cid tp) = 20 \<and> length (retry_source_cid tp) = 20"

definition tp_fits :: "quic_transport_params \<Rightarrow> bool" where
  "tp_fits tp \<longleftrightarrow>
     (tp_has tp 1 \<longrightarrow> max_idle_timeout_ms tp \<le> QUIC_VARINT_MAX)
     \<and> (tp_has tp 3 \<longrightarrow> max_udp_payload_size tp \<le> QUIC_VARINT_MAX)
     \<and> (tp_has tp 4 \<longrightarrow> initial_max_data tp \<le> QUIC_VARINT_MAX)
     \<and> (tp_has tp 5 \<longrightarrow> initial_max_stream_data_bidi_local tp \<le> QUIC_VARINT_MAX)
     \<and> (tp_has tp 6 \<longrightarrow> initial_max_stream_data_bidi_remote tp \<le> QUIC_VARINT_MAX)
     \<and> (tp_has tp 7 \<longrightarrow> initial_max_stream_data_uni tp \<le> QUIC_VARINT_MAX)
     \<and> (tp_has tp 8 \<longrightarrow> initial_max_streams_bidi tp \<le> QUIC_VARINT_MAX)
     \<and> (tp_has tp 9 \<longrightarrow> initial_max_streams_uni tp \<le> QUIC_VARINT_MAX)
     \<and> (tp_has tp 10 \<longrightarrow> ack_delay_exponent tp \<le> QUIC_VARINT_MAX)
     \<and> (tp_has tp 11 \<longrightarrow> max_ack_delay_ms tp \<le> QUIC_VARINT_MAX)
     \<and> (tp_has tp 13 \<longrightarrow> active_connection_id_limit tp \<le> QUIC_VARINT_MAX)"

definition tp_wf :: "quic_transport_params \<Rightarrow> bool" where
  "tp_wf tp \<longleftrightarrow> tp_sizes tp \<and> tp_fits tp"


lemma tp_store_varint:
  assumes "decode_full_varint val = Some v"
  shows
  "tp_store 0x01 val x = Some (x\<lparr>max_idle_timeout_ms := v\<rparr>)"
  "\<not> v < 1200 \<Longrightarrow> tp_store 0x03 val x = Some (x\<lparr>max_udp_payload_size := v\<rparr>)"
  "tp_store 0x04 val x = Some (x\<lparr>initial_max_data := v\<rparr>)"
  "tp_store 0x05 val x = Some (x\<lparr>initial_max_stream_data_bidi_local := v\<rparr>)"
  "tp_store 0x06 val x = Some (x\<lparr>initial_max_stream_data_bidi_remote := v\<rparr>)"
  "tp_store 0x07 val x = Some (x\<lparr>initial_max_stream_data_uni := v\<rparr>)"
  "\<not> v > push_bit 60 1 \<Longrightarrow> tp_store 0x08 val x = Some (x\<lparr>initial_max_streams_bidi := v\<rparr>)"
  "\<not> v > push_bit 60 1 \<Longrightarrow> tp_store 0x09 val x = Some (x\<lparr>initial_max_streams_uni := v\<rparr>)"
  "\<not> v > 20 \<Longrightarrow> tp_store 0x0a val x = Some (x\<lparr>ack_delay_exponent := v\<rparr>)"
  "\<not> v \<ge> push_bit 14 1 \<Longrightarrow> tp_store 0x0b val x = Some (x\<lparr>max_ack_delay_ms := v\<rparr>)"
  "\<not> v < 2 \<Longrightarrow> tp_store 0x0e val x = Some (x\<lparr>active_connection_id_limit := v\<rparr>)"
  using assms by (simp_all add: tp_store_def tp_varint_def)

lemma tp_store_cid:
  assumes "unat len \<le> 20" "length p = 20"
  shows
  "original_dcid x = replicate 20 0 \<Longrightarrow>
     tp_store 0x00 (take (unat len) p) x = Some (x\<lparr>original_dcid := cid_field p len, original_dcid_len := len\<rparr>)"
  "initial_source_cid x = replicate 20 0 \<Longrightarrow>
     tp_store 0x0f (take (unat len) p) x = Some (x\<lparr>initial_source_cid := cid_field p len, initial_source_cid_len := len\<rparr>)"
  "retry_source_cid x = replicate 20 0 \<Longrightarrow>
     tp_store 0x10 (take (unat len) p) x = Some (x\<lparr>retry_source_cid := cid_field p len, retry_source_cid_len := len\<rparr>)"
  using assms by (simp_all add: tp_store_def cid_field_def min_def)

lemma tp_flags:
  "tp_flag_for 0x00 = Some 0"
  "tp_flag_for 0x01 = Some 1"
  "tp_flag_for 0x02 = Some 2"
  "tp_flag_for 0x03 = Some 3"
  "tp_flag_for 0x04 = Some 4"
  "tp_flag_for 0x05 = Some 5"
  "tp_flag_for 0x06 = Some 6"
  "tp_flag_for 0x07 = Some 7"
  "tp_flag_for 0x08 = Some 8"
  "tp_flag_for 0x09 = Some 9"
  "tp_flag_for 0x0a = Some 10"
  "tp_flag_for 0x0b = Some 11"
  "tp_flag_for 0x0c = Some 12"
  "tp_flag_for 0x0e = Some 13"
  "tp_flag_for 0x0f = Some 14"
  "tp_flag_for 0x10 = Some 15"
  by (simp_all add: tp_flag_for_def)

lemma tp_upto_cids:
  "original_dcid (tp_upto 0 tp) = replicate 20 0"
  "initial_source_cid (tp_upto 14 tp) = replicate 20 0"
  "retry_source_cid (tp_upto 15 tp) = replicate 20 0"
  by (simp_all add: tp_upto_def)

lemma record_present_same: "x\<lparr>tp_present := tp_present x\<rparr> = (x :: quic_transport_params)"
  by simp

lemma tp_first_half_reads_back:
  assumes "put_if (tp_has tp 0) (put_tlv_bytes cap 0x00 (original_dcid tp) (unat (original_dcid_len tp))) [] = Some o1"
    and "put_if (tp_has tp 1) (put_tlv_varint cap 0x01 (max_idle_timeout_ms tp)) o1 = Some o2"
    and "put_if (tp_has tp 2) (put_tlv_bytes cap 0x02 (stateless_reset_token tp) 16) o2 = Some o3"
    and "put_if (tp_has tp 3) (put_tlv_varint cap 0x03 (max_udp_payload_size tp)) o3 = Some o4"
    and "put_if (tp_has tp 4) (put_tlv_varint cap 0x04 (initial_max_data tp)) o4 = Some o5"
    and "put_if (tp_has tp 5) (put_tlv_varint cap 0x05 (initial_max_stream_data_bidi_local tp)) o5 = Some o6"
    and "put_if (tp_has tp 6) (put_tlv_varint cap 0x06 (initial_max_stream_data_bidi_remote tp)) o6 = Some o7"
    and "put_if (tp_has tp 7) (put_tlv_varint cap 0x07 (initial_max_stream_data_uni tp)) o7 = Some o8"
    and valid: "tp_valid tp" and wf: "tp_wf tp"
  shows "reads_back 8 tp o8"
proof -
  note facts = wf [unfolded tp_wf_def tp_sizes_def tp_fits_def] valid [unfolded tp_valid_def]
  have r0: "reads_back 0 tp []" by (rule reads_back_0)
  have r1: "reads_back 1 tp o1"
    by (rule reads_back_cid [OF r0 assms(1), where t = "(tp_upto 0 tp)\<lparr>original_dcid := cid_field (original_dcid tp) (original_dcid_len tp), original_dcid_len := original_dcid_len tp\<rparr>"])
      (use facts in \<open>simp_all add: tp_store_cid tp_flags tp_upto_fill tp_upto_fill(1) [simplified] tp_upto_cids word_less_nat_alt\<close>)
  have r2: "reads_back 2 tp o2"
    by (rule reads_back_varint [OF r1 assms(2), where t = "(tp_upto 1 tp)\<lparr>max_idle_timeout_ms := max_idle_timeout_ms tp\<rparr>"])
      (use facts in \<open>simp_all add: tp_store_varint tp_flags tp_upto_fill tp_upto_fill(2) [simplified]\<close>)
  have r3: "reads_back 3 tp o3"
    by (rule reads_back_token [OF r2 assms(3) _ tp_flags(3)]) (use facts in \<open>simp_all add: tp_upto_fill tp_store_def\<close>)
  have r4: "reads_back 4 tp o4"
    by (rule reads_back_varint [OF r3 assms(4), where t = "(tp_upto 3 tp)\<lparr>max_udp_payload_size := max_udp_payload_size tp\<rparr>"])
      (use facts in \<open>simp_all add: tp_store_varint tp_flags tp_upto_fill\<close>)
  have r5: "reads_back 5 tp o5"
    by (rule reads_back_varint [OF r4 assms(5), where t = "(tp_upto 4 tp)\<lparr>initial_max_data := initial_max_data tp\<rparr>"])
      (use facts in \<open>simp_all add: tp_store_varint tp_flags tp_upto_fill\<close>)
  have r6: "reads_back 6 tp o6"
    by (rule reads_back_varint [OF r5 assms(6), where t = "(tp_upto 5 tp)\<lparr>initial_max_stream_data_bidi_local := initial_max_stream_data_bidi_local tp\<rparr>"])
      (use facts in \<open>simp_all add: tp_store_varint tp_flags tp_upto_fill\<close>)
  have r7: "reads_back 7 tp o7"
    by (rule reads_back_varint [OF r6 assms(7), where t = "(tp_upto 6 tp)\<lparr>initial_max_stream_data_bidi_remote := initial_max_stream_data_bidi_remote tp\<rparr>"])
      (use facts in \<open>simp_all add: tp_store_varint tp_flags tp_upto_fill\<close>)
  have r8: "reads_back 8 tp o8"
    by (rule reads_back_varint [OF r7 assms(8), where t = "(tp_upto 7 tp)\<lparr>initial_max_stream_data_uni := initial_max_stream_data_uni tp\<rparr>"])
      (use facts in \<open>simp_all add: tp_store_varint tp_flags tp_upto_fill\<close>)
  show ?thesis by (rule r8)
qed

lemma tp_second_half_reads_back:
  assumes "put_if (tp_has tp 8) (put_tlv_varint cap 0x08 (initial_max_streams_bidi tp)) o8 = Some o9"
    and "put_if (tp_has tp 9) (put_tlv_varint cap 0x09 (initial_max_streams_uni tp)) o9 = Some o10"
    and "put_if (tp_has tp 10) (put_tlv_varint cap 0x0a (ack_delay_exponent tp)) o10 = Some o11"
    and "put_if (tp_has tp 11) (put_tlv_varint cap 0x0b (max_ack_delay_ms tp)) o11 = Some o12"
    and "put_if (tp_has tp 12) (put_tlv_empty cap 0x0c) o12 = Some o13"
    and "put_if (tp_has tp 13) (put_tlv_varint cap 0x0e (active_connection_id_limit tp)) o13 = Some o14"
    and "put_if (tp_has tp 14) (put_tlv_bytes cap 0x0f (initial_source_cid tp) (unat (initial_source_cid_len tp))) o14 = Some o15"
    and "put_if (tp_has tp 15) (put_tlv_bytes cap 0x10 (retry_source_cid tp) (unat (retry_source_cid_len tp))) o15 = Some out"
    and valid: "tp_valid tp" and wf: "tp_wf tp"
    and r8: "reads_back 8 tp o8"
  shows "reads_back 16 tp out"
proof -
  note facts = wf [unfolded tp_wf_def tp_sizes_def tp_fits_def] valid [unfolded tp_valid_def]
  have r9: "reads_back 9 tp o9"
    by (rule reads_back_varint [OF r8 assms(1), where t = "(tp_upto 8 tp)\<lparr>initial_max_streams_bidi := initial_max_streams_bidi tp\<rparr>"])
      (use facts in \<open>simp_all add: tp_store_varint tp_flags tp_upto_fill\<close>)
  have r10: "reads_back 10 tp o10"
    by (rule reads_back_varint [OF r9 assms(2), where t = "(tp_upto 9 tp)\<lparr>initial_max_streams_uni := initial_max_streams_uni tp\<rparr>"])
      (use facts in \<open>simp_all add: tp_store_varint tp_flags tp_upto_fill\<close>)
  have r11: "reads_back 11 tp o11"
    by (rule reads_back_varint [OF r10 assms(3), where t = "(tp_upto 10 tp)\<lparr>ack_delay_exponent := ack_delay_exponent tp\<rparr>"])
      (use facts in \<open>simp_all add: tp_store_varint tp_flags tp_upto_fill\<close>)
  have r12: "reads_back 12 tp o12"
    by (rule reads_back_varint [OF r11 assms(4), where t = "(tp_upto 11 tp)\<lparr>max_ack_delay_ms := max_ack_delay_ms tp\<rparr>"])
      (use facts in \<open>simp_all add: tp_store_varint tp_flags tp_upto_fill\<close>)
  have r13: "reads_back 13 tp o13"
    by (rule reads_back_step [OF r12 assms(5), where t = "tp_upto 12 tp" and ident = 12])
      (use facts in \<open>auto dest!: put_tlv_empty_tlv simp: tp_flags tp_upto_fill tp_store_def\<close>)
  have r14: "reads_back 14 tp o14"
    by (rule reads_back_varint [OF r13 assms(6), where t = "(tp_upto 13 tp)\<lparr>active_connection_id_limit := active_connection_id_limit tp\<rparr>"])
      (use facts in \<open>simp_all add: tp_store_varint tp_flags tp_upto_fill\<close>)
  have r15: "reads_back 15 tp o15"
    by (rule reads_back_cid [OF r14 assms(7), where t = "(tp_upto 14 tp)\<lparr>initial_source_cid := cid_field (initial_source_cid tp) (initial_source_cid_len tp), initial_source_cid_len := initial_source_cid_len tp\<rparr>"])
      (use facts in \<open>simp_all add: tp_store_cid tp_flags tp_upto_fill tp_upto_cids word_less_nat_alt\<close>)
  have r16: "reads_back 16 tp out"
    by (rule reads_back_cid [OF r15 assms(8), where t = "(tp_upto 15 tp)\<lparr>retry_source_cid := cid_field (retry_source_cid tp) (retry_source_cid_len tp), retry_source_cid_len := retry_source_cid_len tp\<rparr>"])
      (use facts in \<open>simp_all add: tp_store_cid tp_flags tp_upto_fill tp_upto_cids word_less_nat_alt\<close>)
  show ?thesis by (rule r16)
qed

lemma tp_encode_reads_back:
  assumes enc: "quic_tp_encode tp cap = Some out" and wf: "tp_wf tp"
  shows "reads_back 16 tp out"
proof -
  have valid: "tp_valid tp" using enc by (simp add: quic_tp_encode_def split: if_splits)
  obtain o1 o2 o3 o4 o5 o6 o7 o8 o9 o10 o11 o12 o13 o14 o15 where puts:
    "put_if (tp_has tp 0) (put_tlv_bytes cap 0x00 (original_dcid tp) (unat (original_dcid_len tp))) [] = Some o1"
    "put_if (tp_has tp 1) (put_tlv_varint cap 0x01 (max_idle_timeout_ms tp)) o1 = Some o2"
    "put_if (tp_has tp 2) (put_tlv_bytes cap 0x02 (stateless_reset_token tp) 16) o2 = Some o3"
    "put_if (tp_has tp 3) (put_tlv_varint cap 0x03 (max_udp_payload_size tp)) o3 = Some o4"
    "put_if (tp_has tp 4) (put_tlv_varint cap 0x04 (initial_max_data tp)) o4 = Some o5"
    "put_if (tp_has tp 5) (put_tlv_varint cap 0x05 (initial_max_stream_data_bidi_local tp)) o5 = Some o6"
    "put_if (tp_has tp 6) (put_tlv_varint cap 0x06 (initial_max_stream_data_bidi_remote tp)) o6 = Some o7"
    "put_if (tp_has tp 7) (put_tlv_varint cap 0x07 (initial_max_stream_data_uni tp)) o7 = Some o8"
    "put_if (tp_has tp 8) (put_tlv_varint cap 0x08 (initial_max_streams_bidi tp)) o8 = Some o9"
    "put_if (tp_has tp 9) (put_tlv_varint cap 0x09 (initial_max_streams_uni tp)) o9 = Some o10"
    "put_if (tp_has tp 10) (put_tlv_varint cap 0x0a (ack_delay_exponent tp)) o10 = Some o11"
    "put_if (tp_has tp 11) (put_tlv_varint cap 0x0b (max_ack_delay_ms tp)) o11 = Some o12"
    "put_if (tp_has tp 12) (put_tlv_empty cap 0x0c) o12 = Some o13"
    "put_if (tp_has tp 13) (put_tlv_varint cap 0x0e (active_connection_id_limit tp)) o13 = Some o14"
    "put_if (tp_has tp 14) (put_tlv_bytes cap 0x0f (initial_source_cid tp) (unat (initial_source_cid_len tp))) o14 = Some o15"
    "put_if (tp_has tp 15) (put_tlv_bytes cap 0x10 (retry_source_cid tp) (unat (retry_source_cid_len tp))) o15 = Some out"
    using enc valid by (auto simp: quic_tp_encode_def Option.bind_eq_Some_conv)
  have "reads_back 8 tp o8" by (rule tp_first_half_reads_back [OF puts(1-8) valid wf])
  then show ?thesis by (rule tp_second_half_reads_back [OF puts(9-16) valid wf])
qed

section \<open>What the decoder accepts\<close>

lemma decode_full_varint_iff:
  "decode_full_varint val = Some v \<longleftrightarrow>
     (val = [] \<and> v = 0) \<or> quic_varint_decode val = Some (v, length val)"
proof (cases "quic_varint_decode val")
  case None
  then show ?thesis by (auto simp: decode_full_varint_def)
next
  case (Some r)
  then have "val \<noteq> []" using varint.dec_nil by auto
  then show ?thesis using Some by (cases r) (auto simp: decode_full_varint_def)
qed

lemma tp_valid_defaults: "tp_valid quic_tp_init_defaults"
  by (simp add: tp_valid_def quic_tp_init_defaults_def tp_has_def)

lemma tp_has_add:
  "tp_has (x\<lparr>tp_present := p OR 2 ^ i\<rparr>) j \<longleftrightarrow> (j = i \<and> i < 32) \<or> bit p j"
  by (auto simp: tp_has_bit bit_simps)

lemma tp_store_present: "tp_store ident val tp = Some tp' \<Longrightarrow> tp_present tp' = tp_present tp"
  by (auto simp: tp_store_def tp_varint_def Option.bind_eq_Some_conv split: if_splits)

lemma tp_flag_for_cases:
  "tp_flag_for ident = Some i \<Longrightarrow>
   (ident, i) \<in> {(0, 0), (1, 1), (2, 2), (3, 3), (4, 4), (5, 5), (6, 6), (7, 7), (8, 8), (9, 9),
     (10, 10), (11, 11), (12, 12), (14, 13), (15, 14), (16, 15)}"
proof -
  assume a: "tp_flag_for ident = Some i"
  show ?thesis
  proof (cases "ident \<le> 0x0c")
    case True
    then have i: "unat ident < 13" "i = unat ident" using a by (auto simp: tp_flag_for_def word_le_nat_alt)
    have w: "ident = word_of_nat i" unfolding i(2) by simp
    have "i \<in> set [0..<13]" using i by simp
    then have "i \<in> {0, 1, 2, 3, 4, 5, 6, 7, 8, 9, 10, 11, 12}" by (simp add: upt_rec eval_nat_numeral)
    then show ?thesis unfolding w by (elim insertE emptyE) simp_all
  next
    case False
    then show ?thesis using a by (auto simp: tp_flag_for_def split: if_splits)
  qed
qed

lemma tp_store_SomeD:
  "tp_store 0 val tp = Some t \<Longrightarrow> length val \<le> 20
     \<and> t = tp\<lparr>original_dcid := val @ drop (length val) (original_dcid tp), original_dcid_len := word_of_nat (length val)\<rparr>"
  "tp_store 1 val tp = Some t \<Longrightarrow> \<exists>v. \<not> False \<and> t = tp\<lparr>max_idle_timeout_ms := v\<rparr>"
  "tp_store 2 val tp = Some t \<Longrightarrow> t = tp\<lparr>stateless_reset_token := val\<rparr>"
  "tp_store 3 val tp = Some t \<Longrightarrow> \<exists>v. \<not> (v < 1200) \<and> t = tp\<lparr>max_udp_payload_size := v\<rparr>"
  "tp_store 4 val tp = Some t \<Longrightarrow> \<exists>v. \<not> False \<and> t = tp\<lparr>initial_max_data := v\<rparr>"
  "tp_store 5 val tp = Some t \<Longrightarrow> \<exists>v. \<not> False \<and> t = tp\<lparr>initial_max_stream_data_bidi_local := v\<rparr>"
  "tp_store 6 val tp = Some t \<Longrightarrow> \<exists>v. \<not> False \<and> t = tp\<lparr>initial_max_stream_data_bidi_remote := v\<rparr>"
  "tp_store 7 val tp = Some t \<Longrightarrow> \<exists>v. \<not> False \<and> t = tp\<lparr>initial_max_stream_data_uni := v\<rparr>"
  "tp_store 8 val tp = Some t \<Longrightarrow> \<exists>v. \<not> (v > push_bit 60 1) \<and> t = tp\<lparr>initial_max_streams_bidi := v\<rparr>"
  "tp_store 9 val tp = Some t \<Longrightarrow> \<exists>v. \<not> (v > push_bit 60 1) \<and> t = tp\<lparr>initial_max_streams_uni := v\<rparr>"
  "tp_store 10 val tp = Some t \<Longrightarrow> \<exists>v. \<not> (v > 20) \<and> t = tp\<lparr>ack_delay_exponent := v\<rparr>"
  "tp_store 11 val tp = Some t \<Longrightarrow> \<exists>v. \<not> (v \<ge> push_bit 14 1) \<and> t = tp\<lparr>max_ack_delay_ms := v\<rparr>"
  "tp_store 12 val tp = Some t \<Longrightarrow> t = tp"
  "tp_store 14 val tp = Some t \<Longrightarrow> \<exists>v. \<not> (v < 2) \<and> t = tp\<lparr>active_connection_id_limit := v\<rparr>"
  "tp_store 15 val tp = Some t \<Longrightarrow> length val \<le> 20
     \<and> t = tp\<lparr>initial_source_cid := val @ drop (length val) (initial_source_cid tp), initial_source_cid_len := word_of_nat (length val)\<rparr>"
  "tp_store 16 val tp = Some t \<Longrightarrow> length val \<le> 20
     \<and> t = tp\<lparr>retry_source_cid := val @ drop (length val) (retry_source_cid tp), retry_source_cid_len := word_of_nat (length val)\<rparr>"
  by (auto simp: tp_store_def tp_varint_def Option.bind_eq_Some_conv split: if_splits)

lemma tp_add_valid:
  assumes "tp_valid tp"
  shows
  "tp_store 0 val tp = Some t \<Longrightarrow> i = 0 \<Longrightarrow> tp_valid (t\<lparr>tp_present := tp_present t OR 2 ^ i\<rparr>)"
  "tp_store 1 val tp = Some t \<Longrightarrow> i = 1 \<Longrightarrow> tp_valid (t\<lparr>tp_present := tp_present t OR 2 ^ i\<rparr>)"
  "tp_store 2 val tp = Some t \<Longrightarrow> i = 2 \<Longrightarrow> tp_valid (t\<lparr>tp_present := tp_present t OR 2 ^ i\<rparr>)"
  "tp_store 3 val tp = Some t \<Longrightarrow> i = 3 \<Longrightarrow> tp_valid (t\<lparr>tp_present := tp_present t OR 2 ^ i\<rparr>)"
  "tp_store 4 val tp = Some t \<Longrightarrow> i = 4 \<Longrightarrow> tp_valid (t\<lparr>tp_present := tp_present t OR 2 ^ i\<rparr>)"
  "tp_store 5 val tp = Some t \<Longrightarrow> i = 5 \<Longrightarrow> tp_valid (t\<lparr>tp_present := tp_present t OR 2 ^ i\<rparr>)"
  "tp_store 6 val tp = Some t \<Longrightarrow> i = 6 \<Longrightarrow> tp_valid (t\<lparr>tp_present := tp_present t OR 2 ^ i\<rparr>)"
  "tp_store 7 val tp = Some t \<Longrightarrow> i = 7 \<Longrightarrow> tp_valid (t\<lparr>tp_present := tp_present t OR 2 ^ i\<rparr>)"
  "tp_store 8 val tp = Some t \<Longrightarrow> i = 8 \<Longrightarrow> tp_valid (t\<lparr>tp_present := tp_present t OR 2 ^ i\<rparr>)"
  "tp_store 9 val tp = Some t \<Longrightarrow> i = 9 \<Longrightarrow> tp_valid (t\<lparr>tp_present := tp_present t OR 2 ^ i\<rparr>)"
  "tp_store 10 val tp = Some t \<Longrightarrow> i = 10 \<Longrightarrow> tp_valid (t\<lparr>tp_present := tp_present t OR 2 ^ i\<rparr>)"
  "tp_store 11 val tp = Some t \<Longrightarrow> i = 11 \<Longrightarrow> tp_valid (t\<lparr>tp_present := tp_present t OR 2 ^ i\<rparr>)"
  "tp_store 12 val tp = Some t \<Longrightarrow> i = 12 \<Longrightarrow> tp_valid (t\<lparr>tp_present := tp_present t OR 2 ^ i\<rparr>)"
  "tp_store 14 val tp = Some t \<Longrightarrow> i = 13 \<Longrightarrow> tp_valid (t\<lparr>tp_present := tp_present t OR 2 ^ i\<rparr>)"
  "tp_store 15 val tp = Some t \<Longrightarrow> i = 14 \<Longrightarrow> tp_valid (t\<lparr>tp_present := tp_present t OR 2 ^ i\<rparr>)"
  "tp_store 16 val tp = Some t \<Longrightarrow> i = 15 \<Longrightarrow> tp_valid (t\<lparr>tp_present := tp_present t OR 2 ^ i\<rparr>)"
  by (insert assms, unfold tp_valid_def tp_has_add,
      (drule tp_store_SomeD, clarsimp simp: tp_has_bit word_less_nat_alt unat_of_nat)+)

lemma tp_apply_valid:
  assumes "tp_apply ident val tp = Some tp'" "tp_valid tp"
  shows "tp_valid tp'"
proof (cases "tp_flag_for ident")
  case None
  then show ?thesis using assms by (simp add: tp_apply_def)
next
  case (Some i)
  then obtain t where st: "tp_store ident val tp = Some t" and tp': "tp' = t\<lparr>tp_present := tp_present t OR 2 ^ i\<rparr>"
    using assms(1) by (auto simp: tp_apply_def Option.bind_eq_Some_conv split: if_splits)
  show ?thesis
    unfolding tp' using tp_flag_for_cases [OF Some] st tp_add_valid [OF assms(2), of val t i] by auto
qed

text \<open>What every step keeps holds of the result.\<close>

lemma tp_loop_keeps:
  assumes "\<And>ident val t t'. tp_apply ident val t = Some t' \<Longrightarrow> P t \<Longrightarrow> P t'"
  shows "tp_loop inp tp = Some tp' \<Longrightarrow> P tp \<Longrightarrow> P tp'"
proof (induction inp tp rule: tp_loop.induct)
  case (1 inp tp)
  show ?case
  proof (cases "inp = []")
    case True
    then show ?thesis using 1(2,3) by simp
  next
    case False
    have "tp_loop inp tp = Some tp'" by (rule 1(2))
    then obtain ident n len m t where d: "quic_varint_decode inp = Some (ident, n)"
      "quic_varint_decode (drop n inp) = Some (len, m)" "\<not> unat len > length (drop (n + m) inp)"
      "tp_apply ident (take (unat len) (drop (n + m) inp)) tp = Some t"
      "tp_loop (drop (unat len) (drop (n + m) inp)) t = Some tp'"
      using False by (subst (asm) tp_loop.simps) (auto simp: Let_def split: option.splits if_splits)
    have "P t" using assms [OF d(4) 1(3)] .
    with 1(1) [OF False d(1) refl d(2) refl refl d(3,4,5)] show ?thesis .
  qed
qed

text \<open>The integers of the parameters; those that the decoder stores are varints.\<close>

definition tp_values :: "quic_transport_params \<Rightarrow> u64 list" where
  "tp_values tp =
     [max_idle_timeout_ms tp, max_udp_payload_size tp, initial_max_data tp, initial_max_stream_data_bidi_local tp,
      initial_max_stream_data_bidi_remote tp, initial_max_stream_data_uni tp, initial_max_streams_bidi tp,
      initial_max_streams_uni tp, ack_delay_exponent tp, max_ack_delay_ms tp, active_connection_id_limit tp]"

definition tp_varints :: "quic_transport_params \<Rightarrow> bool" where
  "tp_varints tp \<longleftrightarrow> list_all (\<lambda>v. v \<le> QUIC_VARINT_MAX) (tp_values tp)"

lemma decode_full_varint_le: "decode_full_varint val = Some v \<Longrightarrow> v \<le> QUIC_VARINT_MAX"
  unfolding decode_full_varint_iff
  by (auto simp: QUIC_VARINT_MAX_def word_le_nat_alt dest!: quic_varint_decode_lt)

lemma tp_store_varints: "tp_store ident val tp = Some t \<Longrightarrow> tp_varints tp \<Longrightarrow> tp_varints t"
  by (auto simp: tp_store_def tp_varint_def tp_varints_def tp_values_def Option.bind_eq_Some_conv
      split: if_splits dest!: decode_full_varint_le)

lemma tp_apply_varints: "tp_apply ident val tp = Some t \<Longrightarrow> tp_varints tp \<Longrightarrow> tp_varints t"
  using tp_store_varints [of ident val tp]
  by (auto simp: tp_apply_def tp_varints_def tp_values_def Option.bind_eq_Some_conv split: option.splits if_splits)

lemma tp_decode_varints: "quic_tp_decode inp = Some tp \<Longrightarrow> tp_varints tp"
proof -
  assume "quic_tp_decode inp = Some tp"
  moreover have "tp_varints (quic_tp_init_defaults\<lparr>tp_present := 0\<rparr>)" by code_simp
  ultimately show ?thesis using tp_loop_keeps [where P = tp_varints, OF tp_apply_varints] by (simp add: quic_tp_decode_def)
qed

section \<open>Properties\<close>

text \<open>
  C27: Decoding an encoding gives back the parameters, that is the same set of parameters, each with its value,
  and the default in every other field, exactly when all integers to be written are at most 2^62-1. A larger one is
  written with an empty value, so these parameters never come back.
\<close>

theorem tp_roundtrip:
  assumes "quic_tp_encode tp cap = Some out" "tp_sizes tp"
  shows "quic_tp_decode out = Some (tp_upto 16 tp) \<longleftrightarrow> tp_fits tp"
proof
  assume "quic_tp_decode out = Some (tp_upto 16 tp)"
  then show "tp_fits tp" using tp_decode_varints by (fastforce simp: tp_varints_def tp_values_def tp_upto_def tp_fits_def)
next
  assume "tp_fits tp"
  then have wf: "tp_wf tp" using assms(2) by (simp add: tp_wf_def)
  have "tp_loop (out @ []) quic_tp_init_defaults = tp_loop [] (tp_upto 16 tp)"
    using tp_encode_reads_back [OF assms(1) wf] unfolding reads_back_def by blast
  then show "quic_tp_decode out = Some (tp_upto 16 tp)" by (simp add: quic_tp_decode_def) (simp add: quic_tp_init_defaults_def)
qed

theorem tp_roundtrip_witness:
  "quic_tp_decode [1, 1, 30, 3, 2, 0x45, 0xdc, 0x0c, 0] =
     Some (tp_upto 16 (quic_tp_init_defaults\<lparr>tp_present := 0x100a, max_idle_timeout_ms := 30, max_udp_payload_size := 1500\<rparr>))
   \<and> quic_tp_decode [1, 0] \<noteq> Some (tp_upto 16 (quic_tp_init_defaults\<lparr>tp_present := 2, max_idle_timeout_ms := 2 ^ 62\<rparr>))"
proof -
  let ?a = "quic_tp_init_defaults\<lparr>tp_present := 0x100a, max_idle_timeout_ms := 30, max_udp_payload_size := 1500\<rparr>"
  let ?b = "quic_tp_init_defaults\<lparr>tp_present := 2, max_idle_timeout_ms := 2 ^ 62\<rparr>"
  have a: "quic_tp_encode ?a 64 = Some [1, 1, 30, 3, 2, 0x45, 0xdc, 0x0c, 0]" "tp_sizes ?a" "tp_fits ?a" by code_simp+
  have b: "quic_tp_encode ?b 64 = Some [1, 0]" "tp_sizes ?b" "\<not> tp_fits ?b" by code_simp+
  show ?thesis using tp_roundtrip [OF a(1,2)] a(3) tp_roundtrip [OF b(1,2)] b(3) by blast
qed

text \<open>
  Whatever bytes the peer sends, parameters the decoder accepts respect the limits of the
  protocol: UDP payload at least 1200, acknowledgement delay exponent at most 20 and delay below
  2^14, stream counts at most 2^60, at least two connection ids, connection ids of at most 20 bytes.
\<close>

lemma tp_decode_valid:
  assumes "quic_tp_decode inp = Some tp"
  shows "tp_valid tp"
proof -
  have "quic_tp_init_defaults\<lparr>tp_present := 0\<rparr> = quic_tp_init_defaults"
    by (simp add: quic_tp_init_defaults_def)
  then have "tp_loop inp quic_tp_init_defaults = Some tp" using assms by (simp add: quic_tp_decode_def)
  then show ?thesis
    by (rule tp_loop_keeps [where P = tp_valid, rotated]) (use tp_apply_valid tp_valid_defaults in blast)+
qed

text \<open>
  A value too large for a varint is not refused: the encoder writes the parameter with an
  empty value, and the decoder accepts the empty value and stores zero.
\<close>

lemma tp_oversized_becomes_zero:
  assumes "v > QUIC_VARINT_MAX" "tp = quic_tp_init_defaults\<lparr>tp_present := 2, max_idle_timeout_ms := v\<rparr>"
  shows "quic_tp_encode tp 64 = Some [1, 0]
    \<and> quic_tp_decode [1, 0] = Some (tp\<lparr>max_idle_timeout_ms := 0\<rparr>)"
proof
  have sz: "quic_varint_size v = 0"
    using assms(1) by (simp add: quic_varint_size_nat QUIC_VARINT_MAX_def word_less_nat_alt)
  then have enc: "quic_varint_encode c v = None" for c by (simp add: quic_varint_encode_def)
  have has: "tp_has tp i \<longleftrightarrow> i = 1" for i
    unfolding tp_has_bit assms(2) by (cases "i = 1") (auto simp: bit_numeral_rec bit_simps split: nat.splits)
  have "max_idle_timeout_ms tp = v" by (simp add: assms(2))
  then show "quic_tp_encode tp 64 = Some [1, 0]"
    by (simp add: quic_tp_encode_def tp_valid_def has put_if_def put_tlv_varint_def tp_put_varint_def sz enc)
      (simp add: quic_varint_encode_def quic_varint_size_def)
  have "quic_tp_decode [1, 0] = Some (quic_tp_init_defaults\<lparr>tp_present := 2, max_idle_timeout_ms := 0\<rparr>)"
    by code_simp
  then show "quic_tp_decode [1, 0] = Some (tp\<lparr>max_idle_timeout_ms := 0\<rparr>)" by (simp add: assms(2))
qed

end
