(* ===== verification/Inet.thy ===== *)
theory Inet
  imports Prelude
begin

text \<open>
  IPv4 with TCP: \<open>userspace/tcp/ip.c\<close>. The Internet checksum, the parser of inbound datagrams
  and the builder of outbound ones. The C parser works on a pointer and a length; here every
  group of reads is preceded by the end offset it needs, and reading past the end of the frame, or
  returning a payload view that extends past it, is the outcome \<open>Oob\<close>, so that memory safety is a
  statement about the result. Lengths of type
  \<open>size_t\<close> are natural numbers with the wrap-around of the subtraction written out.
\<close>

section \<open>Definitions\<close>

definition IPV4_HEADER_LEN :: nat where
  "IPV4_HEADER_LEN = 20"

definition TCP_HEADER_LEN :: nat where
  "TCP_HEADER_LEN = 20"

definition IPPROTO_TCP_VAL :: byte where
  "IPPROTO_TCP_VAL = 6"

record tcp_seg =
  src_ip :: u32
  dst_ip :: u32
  src_port :: u16
  dst_port :: u16
  sg_seq :: u32
  sg_ack :: u32
  sg_window :: u16
  sg_flags :: byte
  sg_payload :: bytes

datatype 'a parse_result = Reject | Oob | Parsed 'a

definition need :: "nat \<Rightarrow> bytes \<Rightarrow> 'a parse_result \<Rightarrow> 'a parse_result" where
  "need n frame k = (if n \<le> length frame then k else Oob)"

text \<open>Differences of \<open>size_t\<close> values.\<close>

definition sub_size :: "nat \<Rightarrow> nat \<Rightarrow> nat" where
  "sub_size a b = (if b \<le> a then a - b else 2 ^ 64 + a - b)"

definition add_size :: "nat \<Rightarrow> nat \<Rightarrow> nat" where
  "add_size a b = (a + b) mod 2 ^ 64"

definition word16 :: "byte \<Rightarrow> byte \<Rightarrow> u32" where
  "word16 a b = push_bit 8 (ucast a) OR ucast b"

fun sum_words :: "bytes \<Rightarrow> u32 \<Rightarrow> u32" where
  "sum_words (a # b # bs) s = sum_words bs (s + word16 a b)"
| "sum_words [a] s = s + push_bit 8 (ucast a)"
| "sum_words [] s = s"

text \<open>The end-around carry loop.\<close>

lemma carry_decreases:
  fixes s :: u32
  assumes "drop_bit 16 s \<noteq> 0"
  shows "unat ((s AND 0xffff) + drop_bit 16 s) < unat s"
    "unat ((s AND 0xffff) + drop_bit 16 s) = unat s mod 65536 + unat s div 65536"
proof -
  have d: "unat (drop_bit 16 s) = unat s div 65536" by (simp add: unat_drop_bit_eq drop_bit_eq_div unat_div_distrib)
  have "s AND 0xffff = take_bit 16 s" by (simp add: take_bit_eq_mask mask_eq_exp_minus_1)
  then have m: "unat (s AND 0xffff) = unat s mod 65536" by (simp add: take_bit_eq_mod unat_mod_distrib)
  have lt: "unat s < 2 ^ 32" using unsigned_less [of s] by simp
  then show eq: "unat ((s AND 0xffff) + drop_bit 16 s) = unat s mod 65536 + unat s div 65536"
    by (simp add: unat_word_ariths(1) d m)
  have "unat s div 65536 \<noteq> 0" using assms d by (metis unsigned_eq_0_iff)
  moreover have "unat s = unat s div 65536 * 65536 + unat s mod 65536" by simp
  ultimately show "unat ((s AND 0xffff) + drop_bit 16 s) < unat s" unfolding eq by linarith
qed

function fold_carry :: "u32 \<Rightarrow> u32" where
  "fold_carry s = (if drop_bit 16 s \<noteq> 0 then fold_carry ((s AND 0xffff) + drop_bit 16 s) else s)"
  by pat_completeness auto
termination
  by (relation "measure unat") (auto intro: carry_decreases(1))

declare fold_carry.simps [simp del]

definition finish_csum :: "u32 \<Rightarrow> u16" where
  "finish_csum s = ucast (NOT (fold_carry s) AND 0xffff)"

definition inet_csum :: "bytes \<Rightarrow> u16" where
  "inet_csum data = finish_csum (sum_words data 0)"

text \<open>The word at offset \<open>skip\<close> counts as zero; \<open>i\<close> is the offset of the rest.\<close>

fun sum_words_skip :: "nat \<Rightarrow> nat \<Rightarrow> bytes \<Rightarrow> u32 \<Rightarrow> u32" where
  "sum_words_skip skip i (a # b # bs) s =
     sum_words_skip skip (i + 2) bs (if i = skip then s else s + word16 a b)"
| "sum_words_skip skip i [a] s = s + push_bit 8 (ucast a)"
| "sum_words_skip skip i [] s = s"

definition pseudo_sum :: "u32 \<Rightarrow> u32 \<Rightarrow> u32 \<Rightarrow> nat \<Rightarrow> u32" where
  "pseudo_sum src dst proto n =
     (drop_bit 16 src AND 0xffff) + (src AND 0xffff) + (drop_bit 16 dst AND 0xffff) + (dst AND 0xffff)
     + proto + word_of_nat n"

definition tcp_checksum :: "u32 \<Rightarrow> u32 \<Rightarrow> bytes \<Rightarrow> u16" where
  "tcp_checksum src dst tcp =
     finish_csum (sum_words_skip 16 0 tcp (pseudo_sum src dst (ucast IPPROTO_TCP_VAL) (length tcp)))"

definition rd16 :: "bytes \<Rightarrow> nat \<Rightarrow> u16" where
  "rd16 p i = push_bit 8 (ucast (p ! i)) OR ucast (p ! (i + 1))"

definition rd32 :: "bytes \<Rightarrow> nat \<Rightarrow> u32" where
  "rd32 p i = push_bit 24 (ucast (p ! i)) OR push_bit 16 (ucast (p ! (i + 1)))
     OR push_bit 8 (ucast (p ! (i + 2))) OR ucast (p ! (i + 3))"

definition wr16 :: "u16 \<Rightarrow> bytes" where
  "wr16 v = [ucast (drop_bit 8 v), ucast v]"

definition wr32 :: "u32 \<Rightarrow> bytes" where
  "wr32 v = [ucast (drop_bit 24 v), ucast (drop_bit 16 v), ucast (drop_bit 8 v), ucast v]"

definition ip_tcp_parse_ex :: "bytes \<Rightarrow> bool \<Rightarrow> tcp_seg parse_result" where
  "ip_tcp_parse_ex frame skip_csum =
     (let len = length frame in
      if len < IPV4_HEADER_LEN then Reject
      else need 20 frame (
      if drop_bit 4 (frame ! 0) \<noteq> 4 then Reject
      else let ihl = unat (frame ! 0 AND 0x0f) * 4 in
      if ihl < IPV4_HEADER_LEN \<or> ihl > len then Reject
      else if frame ! 9 \<noteq> IPPROTO_TCP_VAL then Reject
      else let total = unat (rd16 frame 2) in
      if total > len then Reject
      else need ihl frame (
      if inet_csum (take ihl frame) \<noteq> 0 then Reject
      else let src = rd32 frame 12; dst = rd32 frame 16; tcp_len = sub_size total ihl in
      if tcp_len < TCP_HEADER_LEN then Reject
      else if add_size ihl tcp_len > len then Reject
      else need (ihl + 13) frame (
      let doff = unat (drop_bit 4 (frame ! (ihl + 12)) AND 0x0f) * 4 in
      if doff < TCP_HEADER_LEN \<or> doff > tcp_len then Reject
      else need (ihl + tcp_len) frame (
      let tcp = take tcp_len (drop ihl frame) in
      if \<not> skip_csum \<and> tcp_checksum src dst tcp \<noteq> rd16 tcp 16 then Reject
      else Parsed \<lparr>src_ip = src, dst_ip = dst, src_port = rd16 tcp 0, dst_port = rd16 tcp 2,
                   sg_seq = rd32 tcp 4, sg_ack = rd32 tcp 8, sg_window = rd16 tcp 14,
                   sg_flags = tcp ! 13, sg_payload = drop doff tcp\<rparr>)))))"

definition ip_tcp_parse :: "bytes \<Rightarrow> tcp_seg parse_result" where
  "ip_tcp_parse frame = ip_tcp_parse_ex frame False"

definition ipv4_header :: "byte \<Rightarrow> u32 \<Rightarrow> u32 \<Rightarrow> nat \<Rightarrow> u16 \<Rightarrow> bytes" where
  "ipv4_header proto src dst tot csum =
     [0x45, 0] @ wr16 (word_of_nat tot) @ wr16 0 @ wr16 0x4000 @ [64, proto] @ wr16 csum
     @ wr32 src @ wr32 dst"

definition tcp_header :: "tcp_seg \<Rightarrow> u16 \<Rightarrow> bytes" where
  "tcp_header seg csum =
     wr16 (src_port seg) @ wr16 (dst_port seg) @ wr32 (sg_seq seg) @ wr32 (sg_ack seg)
     @ [0x50, sg_flags seg] @ wr16 (sg_window seg) @ wr16 csum @ wr16 0"

definition ip_tcp_build :: "nat \<Rightarrow> tcp_seg \<Rightarrow> bytes option" where
  "ip_tcp_build out_cap seg =
     (let total = IPV4_HEADER_LEN + TCP_HEADER_LEN + length (sg_payload seg) in
      if total > out_cap \<or> total > 0xffff then None
      else
        let ip0 = ipv4_header IPPROTO_TCP_VAL (src_ip seg) (dst_ip seg) total 0;
            ip = ipv4_header IPPROTO_TCP_VAL (src_ip seg) (dst_ip seg) total (inet_csum ip0);
            tcp0 = tcp_header seg 0 @ sg_payload seg;
            csum = tcp_checksum (src_ip seg) (dst_ip seg) tcp0
        in Some (ip @ tcp_header seg csum @ sg_payload seg))"

section \<open>The checksum in arithmetic\<close>

text \<open>The sum of the 16-bit words, and its one's-complement reduction.\<close>

fun word_sum :: "bytes \<Rightarrow> nat" where
  "word_sum (a # b # bs) = unat a * 256 + unat b + word_sum bs"
| "word_sum [a] = unat a * 256"
| "word_sum [] = 0"

definition ones_reduce :: "nat \<Rightarrow> nat" where
  "ones_reduce n = (if n = 0 then 0 else (n - 1) mod 65535 + 1)"

lemma byte_le: "unat (b :: byte) \<le> 255"
  using unat_byte_lt [of b] by linarith

lemma unat_ucast_byte: "unat (ucast (b :: byte) :: u32) = unat b"
proof -
  have "unat b < 2 ^ 32" by (rule less_trans [OF unat_byte_lt]) simp
  then show ?thesis by (simp add: unsigned_ucast_eq take_bit_eq_mod)
qed

lemma unat_push8: "unat (push_bit 8 (ucast (b :: byte)) :: u32) = unat b * 256"
proof -
  have "unat b * 256 < 2 ^ 32" by (rule le_less_trans [of _ "255 * 256"]) (simp_all add: byte_le)
  then show ?thesis by (simp add: push_bit_eq_mult unat_word_ariths(2) unat_ucast_byte)
qed

lemma unat_word16: "unat (word16 a b) = unat a * 256 + unat b"
proof -
  have "push_bit 8 (ucast a :: u32) AND ucast b = 0"
    by (rule bit_word_eqI) (auto simp: bit_simps dest: bit_imp_le_length)
  then have "word16 a b = push_bit 8 (ucast a) + ucast b"
    by (simp add: word16_def disjunctive_add_eq_or)
  moreover have "unat a * 256 + unat b \<le> 65535" using byte_le [of a] byte_le [of b] by linarith
  ultimately show ?thesis by (simp add: unat_word_ariths(1) unat_push8 unat_ucast_byte)
qed

lemma word_sum_le: "word_sum bs \<le> 65535 * ((length bs + 1) div 2)"
proof (induction bs rule: word_sum.induct)
  case (1 a b bs)
  then show ?case using byte_le [of a] byte_le [of b] by simp
next
  case (2 a)
  then show ?case using byte_le [of a] by simp
qed simp

lemma add32: "unat (y :: u32) = n \<Longrightarrow> unat x + n < 2 ^ 32 \<Longrightarrow> unat (x + y) = unat x + n"
  by (simp add: unat_word_ariths(1))

lemma unat_sum_words:
  "unat s + word_sum bs < 2 ^ 32 \<Longrightarrow> unat (sum_words bs s) = unat s + word_sum bs"
proof (induction bs s rule: sum_words.induct)
  case (1 a b bs s)
  have "unat (s + word16 a b) = unat s + (unat a * 256 + unat b)"
    by (rule add32) (use 1(2) in \<open>simp_all add: unat_word16\<close>)
  then show ?case using 1 by simp
next
  case (2 a s)
  then show ?case using add32 [OF unat_push8 [of a], of s] by simp
qed simp

lemma ones_reduce_step:
  "65536 \<le> n \<Longrightarrow> ones_reduce (n mod 65536 + n div 65536) = ones_reduce n"
proof -
  assume n: "65536 \<le> n"
  have eq: "n = n div 65536 * 65536 + n mod 65536" by simp
  have pos: "0 < n mod 65536 + n div 65536" using n by (simp add: div_greater_zero_iff)
  have "n - 1 = (n mod 65536 + n div 65536 - 1) + 65535 * (n div 65536)" using eq pos by linarith
  then have "(n - 1) mod 65535 = (n mod 65536 + n div 65536 - 1) mod 65535" by simp
  then show ?thesis using n pos by (simp add: ones_reduce_def)
qed

lemma unat_fold_carry: "unat (fold_carry s) = ones_reduce (unat s)"
proof (induction s rule: fold_carry.induct)
  case (1 s)
  have d: "unat (drop_bit 16 s) = unat s div 65536" by (simp add: drop_bit_eq_div unat_div_distrib)
  show ?case
  proof (cases "drop_bit 16 s = 0")
    case True
    then have "unat s < 65536" using d by (metis div_eq_0_iff less_numeral_extra(3) unsigned_0 zero_less_numeral)
    then show ?thesis using True by (subst fold_carry.simps) (auto simp: ones_reduce_def)
  next
    case False
    then have "unat s div 65536 \<noteq> 0" using d by (metis unsigned_eq_0_iff)
    then have "65536 \<le> unat s" by (simp add: div_eq_0_iff)
    then show ?thesis using 1 False ones_reduce_step carry_decreases(2) [OF False]
      by (subst fold_carry.simps) simp
  qed
qed

lemma ones_reduce_le: "ones_reduce n \<le> 65535"
  using mod_less_divisor [of 65535 "n - 1"] by (simp only: ones_reduce_def split: if_split) linarith

lemma ones_reduce_mod: "ones_reduce n mod 65535 = n mod 65535"
proof (cases n)
  case (Suc m)
  then show ?thesis by (simp add: ones_reduce_def mod_Suc_eq)
qed (simp add: ones_reduce_def)

lemma ones_reduce_full: "ones_reduce n = 65535 \<longleftrightarrow> 0 < n \<and> n mod 65535 = 0"
proof -
  have le: "ones_reduce n \<le> 65535" by (rule ones_reduce_le)
  have pos: "0 < ones_reduce n \<longleftrightarrow> 0 < n" by (simp add: ones_reduce_def)
  show ?thesis
  proof (cases "ones_reduce n = 65535")
    case True
    then show ?thesis using pos ones_reduce_mod [of n] by simp
  next
    case False
    then have "ones_reduce n mod 65535 = ones_reduce n" using le by (intro mod_less) linarith
    with ones_reduce_mod [of n] have "n mod 65535 = ones_reduce n" by (rule trans [OF sym])
    with False pos show ?thesis by (metis less_irrefl)
  qed
qed

lemma unat_finish_csum: "unat (finish_csum s) = 65535 - ones_reduce (unat s)"
proof -
  define f where "f = fold_carry s"
  have le: "unat f \<le> 65535" unfolding f_def unat_fold_carry by (rule ones_reduce_le)
  have "unat (NOT f) = 2 ^ 32 - 1 - unat f"
  proof -
    have "NOT f = - 1 - f" by (simp add: not_eq_complement)
    then show ?thesis
      by (simp add: unat_sub unsigned_minus_1_eq_mask mask_eq_exp_minus_1)
  qed
  moreover have "NOT f AND 0xffff = take_bit 16 (NOT f)" by (simp add: take_bit_eq_mask mask_eq_exp_minus_1)
  ultimately have "unat (finish_csum s) = (2 ^ 32 - 1 - unat f) mod 65536"
    unfolding finish_csum_def f_def by (simp add: unsigned_ucast_eq take_bit_eq_mod unat_mod_distrib)
  also have "\<dots> = 65535 - unat f"
  proof -
    have "2 ^ 32 - 1 - unat f = (65535 - unat f) + 65535 * 65536" using le by simp
    then show ?thesis by (simp only: mod_mult_self1) simp
  qed
  finally show ?thesis by (simp add: f_def unat_fold_carry)
qed

lemma word_sum_lt: "length bs \<le> 131070 \<Longrightarrow> word_sum bs < 2 ^ 32"
proof -
  assume "length bs \<le> 131070"
  then have "65535 * ((length bs + 1) div 2) \<le> 65535 * 65535" by (intro mult_le_mono2) simp
  then have "word_sum bs \<le> 65535 * 65535" using word_sum_le [of bs] by linarith
  then show ?thesis by simp
qed

lemma unat_inet_csum:
  assumes "length bs \<le> 131070"
  shows "unat (inet_csum bs) = 65535 - ones_reduce (word_sum bs)"
  using unat_sum_words [of 0 bs] word_sum_lt [OF assms] by (simp add: inet_csum_def unat_finish_csum)

lemma inet_csum_zero_iff:
  assumes "length bs \<le> 131070"
  shows "inet_csum bs = 0 \<longleftrightarrow> 0 < word_sum bs \<and> word_sum bs mod 65535 = 0"
proof -
  have "inet_csum bs = 0 \<longleftrightarrow> ones_reduce (word_sum bs) = 65535"
    unfolding unat_eq_zero [symmetric] unat_inet_csum [OF assms]
    using ones_reduce_le [of "word_sum bs"] by linarith
  then show ?thesis by (simp only: ones_reduce_full)
qed

section \<open>Fields\<close>

lemma join16: "push_bit 8 (ucast (ucast (drop_bit 8 v) :: byte)) OR ucast (ucast v :: byte) = (v :: u16)"
  by (rule bit_word_eqI) (auto simp: bit_simps)

lemma join32:
  "push_bit 24 (ucast (ucast (drop_bit 24 v) :: byte)) OR push_bit 16 (ucast (ucast (drop_bit 16 v) :: byte))
   OR push_bit 8 (ucast (ucast (drop_bit 8 v) :: byte)) OR ucast (ucast v :: byte) = (v :: u32)"
proof (rule bit_word_eqI)
  fix n assume n: "n < LENGTH(32)"
  let ?w = "push_bit 24 (ucast (ucast (drop_bit 24 v) :: byte)) OR push_bit 16 (ucast (ucast (drop_bit 16 v) :: byte))
   OR push_bit 8 (ucast (ucast (drop_bit 8 v) :: byte)) OR ucast (ucast v :: byte) :: u32"
  consider "n < 8" | "8 \<le> n" "n < 16" | "16 \<le> n" "n < 24" | "24 \<le> n" by linarith
  then show "bit ?w n = bit v n" using n by cases (auto simp: bit_simps)
qed

lemma unat_wr16: "unat (ucast (drop_bit 8 v) :: byte) * 256 + unat (ucast v :: byte) = unat (v :: u16)"
proof -
  have "unat v < 65536" using unsigned_less [of v, where 'a = nat] by simp
  then have "unat v div 256 mod 256 = unat v div 256" by (intro mod_less) (simp add: div_less_iff_less_mult)
  then show ?thesis
    by (simp add: unsigned_ucast_eq take_bit_eq_mod unat_mod_distrib drop_bit_eq_div unat_div_distrib)
qed

lemmas wr_defs = wr16_def wr32_def ipv4_header_def tcp_header_def

lemma length_headers [simp]:
  "length (ipv4_header proto src dst tot c) = 20" "length (tcp_header seg c) = 20"
  by (simp_all add: wr_defs)

lemma word_sum_ipv4_header:
  "word_sum (ipv4_header proto src dst tot c) = word_sum (ipv4_header proto src dst tot 0) + unat c"
  using unat_wr16 [of c] by (simp add: wr_defs)

lemma ipv4_header_csum:
  "inet_csum (ipv4_header proto src dst tot (inet_csum (ipv4_header proto src dst tot 0))) = 0"
proof -
  let ?n = "word_sum (ipv4_header proto src dst tot 0)"
  let ?r = "ones_reduce ?n"
  have c: "unat (inet_csum (ipv4_header proto src dst tot 0)) = 65535 - ?r" by (simp add: unat_inet_csum)
  have "?r \<le> 65535" by (rule ones_reduce_le)
  then have "(?n + (65535 - ?r)) mod 65535 = 0"
    using ones_reduce_mod [of ?n] by (metis le_add_diff_inverse mod_add_left_eq mod_self)
  moreover have "0 < ?n" by (simp add: wr_defs)
  ultimately show ?thesis
    by (subst inet_csum_zero_iff) (simp_all only: word_sum_ipv4_header [of _ _ _ _ "inet_csum _"] c
        length_headers, simp_all)
qed

lemma tcp_checksum_field:
  "tcp_checksum src dst (tcp_header seg c @ p) = tcp_checksum src dst (tcp_header seg 0 @ p)"
  by (simp add: tcp_checksum_def wr_defs)

lemma ipv4_fields:
  assumes "tot < 65536"
  shows "drop_bit 4 ((ipv4_header proto src dst tot c @ r) ! 0) = 4"
    "unat ((ipv4_header proto src dst tot c @ r) ! 0 AND 0x0f) = 5"
    "(ipv4_header proto src dst tot c @ r) ! 9 = proto"
    "unat (rd16 (ipv4_header proto src dst tot c @ r) 2) = tot"
    "rd32 (ipv4_header proto src dst tot c @ r) 12 = src" "rd32 (ipv4_header proto src dst tot c @ r) 16 = dst"
  using assms by (simp_all add: wr_defs rd16_def rd32_def join16 join32 unat_of_nat)

lemma tcp_fields:
  "rd16 (tcp_header seg c @ r) 0 = src_port seg" "rd16 (tcp_header seg c @ r) 2 = dst_port seg"
  "rd32 (tcp_header seg c @ r) 4 = sg_seq seg" "rd32 (tcp_header seg c @ r) 8 = sg_ack seg"
  "(tcp_header seg c @ r) ! 12 = 0x50" "(tcp_header seg c @ r) ! 13 = sg_flags seg"
  "rd16 (tcp_header seg c @ r) 14 = sg_window seg" "rd16 (tcp_header seg c @ r) 16 = c"
  by (simp_all add: wr_defs rd16_def rd32_def join16 join32)

section \<open>Parsing\<close>

text \<open>The checks on the IPv4 header that precede the subtraction \<open>total - ihl\<close>.\<close>

definition ip_ihl :: "bytes \<Rightarrow> nat" where
  "ip_ihl frame = unat (frame ! 0 AND 0x0f) * 4"

definition ip_total :: "bytes \<Rightarrow> nat" where
  "ip_total frame = unat (rd16 frame 2)"

definition ip_header_ok :: "byte \<Rightarrow> bytes \<Rightarrow> bool" where
  "ip_header_ok proto frame \<longleftrightarrow> 20 \<le> length frame \<and> drop_bit 4 (frame ! 0) = 4
     \<and> 20 \<le> ip_ihl frame \<and> ip_ihl frame \<le> length frame \<and> frame ! 9 = proto
     \<and> ip_total frame \<le> length frame \<and> inet_csum (take (ip_ihl frame) frame) = 0"

lemma ip_ihl_le: "ip_ihl frame \<le> 60"
proof -
  have "frame ! 0 AND 0x0f \<le> 0x0f" by (rule word_and_le1)
  then show ?thesis by (simp add: ip_ihl_def word_le_nat_alt)
qed

lemma ip_total_le: "ip_total frame \<le> 65535"
  using unsigned_less [of "rd16 frame 2", where 'a = nat] unfolding ip_total_def by simp

lemma tcp_parse_header:
  "ip_tcp_parse_ex frame skip \<noteq> Reject \<Longrightarrow> ip_header_ok IPPROTO_TCP_VAL frame"
  by (auto simp: ip_tcp_parse_ex_def Let_def need_def ip_header_ok_def ip_ihl_def ip_total_def
      IPV4_HEADER_LEN_def not_less split: if_splits)

definition tcp_doff :: "bytes \<Rightarrow> nat" where
  "tcp_doff frame = unat (drop_bit 4 (frame ! (ip_ihl frame + 12)) AND 0x0f) * 4"

text \<open>The rest of the parser once the header is accepted.\<close>

lemma tcp_parse_body:
  assumes "ip_header_ok IPPROTO_TCP_VAL frame" "length frame < 2 ^ 63"
  defines "ihl \<equiv> ip_ihl frame" and "n \<equiv> ip_total frame - ip_ihl frame"
  defines "tcp \<equiv> take n (drop ihl frame)"
  shows "ip_total frame < ihl \<Longrightarrow> ip_tcp_parse_ex frame skip =
      (if length frame < ihl + 13 \<or> 20 \<le> tcp_doff frame then Oob else Reject)"
    "ihl \<le> ip_total frame \<Longrightarrow> ip_tcp_parse_ex frame skip =
      (if n < 20 \<or> tcp_doff frame < 20 \<or> n < tcp_doff frame
          \<or> \<not> skip \<and> tcp_checksum (rd32 frame 12) (rd32 frame 16) tcp \<noteq> rd16 tcp 16 then Reject
       else Parsed \<lparr>src_ip = rd32 frame 12, dst_ip = rd32 frame 16, src_port = rd16 tcp 0,
         dst_port = rd16 tcp 2, sg_seq = rd32 tcp 4, sg_ack = rd32 tcp 8, sg_window = rd16 tcp 14,
         sg_flags = tcp ! 13, sg_payload = drop (tcp_doff frame) tcp\<rparr>)"
proof -
  have h: "20 \<le> length frame" "drop_bit 4 (frame ! 0) = 4" "20 \<le> ihl" "ihl \<le> length frame"
    "frame ! 9 = IPPROTO_TCP_VAL" "ip_total frame \<le> length frame" "inet_csum (take ihl frame) = 0"
    using assms(1) by (simp_all add: ip_header_ok_def ihl_def)
  have e: "ip_tcp_parse_ex frame skip =
    (let tcp_len = sub_size (ip_total frame) ihl in
     if tcp_len < 20 then Reject else if add_size ihl tcp_len > length frame then Reject
     else need (ihl + 13) frame (
       if tcp_doff frame < 20 \<or> tcp_doff frame > tcp_len then Reject
       else need (ihl + tcp_len) frame (
         let tcp = take tcp_len (drop ihl frame) in
         if \<not> skip \<and> tcp_checksum (rd32 frame 12) (rd32 frame 16) tcp \<noteq> rd16 tcp 16 then Reject
         else Parsed \<lparr>src_ip = rd32 frame 12, dst_ip = rd32 frame 16, src_port = rd16 tcp 0,
           dst_port = rd16 tcp 2, sg_seq = rd32 tcp 4, sg_ack = rd32 tcp 8, sg_window = rd16 tcp 14,
           sg_flags = tcp ! 13, sg_payload = drop (tcp_doff frame) tcp\<rparr>)))"
    using h unfolding ip_tcp_parse_ex_def IPV4_HEADER_LEN_def TCP_HEADER_LEN_def tcp_doff_def ihl_def
    by (simp add: Let_def need_def ip_ihl_def [symmetric] ip_total_def [symmetric] not_less)
  have d: "tcp_doff frame \<le> 60"
  proof -
    have "drop_bit 4 (frame ! (ip_ihl frame + 12)) AND 0x0f \<le> 0x0f" by (rule word_and_le1)
    then show ?thesis by (simp add: tcp_doff_def word_le_nat_alt)
  qed
  have b: "ihl \<le> 60" using ip_ihl_le ihl_def by simp
  show "ip_tcp_parse_ex frame skip = (if length frame < ihl + 13 \<or> 20 \<le> tcp_doff frame then Oob else Reject)"
    if lt: "ip_total frame < ihl"
  proof -
    have s: "sub_size (ip_total frame) ihl = 2 ^ 64 + ip_total frame - ihl" using lt by (simp add: sub_size_def)
    have a: "add_size ihl (sub_size (ip_total frame) ihl) = ip_total frame"
      using lt b h(6) assms(2) by (simp add: add_size_def s)
    have "\<not> sub_size (ip_total frame) ihl < 20" "\<not> sub_size (ip_total frame) ihl < tcp_doff frame"
      "\<not> ihl + sub_size (ip_total frame) ihl \<le> length frame"
      using lt b d assms(2) by (simp_all add: s)
    then show ?thesis unfolding e Let_def need_def a using h(6) by auto
  qed
  show "ihl \<le> ip_total frame \<Longrightarrow> ip_tcp_parse_ex frame skip =
      (if n < 20 \<or> tcp_doff frame < 20 \<or> n < tcp_doff frame
          \<or> \<not> skip \<and> tcp_checksum (rd32 frame 12) (rd32 frame 16) tcp \<noteq> rd16 tcp 16 then Reject
       else Parsed \<lparr>src_ip = rd32 frame 12, dst_ip = rd32 frame 16, src_port = rd16 tcp 0,
         dst_port = rd16 tcp 2, sg_seq = rd32 tcp 4, sg_ack = rd32 tcp 8, sg_window = rd16 tcp 14,
         sg_flags = tcp ! 13, sg_payload = drop (tcp_doff frame) tcp\<rparr>)"
    using h(6) assms(2) unfolding e Let_def need_def tcp_def n_def ihl_def
    by (auto simp: sub_size_def add_size_def)
qed

section \<open>Properties\<close>

text \<open>
  C28: The checksum loop computes the one's-complement sum: the result is 65535 minus the reduced
  sum of the 16-bit words, and verification succeeds exactly when the words sum to a positive
  multiple of 65535.
\<close>

theorem inet_csum_arithmetic:
  assumes "length bs \<le> 131070"
  shows "unat (inet_csum bs) = 65535 - ones_reduce (word_sum bs)
    \<and> (inet_csum bs = 0 \<longleftrightarrow> 0 < word_sum bs \<and> word_sum bs mod 65535 = 0)"
  using unat_inet_csum [OF assms] inet_csum_zero_iff [OF assms] by simp

theorem inet_csum_arithmetic_witness:
  "unat (inet_csum [0xff, 0xff, 0, 3, 9]) = 65535 - ones_reduce (word_sum [0xff, 0xff, 0, 3, 9])"
  using inet_csum_arithmetic [of "[0xff, 0xff, 0, 3, 9]"] by simp

text \<open>
  C29: A segment the builder accepts is read back exactly by the parser, also with padding after
  the datagram: both checksums verify and every field and the payload are those of the segment.
\<close>

theorem tcp_build_parse:
  assumes "ip_tcp_build cap seg = Some out" "length pad < 2 ^ 62"
  shows "ip_tcp_parse (out @ pad) = Parsed seg"
proof -
  let ?p = "sg_payload seg"
  define tot where "tot = 40 + length ?p"
  define ip where "ip = ipv4_header 6 (src_ip seg) (dst_ip seg) tot (inet_csum (ipv4_header 6 (src_ip seg) (dst_ip seg) tot 0))"
  define c where "c = tcp_checksum (src_ip seg) (dst_ip seg) (tcp_header seg 0 @ ?p)"
  have tot: "tot < 65536" and out: "out = ip @ tcp_header seg c @ ?p"
    using assms(1) by (auto simp: ip_tcp_build_def Let_def tot_def ip_def c_def IPV4_HEADER_LEN_def
        TCP_HEADER_LEN_def IPPROTO_TCP_VAL_def split: if_splits)
  let ?f = "ip @ tcp_header seg c @ ?p @ pad"
  have len: "length ip = 20" by (simp add: ip_def)
  note f = ipv4_fields [OF tot, of 6 "src_ip seg" "dst_ip seg"
      "inet_csum (ipv4_header 6 (src_ip seg) (dst_ip seg) tot 0)" "tcp_header seg c @ ?p @ pad", folded ip_def]
  have ihl: "ip_ihl ?f = 20" and total: "ip_total ?f = tot"
    using f by (simp_all add: ip_ihl_def ip_total_def)
  have ok: "ip_header_ok IPPROTO_TCP_VAL ?f"
    unfolding ip_header_ok_def ihl total using f(1,3) len
    by (simp add: IPPROTO_TCP_VAL_def tot_def) (simp add: ip_def ipv4_header_csum)
  have doff: "tcp_doff ?f = 20"
    using tcp_fields(5) [of seg c "?p @ pad"] len by (simp add: tcp_doff_def ihl nth_append)
  have tcp: "take (ip_total ?f - ip_ihl ?f) (drop (ip_ihl ?f) ?f) = tcp_header seg c @ ?p"
    unfolding ihl total using len by (simp add: tot_def)
  have small: "length ?f < 2 ^ 63" using len tot assms(2) by (simp add: tot_def)
  have cs: "tcp_checksum (rd32 ?f 12) (rd32 ?f 16) (tcp_header seg c @ ?p) = c"
    using f(5,6) tcp_checksum_field [of "src_ip seg" "dst_ip seg" seg c ?p] by (simp add: c_def)
  have le: "ip_ihl ?f \<le> ip_total ?f" by (simp add: ihl total tot_def)
  have "ip_tcp_parse_ex ?f False = Parsed seg"
    unfolding tcp_parse_body(2) [OF ok small le] tcp doff cs unfolding ihl total
    using f(5,6) by (simp add: tot_def tcp_fields)
  then show ?thesis by (simp add: ip_tcp_parse_def out)
qed

theorem tcp_build_parse_witness:
  "let seg = \<lparr>src_ip = 0x0a000001, dst_ip = 0x0a000002, src_port = 443, dst_port = 50000, sg_seq = 7,
              sg_ack = 9, sg_window = 65535, sg_flags = 0x18, sg_payload = [0x68, 0x69]\<rparr>
   in \<exists>out. ip_tcp_build 1500 seg = Some out \<and> ip_tcp_parse (out @ [0, 0]) = Parsed seg"
proof -
  let ?seg = "\<lparr>src_ip = 0x0a000001, dst_ip = 0x0a000002, src_port = 443, dst_port = 50000, sg_seq = 7,
              sg_ack = 9, sg_window = 65535, sg_flags = 0x18, sg_payload = [0x68, 0x69]\<rparr>"
  obtain out where "ip_tcp_build 1500 ?seg = Some out"
    by (simp add: ip_tcp_build_def IPV4_HEADER_LEN_def TCP_HEADER_LEN_def)
  then show ?thesis using tcp_build_parse [of 1500 ?seg out "[0, 0]"] by simp
qed

text \<open>
  C30: Exactly when the parser reads outside the frame or, with the TCP checksum skipped, at least
  hands out a payload that does not lie in it: the IPv4 header is accepted, its total
  length is smaller than its header length, and the frame is too short to hold the data-offset
  byte or that byte asks for at least 20 bytes. The subtraction of the lengths then wraps, and the
  later bounds check wraps back and passes.
\<close>

theorem tcp_parse_out_of_bounds:
  assumes "length frame < 2 ^ 63"
  shows "ip_tcp_parse_ex frame skip = Oob \<longleftrightarrow>
    ip_header_ok IPPROTO_TCP_VAL frame \<and> ip_total frame < ip_ihl frame
    \<and> (length frame < ip_ihl frame + 13 \<or> 20 \<le> tcp_doff frame)"
proof (cases "ip_header_ok IPPROTO_TCP_VAL frame")
  case True
  then show ?thesis using tcp_parse_body [OF True assms, of skip]
    by (cases "ip_total frame < ip_ihl frame") auto
next
  case False
  then have "ip_tcp_parse_ex frame skip = Reject" using tcp_parse_header by blast
  then show ?thesis using False by simp
qed

theorem tcp_parse_out_of_bounds_witness:
  "ip_tcp_parse_ex [0x45, 0, 0, 0, 0, 0, 0, 0, 0, 6, 0xba, 0xf9, 0, 0, 0, 0, 0, 0, 0, 0] False = Oob"
proof -
  let ?f = "[0x45, 0, 0, 0, 0, 0, 0, 0, 0, 6, 0xba, 0xf9, 0, 0, 0, 0, 0, 0, 0, 0] :: bytes"
  have "ip_header_ok IPPROTO_TCP_VAL ?f" by code_simp
  moreover have "ip_total ?f < ip_ihl ?f" "length ?f < ip_ihl ?f + 13" by code_simp+
  ultimately show ?thesis using tcp_parse_out_of_bounds [of ?f False] by simp
qed

end
