(* ===== verification/Udp.thy ===== *)
theory Udp
  imports Inet
begin

text \<open>
  IPv4 with UDP: \<open>userspace/udp/udp.c\<close>, in the style of \<open>Inet\<close>: reads past the end of the frame
  are the outcome \<open>Oob\<close>.
\<close>

section \<open>Definitions\<close>

definition UDP_HEADER_LEN :: nat where
  "UDP_HEADER_LEN = 8"

definition IPPROTO_UDP_VAL :: byte where
  "IPPROTO_UDP_VAL = 17"

record udp_dgram =
  dg_src_ip :: u32
  dg_dst_ip :: u32
  dg_src_port :: u16
  dg_dst_port :: u16
  dg_payload :: bytes

definition udp_checksum :: "u32 \<Rightarrow> u32 \<Rightarrow> bytes \<Rightarrow> u16" where
  "udp_checksum src dst udp =
     (let cs = finish_csum (sum_words_skip 6 0 udp (pseudo_sum src dst (ucast IPPROTO_UDP_VAL) (length udp)))
      in if cs \<noteq> 0 then cs else 0xffff)"

definition ip_udp_parse_ex :: "bytes \<Rightarrow> bool \<Rightarrow> udp_dgram parse_result" where
  "ip_udp_parse_ex frame skip_csum =
     (let len = length frame in
      if len < IPV4_HEADER_LEN then Reject
      else need 20 frame (
      if drop_bit 4 (frame ! 0) \<noteq> 4 then Reject
      else let ihl = unat (frame ! 0 AND 0x0f) * 4 in
      if ihl < IPV4_HEADER_LEN \<or> ihl > len then Reject
      else if frame ! 9 \<noteq> IPPROTO_UDP_VAL then Reject
      else let total = unat (rd16 frame 2) in
      if total > len then Reject
      else need ihl frame (
      if inet_csum (take ihl frame) \<noteq> 0 then Reject
      else let src = rd32 frame 12; dst = rd32 frame 16 in
      if total < ihl + UDP_HEADER_LEN then Reject
      else let udp_total = sub_size total ihl in
      if add_size ihl udp_total > len then Reject
      else need (ihl + 8) frame (
      let udp_len_field = unat (rd16 frame (ihl + 4)) in
      if udp_len_field < UDP_HEADER_LEN then Reject
      else if udp_len_field > udp_total then Reject
      else let wire_csum = rd16 frame (ihl + 6) in
      need (ihl + udp_len_field) frame (
      let udp = take udp_len_field (drop ihl frame) in
      if \<not> skip_csum \<and> wire_csum \<noteq> 0 \<and> udp_checksum src dst udp \<noteq> wire_csum then Reject
      else Parsed \<lparr>dg_src_ip = src, dg_dst_ip = dst, dg_src_port = rd16 udp 0, dg_dst_port = rd16 udp 2,
                   dg_payload = drop UDP_HEADER_LEN udp\<rparr>)))))"

definition ip_udp_parse :: "bytes \<Rightarrow> udp_dgram parse_result" where
  "ip_udp_parse frame = ip_udp_parse_ex frame False"

definition udp_header :: "udp_dgram \<Rightarrow> nat \<Rightarrow> u16 \<Rightarrow> bytes" where
  "udp_header dg tot csum =
     wr16 (dg_src_port dg) @ wr16 (dg_dst_port dg) @ wr16 (word_of_nat tot) @ wr16 csum"

definition ip_udp_build :: "nat \<Rightarrow> udp_dgram \<Rightarrow> bytes option" where
  "ip_udp_build out_cap dg =
     (let udp_total = UDP_HEADER_LEN + length (dg_payload dg);
          total = IPV4_HEADER_LEN + udp_total in
      if udp_total > 0xffff then None
      else if total > out_cap \<or> total > 0xffff then None
      else
        let ip0 = ipv4_header IPPROTO_UDP_VAL (dg_src_ip dg) (dg_dst_ip dg) total 0;
            ip = ipv4_header IPPROTO_UDP_VAL (dg_src_ip dg) (dg_dst_ip dg) total (inet_csum ip0);
            udp0 = udp_header dg udp_total 0 @ dg_payload dg;
            csum = udp_checksum (dg_src_ip dg) (dg_dst_ip dg) udp0
        in Some (ip @ udp_header dg udp_total csum @ dg_payload dg))"

section \<open>Parsing\<close>

lemma udp_parse_header:
  "ip_udp_parse_ex frame skip \<noteq> Reject \<Longrightarrow> ip_header_ok IPPROTO_UDP_VAL frame"
  by (auto simp: ip_udp_parse_ex_def Let_def need_def ip_header_ok_def ip_ihl_def ip_total_def
      IPV4_HEADER_LEN_def not_less split: if_splits)

lemma udp_parse_body:
  assumes "ip_header_ok IPPROTO_UDP_VAL frame" "length frame < 2 ^ 63"
  defines "ihl \<equiv> ip_ihl frame" and "n \<equiv> unat (rd16 frame (ip_ihl frame + 4))"
  defines "udp \<equiv> take n (drop ihl frame)"
  shows "ip_udp_parse_ex frame skip =
      (if ip_total frame < ihl + 8 \<or> n < 8 \<or> ip_total frame - ihl < n
          \<or> \<not> skip \<and> rd16 frame (ihl + 6) \<noteq> 0
            \<and> udp_checksum (rd32 frame 12) (rd32 frame 16) udp \<noteq> rd16 frame (ihl + 6) then Reject
       else Parsed \<lparr>dg_src_ip = rd32 frame 12, dg_dst_ip = rd32 frame 16, dg_src_port = rd16 udp 0,
         dg_dst_port = rd16 udp 2, dg_payload = drop 8 udp\<rparr>)"
proof -
  have h: "20 \<le> length frame" "drop_bit 4 (frame ! 0) = 4" "20 \<le> ihl" "ihl \<le> length frame"
    "frame ! 9 = IPPROTO_UDP_VAL" "ip_total frame \<le> length frame" "inet_csum (take ihl frame) = 0"
    using assms(1) by (simp_all add: ip_header_ok_def ihl_def)
  have e: "ip_udp_parse_ex frame skip =
    (if ip_total frame < ihl + 8 then Reject
     else if add_size ihl (sub_size (ip_total frame) ihl) > length frame then Reject
     else need (ihl + 8) frame (
       if n < 8 then Reject else if n > sub_size (ip_total frame) ihl then Reject
       else need (ihl + n) frame (
         if \<not> skip \<and> rd16 frame (ihl + 6) \<noteq> 0
            \<and> udp_checksum (rd32 frame 12) (rd32 frame 16) udp \<noteq> rd16 frame (ihl + 6) then Reject
         else Parsed \<lparr>dg_src_ip = rd32 frame 12, dg_dst_ip = rd32 frame 16, dg_src_port = rd16 udp 0,
           dg_dst_port = rd16 udp 2, dg_payload = drop 8 udp\<rparr>)))"
    using h unfolding ip_udp_parse_ex_def IPV4_HEADER_LEN_def UDP_HEADER_LEN_def ihl_def n_def udp_def
    by (simp add: Let_def need_def ip_ihl_def [symmetric] ip_total_def [symmetric] not_less)
  show ?thesis
  proof (cases "ip_total frame < ihl + 8")
    case False
    then have "sub_size (ip_total frame) ihl = ip_total frame - ihl"
      "add_size ihl (ip_total frame - ihl) = ip_total frame"
      using h(6) assms(2) by (simp_all add: sub_size_def add_size_def)
    then show ?thesis unfolding e need_def using False h(6) by auto
  qed (simp add: e)
qed

lemma udp_checksum_field:
  "udp_checksum src dst (udp_header dg tot c @ p) = udp_checksum src dst (udp_header dg tot 0 @ p)"
  by (simp add: udp_checksum_def udp_header_def wr16_def)

lemma udp_checksum_nonzero: "udp_checksum src dst udp \<noteq> 0"
  by (simp add: udp_checksum_def Let_def)

lemma length_udp_header [simp]: "length (udp_header dg tot c) = 8"
  by (simp add: udp_header_def wr16_def)

lemma udp_fields:
  assumes "tot < 65536"
  shows "rd16 (udp_header dg tot c @ r) 0 = dg_src_port dg" "rd16 (udp_header dg tot c @ r) 2 = dg_dst_port dg"
    "unat (rd16 (udp_header dg tot c @ r) 4) = tot" "rd16 (udp_header dg tot c @ r) 6 = c"
  using assms by (simp_all add: udp_header_def wr16_def rd16_def join16 unat_of_nat)

lemma rd16_append: "rd16 (xs @ ys) (length xs + i) = rd16 ys i"
  by (simp add: rd16_def nth_append)

section \<open>Properties\<close>

text \<open>
  The UDP parser never reads outside the frame, and the payload it returns lies within the
  length the IPv4 header declares.
\<close>

lemma udp_parse_safe:
  assumes "length frame < 2 ^ 63"
  shows "ip_udp_parse_ex frame skip \<noteq> Oob
    \<and> (\<forall>dg. ip_udp_parse_ex frame skip = Parsed dg \<longrightarrow>
         ip_ihl frame + 8 + length (dg_payload dg) \<le> ip_total frame)"
proof (cases "ip_header_ok IPPROTO_UDP_VAL frame")
  case True
  then show ?thesis unfolding udp_parse_body [OF True assms] by (auto simp: ip_header_ok_def)
next
  case False
  then have "ip_udp_parse_ex frame skip = Reject" using udp_parse_header by blast
  then show ?thesis by simp
qed

text \<open>
  A datagram the builder accepts is read back exactly by the parser, also with padding after
  it; the checksum it carries is never zero, so the parser always verifies it.
\<close>

lemma udp_build_parse:
  assumes "ip_udp_build cap dg = Some out" "length pad < 2 ^ 62"
  shows "ip_udp_parse (out @ pad) = Parsed dg \<and> rd16 out 26 \<noteq> 0"
proof -
  let ?p = "dg_payload dg"
  define n where "n = 8 + length ?p"
  define tot where "tot = 20 + n"
  define ip where "ip = ipv4_header 17 (dg_src_ip dg) (dg_dst_ip dg) tot (inet_csum (ipv4_header 17 (dg_src_ip dg) (dg_dst_ip dg) tot 0))"
  define c where "c = udp_checksum (dg_src_ip dg) (dg_dst_ip dg) (udp_header dg n 0 @ ?p)"
  have tot: "tot < 65536" and out: "out = ip @ udp_header dg n c @ ?p"
    using assms(1) by (auto simp: ip_udp_build_def Let_def tot_def n_def ip_def c_def IPV4_HEADER_LEN_def
        UDP_HEADER_LEN_def IPPROTO_UDP_VAL_def split: if_splits)
  have n: "n < 65536" using tot by (simp add: tot_def)
  let ?f = "ip @ udp_header dg n c @ ?p @ pad"
  have len: "length ip = 20" by (simp add: ip_def)
  note f = ipv4_fields [OF tot, of 17 "dg_src_ip dg" "dg_dst_ip dg"
      "inet_csum (ipv4_header 17 (dg_src_ip dg) (dg_dst_ip dg) tot 0)" "udp_header dg n c @ ?p @ pad", folded ip_def]
  have ihl: "ip_ihl ?f = 20" and total: "ip_total ?f = tot"
    using f by (simp_all add: ip_ihl_def ip_total_def)
  have ok: "ip_header_ok IPPROTO_UDP_VAL ?f"
    unfolding ip_header_ok_def ihl total using f(1,3) len
    by (simp add: IPPROTO_UDP_VAL_def tot_def n_def) (simp add: ip_def ipv4_header_csum)
  have small: "length ?f < 2 ^ 63" using len n assms(2) by (simp add: n_def)
  have rds: "unat (rd16 ?f 24) = n" "rd16 ?f 26 = c" "rd16 out 26 = c"
    using udp_fields(3,4) [OF n, of dg c "?p @ pad"] udp_fields(4) [OF n, of dg c ?p]
      rd16_append [of ip _ 4] rd16_append [of ip _ 6] by (simp_all add: len out)
  have udp: "take n (drop 20 ?f) = udp_header dg n c @ ?p" using len by (simp add: n_def)
  have cs: "udp_checksum (dg_src_ip dg) (dg_dst_ip dg) (udp_header dg n c @ ?p) = c"
    using udp_checksum_field [of "dg_src_ip dg" "dg_dst_ip dg" dg n c ?p] by (simp add: c_def)
  have "ip_udp_parse_ex ?f False = Parsed dg"
    unfolding udp_parse_body [OF ok small] ihl total using rds udp cs f(5,6) n
    by (simp add: tot_def udp_fields(1,2) n_def [symmetric]) (simp add: n_def)
  then show ?thesis using rds(3) udp_checksum_nonzero by (simp add: ip_udp_parse_def out c_def)
qed

end
