(* ===== verification/Dispatch.thy ===== *)
theory Dispatch
  imports Prelude
begin

text \<open>
  The table of layer-4 services: \<open>userspace/dispatch.c\<close> and \<open>dispatch.h\<close>.  A service is known to
  the stack by which of its hooks are set; what the hooks answer is an input of each stack
  operation.  The locale \<open>service_registry\<close> is what a stack relies on.
\<close>

section \<open>Interface\<close>

locale service_registry =
  fixes add :: "'d \<Rightarrow> 's \<Rightarrow> 'd option" and find :: "'d \<Rightarrow> 'k \<Rightarrow> 's option" and key :: "'s \<Rightarrow> 'k"
  assumes find_added: "add d s = Some d' \<Longrightarrow> find d' (key s) = Some s"
    and find_kept: "add d s = Some d' \<Longrightarrow> find d k = Some t \<Longrightarrow> find d' k = Some t"
    and find_only: "add d s = Some d' \<Longrightarrow> find d' k = Some t \<Longrightarrow> t = s \<or> find d k = Some t"
begin

primrec add_all :: "'d \<Rightarrow> 's list \<Rightarrow> 'd option" where
  "add_all d [] = Some d"
| "add_all d (s # ss) = Option.bind (add d s) (\<lambda>d'. add_all d' ss)"

lemma add_all_kept: "add_all d ss = Some d' \<Longrightarrow> find d k = Some t \<Longrightarrow> find d' k = Some t"
  by (induction ss arbitrary: d) (auto simp: bind_eq_Some_conv intro: find_kept)

lemma add_all_found: "add_all d ss = Some d' \<Longrightarrow> s \<in> set ss \<Longrightarrow> find d' (key s) = Some s"
  by (induction ss arbitrary: d) (auto simp: bind_eq_Some_conv intro: find_added add_all_kept)

lemma add_all_only: "add_all d ss = Some d' \<Longrightarrow> find d' k = Some t \<Longrightarrow> t \<in> set ss \<or> find d k = Some t"
  by (induction ss arbitrary: d) (auto simp: bind_eq_Some_conv dest: find_only)

end

section \<open>Definitions\<close>

definition PW_DISPATCH_MAX :: nat where
  "PW_DISPATCH_MAX = 16"

definition PW_PROTO_TCP :: u32 where
  "PW_PROTO_TCP = 6"

definition PW_PROTO_UDP :: u32 where
  "PW_PROTO_UDP = 17"

record pw_conn_info =
  ci_remote_ip :: u32
  ci_remote_port :: u16
  ci_local_ip :: u32
  ci_local_port :: u16
  ci_proto :: u32

datatype pw_disp_status =
  PW_DISP_NO_OUTPUT | PW_DISP_OUTPUT | PW_DISP_OUTPUT_AND_CLOSE | PW_DISP_RESET | PW_DISP_ERROR

record pw_service =
  sv_proto :: u32
  sv_port :: u16
  sv_on_open :: bool
  sv_on_data :: bool
  sv_on_close :: bool

record pw_dispatch =
  dp_entries :: "pw_service list"

definition pw_dispatch_init :: pw_dispatch where
  "pw_dispatch_init = \<lparr>dp_entries = []\<rparr>"

definition pw_dispatch_register :: "pw_dispatch \<Rightarrow> pw_service \<Rightarrow> pw_dispatch option" where
  "pw_dispatch_register d svc =
     (if sv_port svc = 0 then None
      else if \<not> sv_on_data svc then None
      else if sv_proto svc \<noteq> PW_PROTO_TCP \<and> sv_proto svc \<noteq> PW_PROTO_UDP then None
      else if length (dp_entries d) \<ge> PW_DISPATCH_MAX then None
      else if list_ex (\<lambda>e. sv_proto e = sv_proto svc \<and> sv_port e = sv_port svc) (dp_entries d) then None
      else Some (d\<lparr>dp_entries := dp_entries d @ [svc]\<rparr>))"

definition pw_dispatch_lookup :: "pw_dispatch \<Rightarrow> u32 \<Rightarrow> u16 \<Rightarrow> pw_service option" where
  "pw_dispatch_lookup d proto port =
     List.find (\<lambda>e. sv_port e = port \<and> sv_proto e = proto) (dp_entries d)"

section \<open>Lemmas\<close>

definition service_key :: "pw_service \<Rightarrow> u32 \<times> u16" where
  "service_key svc = (sv_proto svc, sv_port svc)"

lemma find_append:
  "List.find P (xs @ ys) = (case List.find P xs of Some x \<Rightarrow> Some x | None \<Rightarrow> List.find P ys)"
  by (induction xs) auto

lemma register_SomeD:
  assumes "pw_dispatch_register d svc = Some d'"
  shows "d' = d\<lparr>dp_entries := dp_entries d @ [svc]\<rparr>" "sv_port svc \<noteq> 0" "sv_on_data svc"
    "sv_proto svc \<in> {PW_PROTO_TCP, PW_PROTO_UDP}" "length (dp_entries d) < PW_DISPATCH_MAX"
    "pw_dispatch_lookup d (sv_proto svc) (sv_port svc) = None"
  using assms by (auto simp: pw_dispatch_register_def pw_dispatch_lookup_def find_None_iff list_ex_iff
      split: if_splits)

lemma lookup_register:
  assumes "pw_dispatch_register d svc = Some d'"
  shows "pw_dispatch_lookup d' proto port =
    (if (proto, port) = service_key svc then Some svc else pw_dispatch_lookup d proto port)"
  using register_SomeD(1,6) [OF assms]
  by (auto simp: pw_dispatch_lookup_def find_append service_key_def split: option.splits)

lemma lookup_key:
  "pw_dispatch_lookup d proto port = Some svc \<Longrightarrow> sv_proto svc = proto \<and> sv_port svc = port"
  by (auto simp: pw_dispatch_lookup_def find_Some_iff)

interpretation reg: service_registry pw_dispatch_register "\<lambda>d k. pw_dispatch_lookup d (fst k) (snd k)" service_key
proof
  fix d s d' assume r: "pw_dispatch_register d s = Some d'"
  show "pw_dispatch_lookup d' (fst (service_key s)) (snd (service_key s)) = Some s"
    by (simp add: lookup_register [OF r])
next
  fix d s d' k t assume r: "pw_dispatch_register d s = Some d'"
    and t: "pw_dispatch_lookup d (fst k) (snd k) = Some t"
  then show "pw_dispatch_lookup d' (fst k) (snd k) = Some t"
    using register_SomeD(6) [OF r] by (auto simp: lookup_register [OF r] service_key_def)
next
  fix d s d' k t assume r: "pw_dispatch_register d s = Some d'"
    and t: "pw_dispatch_lookup d' (fst k) (snd k) = Some t"
  then show "t = s \<or> pw_dispatch_lookup d (fst k) (snd k) = Some t"
    by (auto simp: lookup_register [OF r] split: if_splits)
qed

primrec pw_register_all :: "pw_dispatch \<Rightarrow> pw_service list \<Rightarrow> pw_dispatch option" where
  "pw_register_all d [] = Some d"
| "pw_register_all d (s # ss) = Option.bind (pw_dispatch_register d s) (\<lambda>d'. pw_register_all d' ss)"

lemma register_all_eq: "pw_register_all = reg.add_all"
proof (intro ext)
  fix d ss show "pw_register_all d ss = reg.add_all d ss"
    by (induction ss arbitrary: d) simp_all
qed

section \<open>Property\<close>

text \<open>
  When the registrations of a list of services all succeed, a lookup finds a service exactly
  when it is in the list under that protocol and port, so every port has one owner.
\<close>

lemma dispatch_lookup_exact:
  assumes "pw_register_all pw_dispatch_init ss = Some d"
  shows "pw_dispatch_lookup d proto port = Some svc \<longleftrightarrow>
    svc \<in> set ss \<and> sv_proto svc = proto \<and> sv_port svc = port"
proof
  assume l: "pw_dispatch_lookup d proto port = Some svc"
  have "svc \<in> set ss \<or> pw_dispatch_lookup pw_dispatch_init proto port = Some svc"
    using reg.add_all_only [of pw_dispatch_init ss d "(proto, port)" svc] assms l
    by (simp add: register_all_eq)
  then show "svc \<in> set ss \<and> sv_proto svc = proto \<and> sv_port svc = port"
    using lookup_key [OF l] by (simp add: pw_dispatch_lookup_def pw_dispatch_init_def)
next
  assume s: "svc \<in> set ss \<and> sv_proto svc = proto \<and> sv_port svc = port"
  then have "pw_dispatch_lookup d (fst (service_key svc)) (snd (service_key svc)) = Some svc"
    using reg.add_all_found [of pw_dispatch_init ss d svc] assms by (simp add: register_all_eq)
  then show "pw_dispatch_lookup d proto port = Some svc" using s by (simp add: service_key_def)
qed

end
