(* ===== verification/Tcp.thy ===== *)
theory Tcp
  imports Inet Dispatch
begin

text \<open>
  One TCP connection: the per-connection half of \<open>userspace/tcp/tcp.c\<close> (windows, congestion
  control, retransmission, sending, and the state machine on an inbound segment).

  An operation returns what it did, in order, and the new connection: \<open>Emit\<close> is a call of the
  emit callback, \<open>Call_Open\<close>, \<open>Call_Data\<close> and \<open>Call_Close\<close> are calls of the hooks of the service they name
  with the state pointer they return or get.  What the hooks answer on this occasion is the argument \<open>answers\<close>
  (one open and one data call at most per segment); \<open>None\<close> is the null pointer.  The single-port
  callback \<open>on_data\<close> gets the connection and is a function parameter.
\<close>

section \<open>Data\<close>

definition TCP_TABLE_SIZE :: nat where "TCP_TABLE_SIZE = 256"
definition TCP_RTX_QUEUE_MAX :: nat where "TCP_RTX_QUEUE_MAX = 4"
definition TCP_RTO_INIT_MS :: u32 where "TCP_RTO_INIT_MS = 1000"
definition TCP_RTO_MIN_MS :: u32 where "TCP_RTO_MIN_MS = 200"
definition TCP_RTO_MAX_MS :: u32 where "TCP_RTO_MAX_MS = 60000"
definition TCP_MSS :: nat where "TCP_MSS = 1460"
definition TCP_INIT_CWND :: u32 where "TCP_INIT_CWND = 10 * of_nat TCP_MSS"
definition TCP_MIN_CWND :: u32 where "TCP_MIN_CWND = 2 * of_nat TCP_MSS"
definition TCP_DUPACK_THRESHOLD :: u32 where "TCP_DUPACK_THRESHOLD = 3"

definition TCPF_FIN :: byte where "TCPF_FIN = 0x01"
definition TCPF_SYN :: byte where "TCPF_SYN = 0x02"
definition TCPF_RST :: byte where "TCPF_RST = 0x04"
definition TCPF_PSH :: byte where "TCPF_PSH = 0x08"
definition TCPF_ACK :: byte where "TCPF_ACK = 0x10"

datatype tcp_state =
  TCP_CLOSED | TCP_LISTEN | TCP_SYN_RECEIVED | TCP_ESTABLISHED | TCP_CLOSE_WAIT | TCP_LAST_ACK

record tcp_rtx_entry =
  rx_seq :: u32
  rx_len :: u32
  rx_payload :: bytes
  rx_flags :: byte
  rx_retrans :: bool
  rx_tx_time_ms :: u64

record tcp_conn =
  tc_state :: tcp_state
  local_ip :: u32
  remote_ip :: u32
  local_port :: u16
  remote_port :: u16
  snd_nxt :: u32
  snd_una :: u32
  rcv_nxt :: u32
  rcv_wnd :: u16
  rcv_buf_cap :: u32
  rcv_buf_used :: u32
  rtx :: "tcp_rtx_entry list"
  srtt_ms :: u32
  rttvar_ms :: u32
  rto_ms :: u32
  tc_cwnd :: u32
  tc_ssthresh :: u32
  snd_wnd :: u32
  dupack_n :: u32
  recovery_seq :: u32
  in_recovery :: bool
  svc :: "pw_service option"
  app_state :: "nat option"
  opened :: bool

datatype tcp_out =
  Emit tcp_seg
| Call_Open "pw_service option" pw_conn_info "nat option"
| Call_Data "pw_service option" "nat option" bytes
| Call_Close "pw_service option" nat

record svc_answers =
  an_open :: "nat option"
  an_status :: pw_disp_status
  an_iov :: "bytes list"

type_synonym tcp_on_data = "(tcp_conn \<Rightarrow> bytes \<Rightarrow> tcp_out list \<times> tcp_conn) option"

abbreviation len32 :: "bytes \<Rightarrow> u32" where
  "len32 bs \<equiv> word_of_nat (length bs)"

definition has_flag :: "tcp_seg \<Rightarrow> byte \<Rightarrow> bool" where
  "has_flag seg f \<longleftrightarrow> sg_flags seg AND f \<noteq> 0"

section \<open>Receive window\<close>

definition tcp_advertised_wnd :: "tcp_conn \<Rightarrow> u16" where
  "tcp_advertised_wnd c =
     (if rcv_buf_cap c = 0 then 65535
      else if rcv_buf_used c \<ge> rcv_buf_cap c then 0
      else let free_bytes = rcv_buf_cap c - rcv_buf_used c in
        if free_bytes > 65535 then 65535 else ucast free_bytes)"

definition tcp_set_rcv_buf_cap :: "tcp_conn \<Rightarrow> u32 \<Rightarrow> tcp_conn" where
  "tcp_set_rcv_buf_cap c cap =
     (let c = c\<lparr>rcv_buf_cap := cap, rcv_buf_used := 0\<rparr> in c\<lparr>rcv_wnd := tcp_advertised_wnd c\<rparr>)"

text \<open>A segment of the connection with the cached window, as every emit site fills it in.\<close>

definition conn_seg :: "tcp_conn \<Rightarrow> u32 \<Rightarrow> byte \<Rightarrow> bytes \<Rightarrow> tcp_seg" where
  "conn_seg c sq flags payload =
     \<lparr>src_ip = local_ip c, dst_ip = remote_ip c, src_port = local_port c, dst_port = remote_port c,
      sg_seq = sq, sg_ack = rcv_nxt c, sg_window = rcv_wnd c, sg_flags = flags, sg_payload = payload\<rparr>"

definition tcp_rcv_consumed :: "tcp_conn \<Rightarrow> u32 \<Rightarrow> tcp_out list \<times> tcp_conn" where
  "tcp_rcv_consumed c n =
     (if n = 0 then ([], c)
      else
        let old_wnd = rcv_wnd c;
            c = c\<lparr>rcv_buf_used := (if n \<ge> rcv_buf_used c then 0 else rcv_buf_used c - n)\<rparr>;
            new_wnd = tcp_advertised_wnd c;
            c = c\<lparr>rcv_wnd := new_wnd\<rparr>
        in (if old_wnd = 0 \<and> new_wnd > 0 \<and> tc_state c = TCP_ESTABLISHED
            then [Emit (conn_seg c (snd_nxt c) TCPF_ACK [])] else [], c))"

definition emit_ctrl :: "tcp_conn \<Rightarrow> byte \<Rightarrow> tcp_out list \<times> tcp_conn" where
  "emit_ctrl c flags =
     (let c = c\<lparr>rcv_wnd := tcp_advertised_wnd c\<rparr> in ([Emit (conn_seg c (snd_nxt c) flags [])], c))"

definition emit_rst :: "tcp_seg \<Rightarrow> tcp_out list" where
  "emit_rst seg =
     (let s = \<lparr>src_ip = dst_ip seg, dst_ip = src_ip seg, src_port = dst_port seg, dst_port = src_port seg,
               sg_seq = 0, sg_ack = 0, sg_window = 0, sg_flags = 0, sg_payload = []\<rparr>
      in [Emit (if has_flag seg TCPF_ACK then s\<lparr>sg_seq := sg_ack seg, sg_flags := TCPF_RST\<rparr>
                else s\<lparr>sg_ack := sg_seq seg + (if has_flag seg TCPF_SYN then 1 else 0) + len32 (sg_payload seg),
                       sg_flags := TCPF_RST OR TCPF_ACK\<rparr>)])"

section \<open>Retransmission queue and timer\<close>

definition tcp_flight_size :: "tcp_conn \<Rightarrow> u32" where
  "tcp_flight_size c = foldl (\<lambda>sum e. sum + rx_len e) 0 (rtx c)"

definition tcp_send_window :: "tcp_conn \<Rightarrow> u32" where
  "tcp_send_window c =
     (let cwnd = (if tc_cwnd c \<noteq> 0 then tc_cwnd c else TCP_INIT_CWND);
          snd = (if snd_wnd c \<noteq> 0 then snd_wnd c else 65535);
          lim = (if cwnd < snd then cwnd else snd);
          fl = tcp_flight_size c
      in if fl \<ge> lim then 0 else lim - fl)"

definition rtx_enqueue :: "tcp_conn \<Rightarrow> u32 \<Rightarrow> bytes \<Rightarrow> byte \<Rightarrow> u64 \<Rightarrow> tcp_conn option" where
  "rtx_enqueue c sq payload flags tx_time =
     (if length (rtx c) \<ge> TCP_RTX_QUEUE_MAX then None
      else Some (c\<lparr>rtx := rtx c @ [\<lparr>rx_seq = sq, rx_len = len32 payload, rx_payload = payload,
                    rx_flags = flags, rx_retrans = False, rx_tx_time_ms = tx_time\<rparr>]\<rparr>))"

definition clamp_rto :: "u32 \<Rightarrow> u32" where
  "clamp_rto rto =
     (let rto = (if rto < TCP_RTO_MIN_MS then TCP_RTO_MIN_MS else rto)
      in if rto > TCP_RTO_MAX_MS then TCP_RTO_MAX_MS else rto)"

definition rtt_sample :: "tcp_conn \<Rightarrow> u32 \<Rightarrow> tcp_conn" where
  "rtt_sample c r_ms =
     (let c = (if srtt_ms c = 0 then c\<lparr>srtt_ms := r_ms, rttvar_ms := r_ms div 2\<rparr>
               else let diff = (if srtt_ms c > r_ms then srtt_ms c - r_ms else r_ms - srtt_ms c) in
                 c\<lparr>rttvar_ms := (3 * rttvar_ms c + diff) div 4, srtt_ms := (7 * srtt_ms c + r_ms) div 8\<rparr>);
          kvar = 4 * rttvar_ms c;
          kvar = (if kvar < 1 then 1 else kvar)
      in c\<lparr>rto_ms := clamp_rto (srtt_ms c + kvar)\<rparr>)"

text \<open>The scan keeps the entries not fully acknowledged and samples the others.\<close>

primrec rtx_scan :: "tcp_rtx_entry list \<Rightarrow> u32 \<Rightarrow> u64 \<Rightarrow> tcp_conn \<Rightarrow> tcp_rtx_entry list \<times> tcp_conn" where
  "rtx_scan [] ack_no now c = ([], c)"
| "rtx_scan (e # es) ack_no now c =
     (if sint (ack_no - (rx_seq e + rx_len e)) < 0
      then let (kept, c') = rtx_scan es ack_no now c in (e # kept, c')
      else rtx_scan es ack_no now
        (if \<not> rx_retrans e \<and> now \<noteq> 0 \<and> now \<ge> rx_tx_time_ms e
         then rtt_sample c (ucast (now - rx_tx_time_ms e)) else c))"

definition rtx_on_ack :: "tcp_conn \<Rightarrow> u32 \<Rightarrow> u64 \<Rightarrow> tcp_conn" where
  "rtx_on_ack c ack_no now = (let (kept, c') = rtx_scan (rtx c) ack_no now c in c'\<lparr>rtx := kept\<rparr>)"

section \<open>Congestion control\<close>

definition cc_on_new_ack :: "tcp_conn \<Rightarrow> u32 \<Rightarrow> tcp_conn" where
  "cc_on_new_ack c bytes_acked =
     (if bytes_acked = 0 then c
      else if in_recovery c then
        (if sint (snd_una c - recovery_seq c) \<ge> 0
         then c\<lparr>in_recovery := False, tc_cwnd := tc_ssthresh c, dupack_n := 0\<rparr>
         else c\<lparr>dupack_n := 0\<rparr>)
      else if tc_cwnd c < tc_ssthresh c then
        let inc = (if bytes_acked < of_nat TCP_MSS then bytes_acked else of_nat TCP_MSS)
        in c\<lparr>tc_cwnd := tc_cwnd c + inc, dupack_n := 0\<rparr>
      else
        let inc = (of_nat TCP_MSS * of_nat TCP_MSS) div (if tc_cwnd c \<noteq> 0 then tc_cwnd c else 1);
            inc = (if inc = 0 then 1 else inc)
        in c\<lparr>tc_cwnd := tc_cwnd c + inc, dupack_n := 0\<rparr>)"

definition loss_ssthresh :: "tcp_conn \<Rightarrow> u32" where
  "loss_ssthresh c =
     (let half = tcp_flight_size c div 2 in if half \<ge> TCP_MIN_CWND then half else TCP_MIN_CWND)"

definition cc_on_dupack :: "tcp_conn \<Rightarrow> tcp_out list \<times> tcp_conn" where
  "cc_on_dupack c =
     (let c = c\<lparr>dupack_n := dupack_n c + 1\<rparr> in
      if dupack_n c < TCP_DUPACK_THRESHOLD then ([], c)
      else if in_recovery c then ([], c\<lparr>tc_cwnd := tc_cwnd c + of_nat TCP_MSS\<rparr>)
      else
        let ss = loss_ssthresh c;
            c = c\<lparr>tc_ssthresh := ss, tc_cwnd := ss + 3 * of_nat TCP_MSS, recovery_seq := snd_nxt c, in_recovery := True\<rparr>
        in case rtx c of
             [] \<Rightarrow> ([], c)
           | e # es \<Rightarrow>
               let c = c\<lparr>rcv_wnd := tcp_advertised_wnd c\<rparr>
               in ([Emit (conn_seg c (rx_seq e) (rx_flags e) (rx_payload e))],
                   c\<lparr>rtx := e\<lparr>rx_retrans := True\<rparr> # es\<rparr>))"

definition cc_on_rto :: "tcp_conn \<Rightarrow> tcp_conn" where
  "cc_on_rto c =
     c\<lparr>tc_ssthresh := loss_ssthresh c, tc_cwnd := of_nat TCP_MSS, dupack_n := 0, in_recovery := False\<rparr>"

text \<open>The body of the \<open>tcp_tick\<close> loop for one connection.\<close>

definition tick_conn :: "u64 \<Rightarrow> tcp_conn \<Rightarrow> tcp_out list \<times> tcp_conn" where
  "tick_conn now c =
     (if tc_state c \<noteq> TCP_ESTABLISHED \<and> tc_state c \<noteq> TCP_CLOSE_WAIT then ([], c)
      else case rtx c of
        [] \<Rightarrow> ([], c)
      | e # es \<Rightarrow>
          let age = (if now \<ge> rx_tx_time_ms e then now - rx_tx_time_ms e else 0) in
          if age < ucast (rto_ms c) then ([], c)
          else
            let c = c\<lparr>rcv_wnd := tcp_advertised_wnd c\<rparr>;
                out = [Emit (conn_seg c (rx_seq e) (rx_flags e) (rx_payload e))];
                c = cc_on_rto (c\<lparr>rtx := e\<lparr>rx_retrans := True, rx_tx_time_ms := now\<rparr> # es\<rparr>);
                doubled = (ucast (rto_ms c) :: u64) * 2;
                doubled = (if doubled > ucast TCP_RTO_MAX_MS then ucast TCP_RTO_MAX_MS else doubled)
            in (out, c\<lparr>rto_ms := ucast doubled\<rparr>))"

section \<open>Sending\<close>

text \<open>The segmentation loop; the flag is false when it stops because the queue is full.\<close>

function send_loop :: "u64 \<Rightarrow> bytes \<Rightarrow> tcp_conn \<Rightarrow> tcp_out list \<times> tcp_conn \<times> bool" where
  "send_loop now data c =
     (if data = [] then ([], c, True)
      else
        let chunk = take TCP_MSS data;
            rest = drop TCP_MSS data;
            c = c\<lparr>rcv_wnd := tcp_advertised_wnd c\<rparr>;
            flags = TCPF_ACK OR (if rest = [] then TCPF_PSH else 0);
            out = Emit (conn_seg c (snd_nxt c) flags chunk)
        in case (if now \<noteq> 0 then rtx_enqueue c (snd_nxt c) chunk flags now else Some c) of
             None \<Rightarrow> ([out], c, False)
           | Some c \<Rightarrow>
               let (outs, c, ok) = send_loop now rest (c\<lparr>snd_nxt := snd_nxt c + len32 chunk\<rparr>)
               in (out # outs, c, ok))"
  by pat_completeness auto
termination
  by (relation "measure (\<lambda>(now, data, c). length data)") (auto simp: TCP_MSS_def)

declare send_loop.simps [simp del]

definition tcp_send_at :: "tcp_conn \<Rightarrow> bytes \<Rightarrow> u64 \<Rightarrow> tcp_out list \<times> tcp_conn \<times> int" where
  "tcp_send_at c data now =
     (if tc_state c \<noteq> TCP_ESTABLISHED then ([], c, -1)
      else if now \<noteq> 0 \<and> length (rtx c) \<ge> TCP_RTX_QUEUE_MAX then ([], c, -1)
      else if now \<noteq> 0 \<and> len32 data > tcp_send_window c then ([], c, -1)
      else
        let c = (if rto_ms c = 0 then c\<lparr>rto_ms := TCP_RTO_INIT_MS\<rparr> else c);
            (outs, c, ok) = send_loop now data c
        in (outs, c, if ok then sint (len32 data) else -1))"

definition tcp_send :: "tcp_conn \<Rightarrow> bytes \<Rightarrow> tcp_out list \<times> tcp_conn \<times> int" where
  "tcp_send c data = tcp_send_at c data 0"

definition tcp_sendv :: "tcp_conn \<Rightarrow> bytes list \<Rightarrow> tcp_out list \<times> tcp_conn \<times> int" where
  "tcp_sendv c iov =
     (if tc_state c \<noteq> TCP_ESTABLISHED then ([], c, -1)
      else case iov of
        [] \<Rightarrow> ([], c, 0)
      | [frag] \<Rightarrow> tcp_send c frag
      | _ \<Rightarrow>
          let n = sum_list (map length iov) in
          if n > 16 * 1024 then ([], c, -1) else tcp_send c (concat iov))"

section \<open>Service hooks\<close>

definition conn_info :: "tcp_conn \<Rightarrow> pw_conn_info" where
  "conn_info c = \<lparr>ci_remote_ip = remote_ip c, ci_remote_port = remote_port c, ci_local_ip = local_ip c,
     ci_local_port = local_port c, ci_proto = PW_PROTO_TCP\<rparr>"

text \<open>The boolean result is the C return value: whether the connection stays open.\<close>

definition fire_open :: "tcp_conn \<Rightarrow> svc_answers \<Rightarrow> tcp_out list \<times> tcp_conn \<times> bool" where
  "fire_open c ans =
     (case svc c of
        None \<Rightarrow> ([], c, True)
      | Some sv \<Rightarrow>
          if opened c then ([], c, True)
          else if \<not> sv_on_open sv then ([], c\<lparr>opened := True\<rparr>, True)
          else (case an_open ans of
            None \<Rightarrow>
              let (outs, c') = emit_ctrl c TCPF_RST
              in (Call_Open (svc c) (conn_info c) None # outs, c'\<lparr>tc_state := TCP_CLOSED\<rparr>, False)
          | Some st \<Rightarrow> ([Call_Open (svc c) (conn_info c) (Some st)], c\<lparr>app_state := Some st, opened := True\<rparr>, True)))"

definition fire_close :: "tcp_conn \<Rightarrow> tcp_out list \<times> tcp_conn" where
  "fire_close c =
     (case svc c of
        None \<Rightarrow> ([], c)
      | Some sv \<Rightarrow>
          if \<not> opened c then ([], c)
          else (case app_state c of
                  Some st \<Rightarrow> if sv_on_close sv then [Call_Close (svc c) st] else []
                | None \<Rightarrow> [],
                c\<lparr>app_state := None, opened := False\<rparr>))"

definition drive_service_data :: "tcp_conn \<Rightarrow> svc_answers \<Rightarrow> bytes \<Rightarrow> tcp_out list \<times> tcp_conn \<times> bool" where
  "drive_service_data c ans data =
     (let call = Call_Data (svc c) (app_state c) data;
          sendv = (\<lambda>c. if an_iov ans \<noteq> [] then let (outs, c, _) = tcp_sendv c (an_iov ans) in (outs, c) else ([], c))
      in case an_status ans of
        PW_DISP_NO_OUTPUT \<Rightarrow> ([call], c, True)
      | PW_DISP_OUTPUT \<Rightarrow> let (outs, c) = sendv c in (call # outs, c, True)
      | PW_DISP_OUTPUT_AND_CLOSE \<Rightarrow>
          let (outs, c) = sendv c;
              (outs', c) = emit_ctrl c (TCPF_FIN OR TCPF_ACK)
          in (call # outs @ outs', c\<lparr>snd_nxt := snd_nxt c + 1, tc_state := TCP_LAST_ACK\<rparr>, True)
      | _ \<Rightarrow>
          let (outs, c) = emit_ctrl c TCPF_RST;
              (outs', c) = fire_close c
          in (call # outs @ outs', c\<lparr>tc_state := TCP_CLOSED\<rparr>, False))"

text \<open>Delivery of a payload, the same in the two places of the state machine.\<close>

definition deliver :: "tcp_conn \<Rightarrow> svc_answers \<Rightarrow> tcp_on_data \<Rightarrow> bytes \<Rightarrow> tcp_out list \<times> tcp_conn \<times> bool" where
  "deliver c ans on_data data =
     (if svc c \<noteq> None then drive_service_data c ans data
      else case on_data of
        None \<Rightarrow> ([], c, True)
      | Some f \<Rightarrow> let (outs, c) = f c data in (outs, c, True))"

section \<open>The state machine\<close>

definition rst_ok :: "tcp_conn \<Rightarrow> tcp_seg \<Rightarrow> bool" where
  "rst_ok c seg =
     (if tc_state c = TCP_SYN_RECEIVED then sg_seq seg = rcv_nxt c
      else if has_flag seg TCPF_ACK then
        sint (sg_ack seg - snd_una c) \<ge> 0 \<and> sint (sg_ack seg - snd_nxt c) \<le> 0 \<and> sg_seq seg = rcv_nxt c
      else False)"

definition input_rst :: "tcp_conn \<Rightarrow> tcp_seg \<Rightarrow> tcp_out list \<times> tcp_conn" where
  "input_rst c seg =
     (if \<not> rst_ok c seg then ([], c)
      else let (outs, c) = fire_close c in (outs, c\<lparr>tc_state := TCP_CLOSED\<rparr>))"

definition input_syn_received ::
  "tcp_conn \<Rightarrow> tcp_seg \<Rightarrow> u64 \<Rightarrow> svc_answers \<Rightarrow> tcp_on_data \<Rightarrow> tcp_out list \<times> tcp_conn" where
  "input_syn_received c seg now ans on_data =
     (if has_flag seg TCPF_ACK \<and> sg_ack seg = snd_nxt c then
        let c = (rtx_on_ack (c\<lparr>snd_una := sg_ack seg\<rparr>) (sg_ack seg) now)\<lparr>tc_state := TCP_ESTABLISHED\<rparr>;
            (o1, c, go) = fire_open c ans
        in if \<not> go then (o1, c)
           else if sg_payload seg = [] then (o1, c)
           else
             let (o2, c, go) = deliver c ans on_data (sg_payload seg)
             in if \<not> go then (o1 @ o2, c)
                else
                  let (o3, c) = emit_ctrl (c\<lparr>rcv_nxt := rcv_nxt c + len32 (sg_payload seg)\<rparr>) TCPF_ACK
                  in (o1 @ o2 @ o3, c)
      else ([], c))"

definition is_dup_ack :: "tcp_conn \<Rightarrow> tcp_seg \<Rightarrow> bool" where
  "is_dup_ack c seg \<longleftrightarrow> sg_ack seg = snd_una c \<and> rtx c \<noteq> [] \<and> sg_payload seg = []
     \<and> sg_flags seg AND (TCPF_SYN OR TCPF_FIN) = 0"

definition est_ack :: "tcp_conn \<Rightarrow> tcp_seg \<Rightarrow> u64 \<Rightarrow> tcp_out list \<times> tcp_conn" where
  "est_ack c seg now =
     (if has_flag seg TCPF_ACK then
        let c = c\<lparr>snd_wnd := (if sg_window seg \<noteq> 0 then ucast (sg_window seg) else snd_wnd c)\<rparr>;
            dup = is_dup_ack c seg;
            adv = sg_ack seg - snd_una c
        in if sint adv > 0 then
             ([], cc_on_new_ack (rtx_on_ack (c\<lparr>snd_una := sg_ack seg\<rparr>) (sg_ack seg) now) adv)
           else if dup then cc_on_dupack c
           else ([], c)
      else ([], c))"

text \<open>The data part returns false where the C code returns from the handler.\<close>

definition est_data ::
  "tcp_conn \<Rightarrow> tcp_seg \<Rightarrow> svc_answers \<Rightarrow> tcp_on_data \<Rightarrow> tcp_out list \<times> tcp_conn \<times> bool" where
  "est_data c seg ans on_data =
     (let p = sg_payload seg in
      if p = [] then ([], c, True)
      else
        let adv_wnd = tcp_advertised_wnd c in
        if adv_wnd = 0 then let (outs, c) = emit_ctrl c TCPF_ACK in (outs, c, False)
        else if length p > unat adv_wnd then let (outs, c) = emit_ctrl c TCPF_ACK in (outs, c, False)
        else
          let (o1, c, go) = deliver c ans on_data p in
          if \<not> go then (o1, c, False)
          else
            let c = c\<lparr>rcv_nxt := rcv_nxt c + len32 p\<rparr>;
                c = (if rcv_buf_cap c > 0 then c\<lparr>rcv_buf_used := rcv_buf_used c + len32 p\<rparr> else c);
                (o2, c) = emit_ctrl c TCPF_ACK
            in (o1 @ o2, c, True))"

definition est_fin :: "tcp_conn \<Rightarrow> tcp_seg \<Rightarrow> tcp_out list \<times> tcp_conn" where
  "est_fin c seg =
     (if has_flag seg TCPF_FIN then
        let (o1, c) = emit_ctrl (c\<lparr>rcv_nxt := rcv_nxt c + 1, tc_state := TCP_CLOSE_WAIT\<rparr>) TCPF_ACK;
            (o2, c) = emit_ctrl c (TCPF_FIN OR TCPF_ACK);
            (o3, c) = fire_close (c\<lparr>snd_nxt := snd_nxt c + 1, tc_state := TCP_LAST_ACK\<rparr>)
        in (o1 @ o2 @ o3, c)
      else ([], c))"

definition input_established ::
  "tcp_conn \<Rightarrow> tcp_seg \<Rightarrow> u64 \<Rightarrow> svc_answers \<Rightarrow> tcp_on_data \<Rightarrow> tcp_out list \<times> tcp_conn" where
  "input_established c seg now ans on_data =
     (if sint (sg_seq seg - rcv_nxt c) \<noteq> 0 then emit_ctrl c TCPF_ACK
      else
        let (o1, c) = est_ack c seg now;
            (o2, c, go) = est_data c seg ans on_data
        in if \<not> go then (o1 @ o2, c)
           else let (o3, c) = est_fin c seg in (o1 @ o2 @ o3, c))"

definition input_last_ack :: "tcp_conn \<Rightarrow> tcp_seg \<Rightarrow> tcp_out list \<times> tcp_conn" where
  "input_last_ack c seg =
     (if has_flag seg TCPF_ACK \<and> sg_ack seg = snd_nxt c
      then let (outs, c) = fire_close c in (outs, c\<lparr>tc_state := TCP_CLOSED\<rparr>)
      else ([], c))"

text \<open>What \<open>tcp_input_at\<close> does once it has found the connection.\<close>

definition conn_input ::
  "tcp_conn \<Rightarrow> tcp_seg \<Rightarrow> u64 \<Rightarrow> svc_answers \<Rightarrow> tcp_on_data \<Rightarrow> tcp_out list \<times> tcp_conn" where
  "conn_input c seg now ans on_data =
     (if has_flag seg TCPF_RST then input_rst c seg
      else case tc_state c of
        TCP_SYN_RECEIVED \<Rightarrow> input_syn_received c seg now ans on_data
      | TCP_ESTABLISHED \<Rightarrow> input_established c seg now ans on_data
      | TCP_LAST_ACK \<Rightarrow> input_last_ack c seg
      | _ \<Rightarrow> (emit_rst seg, c))"

section \<open>What the sending side leaves alone\<close>

definition quiet :: "tcp_out list \<Rightarrow> bool" where
  "quiet outs \<longleftrightarrow> (\<forall>x\<in>set outs. \<exists>s. x = Emit s)"

definition tx_only :: "tcp_conn \<Rightarrow> tcp_conn \<Rightarrow> bool" where
  "tx_only c c' \<longleftrightarrow> tc_state c' = tc_state c \<and> svc c' = svc c \<and> app_state c' = app_state c
     \<and> opened c' = opened c \<and> rcv_nxt c' = rcv_nxt c \<and> rcv_buf_cap c' = rcv_buf_cap c
     \<and> rcv_buf_used c' = rcv_buf_used c \<and> local_ip c' = local_ip c \<and> remote_ip c' = remote_ip c
     \<and> local_port c' = local_port c \<and> remote_port c' = remote_port c"

lemma quiet_simps [simp]:
  "quiet []" "quiet (Emit s # outs) = quiet outs" "quiet (xs @ ys) \<longleftrightarrow> quiet xs \<and> quiet ys"
  "\<not> quiet (Call_Open v i a # outs)" "\<not> quiet (Call_Data v a d # outs)" "\<not> quiet (Call_Close v p # outs)"
  by (auto simp: quiet_def)

lemma tx_only_refl [simp]: "tx_only c c"
  by (simp add: tx_only_def)

lemma tx_only_trans: "tx_only c c' \<Longrightarrow> tx_only c' c'' \<Longrightarrow> tx_only c c''"
  by (simp add: tx_only_def)

lemma tx_only_updates [simp]:
  "tx_only (c\<lparr>rcv_wnd := w\<rparr>) c' = tx_only c c'" "tx_only (c\<lparr>snd_nxt := n\<rparr>) c' = tx_only c c'"
  "tx_only (c\<lparr>rtx := q\<rparr>) c' = tx_only c c'" "tx_only (c\<lparr>rto_ms := n\<rparr>) c' = tx_only c c'"
  "tx_only (c\<lparr>snd_una := n\<rparr>) c' = tx_only c c'" "tx_only (c\<lparr>snd_wnd := n\<rparr>) c' = tx_only c c'"
  "tx_only c (c'\<lparr>rtx := q\<rparr>) = tx_only c c'" "tx_only c (c'\<lparr>rto_ms := n\<rparr>) = tx_only c c'"
  "tx_only c (c'\<lparr>rcv_wnd := w\<rparr>) = tx_only c c'" "tx_only c (c'\<lparr>snd_una := n\<rparr>) = tx_only c c'"
  "tx_only c (c'\<lparr>snd_wnd := n\<rparr>) = tx_only c c'" "tx_only c (c'\<lparr>snd_nxt := n\<rparr>) = tx_only c c'"
  by (simp_all add: tx_only_def)

lemma emit_ctrl_tx: "emit_ctrl c f = (outs, c') \<Longrightarrow> quiet outs \<and> c' = c\<lparr>rcv_wnd := tcp_advertised_wnd c\<rparr>"
  by (auto simp: emit_ctrl_def Let_def)

lemma rtt_sample_tx: "tx_only c (rtt_sample c r)"
  by (simp add: rtt_sample_def Let_def tx_only_def)

lemma rtx_scan_tx: "rtx_scan es a now c = (kept, c') \<Longrightarrow> tx_only c c'"
  by (induction es arbitrary: c kept)
    (auto split: if_splits prod.splits intro: tx_only_trans [OF rtt_sample_tx])

lemma rtx_on_ack_tx: "tx_only c (rtx_on_ack c a now)"
  by (auto simp: rtx_on_ack_def split: prod.split dest: rtx_scan_tx)

lemma cc_on_new_ack_tx: "tx_only c (cc_on_new_ack c n)"
  by (simp add: cc_on_new_ack_def Let_def tx_only_def)

lemma cc_on_dupack_tx: "cc_on_dupack c = (outs, c') \<Longrightarrow> quiet outs \<and> tx_only c c'"
  by (auto simp: cc_on_dupack_def Let_def tx_only_def split: if_splits list.splits)

lemma tick_conn_tx: "tick_conn now c = (outs, c') \<Longrightarrow> quiet outs \<and> tx_only c c'"
  by (auto simp: tick_conn_def Let_def tx_only_def cc_on_rto_def split: if_splits list.splits)

lemma send_loop_tx: "send_loop now data c = (outs, c', ok) \<Longrightarrow> quiet outs \<and> tx_only c c'"
proof (induction now data c arbitrary: outs c' ok rule: send_loop.induct)
  case (1 now data c)
  let ?c1 = "c\<lparr>rcv_wnd := tcp_advertised_wnd c\<rparr>"
  let ?fl = "TCPF_ACK OR (if drop TCP_MSS data = [] then TCPF_PSH else 0)"
  show ?case
  proof (cases "data = []")
    case True
    then show ?thesis using "1.prems" by (simp add: send_loop.simps)
  next
    case False
    show ?thesis
    proof (cases "if now \<noteq> 0 then rtx_enqueue ?c1 (snd_nxt ?c1) (take TCP_MSS data) ?fl now else Some ?c1")
      case None
      then show ?thesis using "1.prems" False by (simp add: send_loop.simps [of _ data] Let_def del: if_split)
        (auto simp del: if_split)
    next
      case (Some c2)
      then have "tx_only c c2"
        by (auto simp: rtx_enqueue_def split: if_splits)
      obtain outs2 c3 ok2 where l: "send_loop now (drop TCP_MSS data) (c2\<lparr>snd_nxt := snd_nxt c2 + len32 (take TCP_MSS data)\<rparr>)
          = (outs2, c3, ok2)" by (metis prod_cases3)
      have "quiet outs2 \<and> tx_only c2 c3"
        using "1.IH" [OF False refl refl refl refl refl Some l] by simp
      then show ?thesis using "1.prems" False Some l \<open>tx_only c c2\<close>
        by (simp add: send_loop.simps [of _ data] Let_def del: if_split)
          (auto intro: tx_only_trans)
    qed
  qed
qed

lemma tcp_send_at_tx: "tcp_send_at c data now = (outs, c', r) \<Longrightarrow> quiet outs \<and> tx_only c c'"
  by (auto simp: tcp_send_at_def Let_def split: if_splits prod.splits dest!: send_loop_tx)

lemma tcp_sendv_tx: "tcp_sendv c iov = (outs, c', r) \<Longrightarrow> quiet outs \<and> tx_only c c'"
  by (auto simp: tcp_sendv_def tcp_send_def Let_def split: if_splits list.splits dest: tcp_send_at_tx)

lemma ack_tx: "tx_only c c' \<Longrightarrow> tx_only c (cc_on_new_ack (rtx_on_ack c' a now) n)"
  by (intro tx_only_trans [OF _ cc_on_new_ack_tx] tx_only_trans [OF _ rtx_on_ack_tx])

lemma est_ack_tx: "est_ack c seg now = (outs, c') \<Longrightarrow> quiet outs \<and> tx_only c c'"
  by (auto simp: est_ack_def Let_def ack_tx split: if_splits dest!: cc_on_dupack_tx)

section \<open>The life of a service's connection\<close>

text \<open>
  The contract of the hooks as an automaton: a connection is idle until \<open>on_open\<close> of its service returns a state, then live
  with that service and state until \<open>on_close\<close>.  Only a service without \<open>on_open\<close> gets data while idle, with the null
  state.  A service without \<open>on_close\<close> is not told of the end, so its connection may become idle at any time.
\<close>

datatype life = Idle | Live pw_service nat

fun life_step :: "life \<Rightarrow> tcp_out \<Rightarrow> life option" where
  "life_step l (Emit s) = Some l"
| "life_step Idle (Call_Open (Some sv) i r) =
     (if sv_on_open sv then Some (case r of Some p \<Rightarrow> Live sv p | None \<Rightarrow> Idle) else None)"
| "life_step Idle (Call_Data (Some sv) a d) = (if \<not> sv_on_open sv \<and> a = None then Some Idle else None)"
| "life_step (Live sv p) (Call_Data v a d) = (if v = Some sv \<and> a = Some p then Some (Live sv p) else None)"
| "life_step (Live sv p) (Call_Close v q) = (if v = Some sv \<and> q = p \<and> sv_on_close sv then Some Idle else None)"
| "life_step _ _ = None"

definition life_ends :: "life \<Rightarrow> life set" where
  "life_ends l = insert l (case l of Live sv p \<Rightarrow> if sv_on_close sv then {} else {Idle} | Idle \<Rightarrow> {})"

primrec life_runs :: "life \<Rightarrow> tcp_out list \<Rightarrow> life \<Rightarrow> bool" where
  "life_runs l [] l' \<longleftrightarrow> l' \<in> life_ends l"
| "life_runs l (x # xs) l' \<longleftrightarrow> (\<exists>m\<in>life_ends l. \<exists>m'. life_step m x = Some m' \<and> life_runs m' xs l')"

definition conn_life :: "tcp_conn \<Rightarrow> life" where
  "conn_life c = (if opened c then (case (svc c, app_state c) of (Some sv, Some p) \<Rightarrow> Live sv p | _ \<Rightarrow> Idle) else Idle)"

text \<open>The invariant of a connection in dispatch mode.\<close>

definition conn_inv :: "tcp_conn \<Rightarrow> bool" where
  "conn_inv c \<longleftrightarrow>
     (tc_state c \<noteq> TCP_CLOSED \<longrightarrow> svc c \<noteq> None)
     \<and> (opened c \<longrightarrow> tc_state c = TCP_ESTABLISHED \<or> tc_state c = TCP_LAST_ACK)
     \<and> (tc_state c = TCP_ESTABLISHED \<longrightarrow> opened c)
     \<and> (opened c \<longrightarrow> (app_state c \<noteq> None) = sv_on_open (the (svc c)))
     \<and> (\<not> opened c \<longrightarrow> app_state c = None)"

definition lives_on :: "tcp_conn \<Rightarrow> tcp_out list \<Rightarrow> tcp_conn \<Rightarrow> bool" where
  "lives_on c outs c' \<longleftrightarrow> life_runs (conn_life c) outs (conn_life c') \<and> conn_inv c'"

lemma life_ends_refl [simp]: "l \<in> life_ends l"
  by (simp add: life_ends_def)

lemma life_ends_trans: "m \<in> life_ends l \<Longrightarrow> k \<in> life_ends m \<Longrightarrow> k \<in> life_ends l"
  by (auto simp: life_ends_def split: life.splits if_splits)

lemma life_runs_ends: "m \<in> life_ends l \<Longrightarrow> life_runs m xs l' \<Longrightarrow> life_runs l xs l'"
  by (cases xs) (auto dest: life_ends_trans)

lemma life_runs_append: "life_runs l xs m \<Longrightarrow> life_runs m ys l' \<Longrightarrow> life_runs l (xs @ ys) l'"
proof (induction xs arbitrary: l)
  case (Cons x xs)
  then show ?case by auto
qed (auto intro: life_runs_ends)

lemma life_runs_Emit [simp]: "life_runs l (Emit s # xs) l' \<longleftrightarrow> life_runs l xs l'"
  by (auto intro: life_runs_ends)

declare life_runs.simps(2) [simp del]

lemma life_runs_quiet [simp]: "quiet outs \<Longrightarrow> life_runs l outs l"
  by (induction outs) (auto simp: quiet_def)

lemma lives_on_trans: "lives_on c o1 c' \<Longrightarrow> lives_on c' o2 c'' \<Longrightarrow> lives_on c (o1 @ o2) c''"
  by (auto simp: lives_on_def intro: life_runs_append)

lemma lives_on_Nil: "conn_inv c \<Longrightarrow> lives_on c [] c"
  by (simp add: lives_on_def)

lemma life_runs_snoc: "life_runs l xs l' \<Longrightarrow> life_runs l (xs @ [Emit s]) l'"
  using life_runs_append [of l xs l' "[Emit s]" l'] by simp

text \<open>Emitting and changes that the contract does not see extend a life.\<close>

lemma lives_on_quiet:
  "lives_on c outs c' \<Longrightarrow> quiet o2 \<Longrightarrow> conn_inv c'' \<Longrightarrow> conn_life c'' = conn_life c' \<Longrightarrow> lives_on c (outs @ o2) c''"
  by (auto simp: lives_on_def intro: life_runs_append life_runs_quiet)

lemma lives_on_Emit [simp]: "lives_on c (Emit s # outs) c' \<longleftrightarrow> lives_on c outs c'"
  by (simp add: lives_on_def)

lemma conn_inv_tx: "tx_only c c' \<Longrightarrow> conn_inv c' = conn_inv c \<and> conn_life c' = conn_life c"
  by (simp add: tx_only_def conn_inv_def conn_life_def)

lemma lives_on_tx: "conn_inv c \<Longrightarrow> quiet outs \<and> tx_only c c' \<Longrightarrow> lives_on c outs c'"
  using conn_inv_tx [of c c'] by (simp add: lives_on_def life_runs_quiet)

lemma conn_inv_wnd [simp]: "conn_inv (c\<lparr>rcv_wnd := w\<rparr>) = conn_inv c" "conn_life (c\<lparr>rcv_wnd := w\<rparr>) = conn_life c"
  using conn_inv_tx [of c "c\<lparr>rcv_wnd := w\<rparr>"] by simp_all

text \<open>Leaving through \<open>fire_close\<close> returns the state and ends idle.\<close>

definition hook_inv :: "tcp_conn \<Rightarrow> bool" where
  "hook_inv c \<longleftrightarrow> (\<exists>sv. svc c = Some sv \<and> (opened c \<longrightarrow> (app_state c \<noteq> None) = sv_on_open sv))
     \<and> (\<not> opened c \<longrightarrow> app_state c = None)"

lemma conn_inv_hook: "conn_inv c \<Longrightarrow> tc_state c \<noteq> TCP_CLOSED \<Longrightarrow> hook_inv c"
  by (auto simp: conn_inv_def hook_inv_def)

lemma fire_close_idle:
  assumes "hook_inv c" "fire_close c = (outs, c')"
  shows "life_runs (conn_life c) outs Idle" "\<not> opened c'" "svc c' = svc c" "rcv_nxt c' = rcv_nxt c"
    "tc_state c' = tc_state c" "app_state c' = None"
  using assms
  by (auto simp: fire_close_def hook_inv_def conn_life_def life_ends_def life_runs.simps(2) split: if_splits option.splits)

lemma hook_inv_updates [simp]:
  "hook_inv (c\<lparr>rcv_wnd := w\<rparr>) = hook_inv c" "hook_inv (c\<lparr>snd_nxt := n\<rparr>) = hook_inv c"
  "hook_inv (c\<lparr>rcv_nxt := n\<rparr>) = hook_inv c" "hook_inv (c\<lparr>tc_state := s\<rparr>) = hook_inv c"
  by (simp_all add: hook_inv_def)

lemma conn_life_updates [simp]:
  "conn_life (c\<lparr>snd_nxt := n\<rparr>) = conn_life c" "conn_life (c\<lparr>rcv_nxt := n\<rparr>) = conn_life c"
  "conn_life (c\<lparr>tc_state := s\<rparr>) = conn_life c" "conn_life (c\<lparr>rcv_buf_used := u\<rparr>) = conn_life c"
  by (simp_all add: conn_life_def)

lemma conn_inv_updates [simp]:
  "conn_inv (c\<lparr>snd_nxt := n\<rparr>) = conn_inv c" "conn_inv (c\<lparr>rcv_nxt := n\<rparr>) = conn_inv c"
  "conn_inv (c\<lparr>rcv_buf_used := u\<rparr>) = conn_inv c"
  by (simp_all add: conn_inv_def)

lemma conn_life_closed: "\<not> opened c \<Longrightarrow> conn_life c = Idle"
  by (simp add: conn_life_def)

lemma conn_inv_closed: "\<not> opened c \<Longrightarrow> app_state c = None \<Longrightarrow> conn_inv (c\<lparr>tc_state := TCP_CLOSED\<rparr>)"
  by (simp add: conn_inv_def)

lemma conn_inv_last_ack: "hook_inv c \<Longrightarrow> conn_inv (c\<lparr>tc_state := TCP_LAST_ACK\<rparr>)"
  by (auto simp: conn_inv_def hook_inv_def)

lemma close_lives_on:
  assumes "hook_inv c" "fire_close c = (outs, c')"
  shows "lives_on c outs (c'\<lparr>tc_state := TCP_CLOSED\<rparr>)"
  using fire_close_idle [OF assms] by (simp add: lives_on_def conn_inv_closed conn_life_closed)

lemma call_data_lives:
  assumes "conn_inv c" "tc_state c = TCP_ESTABLISHED"
  shows "lives_on c [Call_Data (svc c) (app_state c) data] c"
  using assms by (cases "app_state c"; cases "svc c") (auto simp: lives_on_def conn_life_def conn_inv_def life_ends_def life_runs.simps(2))

lemma drive_lives_on:
  assumes "conn_inv c" "tc_state c = TCP_ESTABLISHED" "drive_service_data c ans data = (outs, c', go)"
  shows "lives_on c outs c' \<and> tc_state c' \<in> (if go then {TCP_ESTABLISHED, TCP_LAST_ACK} else {TCP_CLOSED})
    \<and> rcv_nxt c' = rcv_nxt c"
proof -
  let ?call = "Call_Data (svc c) (app_state c) data"
  define sv where "sv = (if an_iov ans \<noteq> [] then let (outs, c, _) = tcp_sendv c (an_iov ans) in (outs, c) else ([], c))"
  obtain o1 c1 where sv1: "sv = (o1, c1)" by (cases sv)
  have q: "quiet o1 \<and> tx_only c c1"
    using sv1 by (auto simp: sv_def split: if_splits prod.splits dest: tcp_sendv_tx)
  have call: "lives_on c [?call] c" by (rule call_data_lives [OF assms(1,2)])
  have sent: "lives_on c (?call # o1) c1" "tc_state c1 = TCP_ESTABLISHED" "rcv_nxt c1 = rcv_nxt c" "conn_inv c1"
    using lives_on_trans [OF call lives_on_tx [OF assms(1) q]] q assms(1,2) conn_inv_tx [of c c1]
    by (simp_all add: tx_only_def)
  have hook: "hook_inv c" "hook_inv c1" using conn_inv_hook [OF assms(1)] conn_inv_hook [OF sent(4)] sent(2) assms(2) by simp_all
  obtain o2 c2 where cl: "fire_close (c\<lparr>rcv_wnd := tcp_advertised_wnd c\<rparr>) = (o2, c2)" by (cases "fire_close (c\<lparr>rcv_wnd := tcp_advertised_wnd c\<rparr>)")
  have reset: "lives_on c (?call # Emit s # o2) (c2\<lparr>tc_state := TCP_CLOSED\<rparr>)" for s
    using lives_on_trans [OF call, of "Emit s # o2" "c2\<lparr>tc_state := TCP_CLOSED\<rparr>"] close_lives_on [OF _ cl] hook
    by (simp add: lives_on_def)
  have rcv: "rcv_nxt c2 = rcv_nxt c" using fire_close_idle(4) [OF _ cl] hook by simp
  show ?thesis
  proof (cases "an_status ans")
    case PW_DISP_OUTPUT_AND_CLOSE
    have "life_runs (conn_life c) (?call # o1 @ [Emit s]) (conn_life c1)" for s
      using life_runs_snoc [of "conn_life c" "?call # o1"] sent(1) by (simp add: lives_on_def)
    with PW_DISP_OUTPUT_AND_CLOSE show ?thesis using assms(3) sent hook conn_inv_last_ack [of "c1\<lparr>rcv_wnd := tcp_advertised_wnd c1, snd_nxt := snd_nxt c1 + 1\<rparr>"]
      by (auto simp: drive_service_data_def sv_def [symmetric] sv1 emit_ctrl_def Let_def lives_on_def)
  qed (use assms sent call cl reset rcv in \<open>auto simp: drive_service_data_def sv_def [symmetric] sv1 emit_ctrl_def Let_def\<close>)
qed

lemma conn_inv_svc: "conn_inv c \<Longrightarrow> tc_state c \<noteq> TCP_CLOSED \<Longrightarrow> svc c \<noteq> None"
  by (auto simp: conn_inv_def)

lemma est_data_lives_on:
  assumes "conn_inv c" "tc_state c = TCP_ESTABLISHED" "est_data c seg ans od = (outs, c', go)"
  shows "lives_on c outs c' \<and> (go \<longrightarrow> tc_state c' \<in> {TCP_ESTABLISHED, TCP_LAST_ACK})"
proof -
  have d: "deliver c ans od p = drive_service_data c ans p" for p
    using conn_inv_svc [OF assms(1)] assms(2) by (simp add: deliver_def)
  obtain o1 c1 g1 where dr: "drive_service_data c ans (sg_payload seg) = (o1, c1, g1)"
    by (metis prod_cases3)
  have l: "lives_on c o1 c1" "g1 \<Longrightarrow> tc_state c1 \<in> {TCP_ESTABLISHED, TCP_LAST_ACK}" "conn_inv c1"
    using drive_lives_on [OF assms(1,2) dr] by (auto simp: lives_on_def)
  then have l2: "lives_on c (o1 @ [Emit s]) c2" if "conn_inv c2" "conn_life c2 = conn_life c1" for s c2
    using that by (intro lives_on_quiet) simp_all
  have l0: "lives_on c [Emit s] (c\<lparr>rcv_wnd := w\<rparr>)" for s w using assms(1) by (simp add: lives_on_def)
  show ?thesis using assms l l2 l0
    by (auto simp: est_data_def d dr emit_ctrl_def Let_def lives_on_Nil split: if_splits)
qed

lemma est_fin_lives_on:
  assumes "conn_inv c" "tc_state c \<in> {TCP_ESTABLISHED, TCP_LAST_ACK}" "est_fin c seg = (outs, c')"
  shows "lives_on c outs c'"
proof (cases "has_flag seg TCPF_FIN")
  case True
  have h: "hook_inv c" using assms(1,2) conn_inv_hook by auto
  define ca where "ca = c\<lparr>rcv_nxt := rcv_nxt c + 1, tc_state := TCP_CLOSE_WAIT\<rparr>"
  define cb where "cb = ca\<lparr>rcv_wnd := tcp_advertised_wnd ca\<rparr>"
  define c1 where "c1 = cb\<lparr>rcv_wnd := tcp_advertised_wnd cb, snd_nxt := snd_nxt cb + 1, tc_state := TCP_LAST_ACK\<rparr>"
  obtain o3 c3 where e5: "fire_close c1 = (o3, c3)" by (cases "fire_close c1")
  have e: "\<exists>s1 s2. outs = Emit s1 # Emit s2 # o3" "conn_life c1 = conn_life c" "hook_inv c1"
      "tc_state c1 = TCP_LAST_ACK" "fire_close c1 = (o3, c')"
    using assms(3) True h e5 by (auto simp: est_fin_def emit_ctrl_def Let_def c1_def cb_def ca_def)
  note f = fire_close_idle [OF e(3,5)]
  have "conn_inv c'" using f e(3,4) by (auto simp: conn_inv_def hook_inv_def)
  then show ?thesis using f e(1,2) by (auto simp: lives_on_def conn_life_closed)
qed (use assms in \<open>simp add: est_fin_def lives_on_Nil\<close>)

lemma input_established_lives_on:
  assumes "conn_inv c" "tc_state c = TCP_ESTABLISHED" "input_established c seg now ans od = (outs, c')"
  shows "lives_on c outs c'"
proof -
  obtain o1 c1 where a: "est_ack c seg now = (o1, c1)" by (cases "est_ack c seg now")
  obtain o2 c2 go where d: "est_data c1 seg ans od = (o2, c2, go)" by (metis prod_cases3)
  obtain o3 c3 where f: "est_fin c2 seg = (o3, c3)" by (cases "est_fin c2 seg")
  have la: "lives_on c o1 c1" "tc_state c1 = TCP_ESTABLISHED" "conn_inv c1"
    using lives_on_tx [OF assms(1)] est_ack_tx [OF a] assms(1,2) conn_inv_tx [of c c1] by (auto simp: tx_only_def)
  note ld = est_data_lives_on [OF la(3,2) d]
  have l2: "lives_on c (o1 @ o2) c2" "conn_inv c2" using lives_on_trans [OF la(1)] ld by (auto simp: lives_on_def)
  have l3: "go \<Longrightarrow> lives_on c ((o1 @ o2) @ o3) c3"
    using lives_on_trans [OF l2(1) est_fin_lives_on [OF l2(2) _ f]] ld by simp
  show ?thesis using assms l2 l3 unfolding input_established_def a d f
    by (auto simp: a d f emit_ctrl_def Let_def lives_on_def split: if_splits)
qed

lemma fire_open_lives_on:
  assumes "conn_inv c" "tc_state c = TCP_SYN_RECEIVED"
    "fire_open (c\<lparr>tc_state := TCP_ESTABLISHED\<rparr>) ans = (outs, c', go)"
  shows "lives_on c outs c' \<and> tc_state c' = (if go then TCP_ESTABLISHED else TCP_CLOSED)"
  using assms
  by (auto simp: fire_open_def conn_inv_def lives_on_def conn_life_def life_ends_def life_runs.simps(2) emit_ctrl_def Let_def
      split: if_splits option.splits)

lemma input_syn_received_lives_on:
  assumes "conn_inv c" "tc_state c = TCP_SYN_RECEIVED" "input_syn_received c seg now ans od = (outs, c')"
  shows "lives_on c outs c'"
proof (cases "has_flag seg TCPF_ACK \<and> sg_ack seg = snd_nxt c")
  case True
  define c0 where "c0 = rtx_on_ack (c\<lparr>snd_una := snd_nxt c\<rparr>) (snd_nxt c) now"
  have "tx_only c c0" using rtx_on_ack_tx [of "c\<lparr>snd_una := snd_nxt c\<rparr>"] by (simp add: c0_def)
  then have c0: "conn_inv c0" "conn_life c0 = conn_life c" "tc_state c0 = TCP_SYN_RECEIVED"
    using conn_inv_tx [of c c0] assms(1,2) by (simp_all add: tx_only_def)
  obtain o1 c1 g1 where op: "fire_open (c0\<lparr>tc_state := TCP_ESTABLISHED\<rparr>) ans = (o1, c1, g1)" by (metis prod_cases3)
  have l1: "lives_on c o1 c1" "tc_state c1 = (if g1 then TCP_ESTABLISHED else TCP_CLOSED)" "conn_inv c1"
    using fire_open_lives_on [OF c0(1,3) op] c0(2) by (auto simp: lives_on_def)
  obtain o2 c2 g2 where dr: "drive_service_data c1 ans (sg_payload seg) = (o2, c2, g2)" by (metis prod_cases3)
  have d: "g1 \<Longrightarrow> deliver c1 ans od (sg_payload seg) = (o2, c2, g2)"
    using conn_inv_svc [OF l1(3)] l1(2) dr by (simp add: deliver_def)
  have l2: "g1 \<Longrightarrow> lives_on c (o1 @ o2) c2"
    using lives_on_trans [OF l1(1)] drive_lives_on [OF l1(3) _ dr] l1(2) by simp
  have l3: "g1 \<Longrightarrow> life_runs (conn_life c) (o1 @ o2 @ [Emit s]) (conn_life c2)" for s
    using life_runs_snoc [of "conn_life c" "o1 @ o2"] l2 by (simp add: lives_on_def)
  show ?thesis using assms(3) True l1(1) l2 l3 unfolding input_syn_received_def
    by (auto simp: c0_def [symmetric] op d emit_ctrl_def Let_def lives_on_def split: if_splits)
next
  case False
  then show ?thesis using assms(1,3) unfolding input_syn_received_def if_not_P [OF False]
    by (simp add: lives_on_Nil)
qed

lemma conn_input_lives_on:
  assumes "conn_inv c" "tc_state c \<noteq> TCP_CLOSED" "conn_input c seg now ans od = (outs, c')"
  shows "lives_on c outs c'"
proof -
  have h: "hook_inv c" by (rule conn_inv_hook [OF assms(1,2)])
  obtain o1 c1 where f: "fire_close c = (o1, c1)" by (cases "fire_close c")
  have cl: "lives_on c o1 (c1\<lparr>tc_state := TCP_CLOSED\<rparr>)" by (rule close_lives_on [OF h f])
  have r: "lives_on c (emit_rst seg) c" using assms(1) by (simp add: emit_rst_def lives_on_def Let_def)
  show ?thesis
  proof (cases "has_flag seg TCPF_RST")
    case True
    then show ?thesis using assms cl lives_on_Nil by (auto simp: conn_input_def input_rst_def f split: if_splits)
  next
    case False
    then show ?thesis using assms cl r lives_on_Nil input_syn_received_lives_on input_established_lives_on
      by (cases "tc_state c") (auto simp: conn_input_def input_last_ack_def f split: if_splits)
  qed
qed

section \<open>Delivery of the stream\<close>

definition delivered :: "tcp_out list \<Rightarrow> bytes" where
  "delivered outs = concat (map (\<lambda>x. case x of Call_Data v a d \<Rightarrow> d | _ \<Rightarrow> []) outs)"

lemma delivered_simps [simp]:
  "delivered [] = []" "delivered (Emit s # xs) = delivered xs" "delivered (Call_Open v i a # xs) = delivered xs"
  "delivered (Call_Close v p # xs) = delivered xs" "delivered (Call_Data v a d # xs) = d @ delivered xs"
  "delivered (xs @ ys) = delivered xs @ delivered ys"
  by (simp_all add: delivered_def)

lemma delivered_quiet [simp]: "quiet outs \<Longrightarrow> delivered outs = []"
  by (induction outs) (auto simp: quiet_def)

lemma delivered_fire_close: "fire_close c = (outs, c') \<Longrightarrow> delivered outs = []"
  by (auto simp: fire_close_def split: option.splits if_splits)

lemma delivered_drive: "drive_service_data c ans data = (outs, c', go) \<Longrightarrow> delivered outs = data"
  by (auto simp: drive_service_data_def Let_def split: pw_disp_status.splits if_splits prod.splits
      dest!: delivered_quiet [OF conjunct1 [OF tcp_sendv_tx]] delivered_quiet [OF conjunct1 [OF emit_ctrl_tx]]
        delivered_fire_close)

lemma est_fin_delivers:
  "est_fin c seg = (outs, c') \<Longrightarrow> delivered outs = [] \<and>
     (tc_state c' = TCP_ESTABLISHED \<or> tc_state c' = TCP_SYN_RECEIVED \<longrightarrow> c' = c)"
  by (auto simp: est_fin_def emit_ctrl_def Let_def fire_close_def split: if_splits prod.splits option.splits)

lemma est_data_delivers:
  assumes "conn_inv c" "tc_state c = TCP_ESTABLISHED" "est_data c seg ans od = (outs, c', go)"
  shows "(delivered outs = [] \<and> (tc_state c' = TCP_ESTABLISHED \<longrightarrow> rcv_nxt c' = rcv_nxt c)
    \<or> delivered outs = sg_payload seg \<and> (tc_state c' = TCP_ESTABLISHED \<longrightarrow> rcv_nxt c' = rcv_nxt c + len32 (sg_payload seg)))
    \<and> tc_state c' \<noteq> TCP_SYN_RECEIVED"
proof -
  have d: "deliver c ans od p = drive_service_data c ans p" for p
    using conn_inv_svc [OF assms(1)] assms(2) by (simp add: deliver_def)
  obtain o1 c1 g1 where dr: "drive_service_data c ans (sg_payload seg) = (o1, c1, g1)"
    by (metis prod_cases3)
  note l = drive_lives_on [OF assms(1,2) dr] delivered_drive [OF dr]
  show ?thesis using assms l
    by (auto simp: est_data_def d dr emit_ctrl_def Let_def split: if_splits)
qed

lemma input_established_delivers:
  assumes "conn_inv c" "tc_state c = TCP_ESTABLISHED" "input_established c seg now ans od = (outs, c')"
  shows "(delivered outs = [] \<and> (tc_state c' = TCP_ESTABLISHED \<longrightarrow> rcv_nxt c' = rcv_nxt c)
    \<or> sg_seq seg = rcv_nxt c \<and> delivered outs = sg_payload seg
      \<and> (tc_state c' = TCP_ESTABLISHED \<longrightarrow> rcv_nxt c' = rcv_nxt c + len32 (sg_payload seg)))
    \<and> tc_state c' \<noteq> TCP_SYN_RECEIVED"
proof (cases "sg_seq seg = rcv_nxt c")
  case True
  obtain o1 c1 where a: "est_ack c seg now = (o1, c1)" by (cases "est_ack c seg now")
  obtain o2 c2 go where d: "est_data c1 seg ans od = (o2, c2, go)" by (metis prod_cases3)
  obtain o3 c3 where f: "est_fin c2 seg = (o3, c3)" by (cases "est_fin c2 seg")
  have la: "quiet o1" "tc_state c1 = TCP_ESTABLISHED" "conn_inv c1" "rcv_nxt c1 = rcv_nxt c"
    using est_ack_tx [OF a] assms(1,2) conn_inv_tx [of c c1] by (auto simp: tx_only_def)
  note ld = est_data_delivers [OF la(3,2) d] and lf = est_fin_delivers [OF f]
  have e: "outs = (if go then o1 @ o2 @ o3 else o1 @ o2)" "c' = (if go then c3 else c2)"
    using assms(3) True by (auto simp: input_established_def a d f split: if_splits)
  show ?thesis using True ld lf la(1,4) unfolding e by auto
next
  case False
  then have "sint (sg_seq seg - rcv_nxt c) \<noteq> 0" by (simp add: signed_eq_0_iff)
  then show ?thesis using assms by (auto simp: input_established_def emit_ctrl_def Let_def)
qed

text \<open>A connection between the inbound segments and the calls of the application.\<close>

datatype conn_event =
  Ev_Segment tcp_seg u64 svc_answers
| Ev_Send bytes u64
| Ev_Consumed u32
| Ev_Cap u32
| Ev_Tick u64

fun conn_step :: "tcp_conn \<Rightarrow> conn_event \<Rightarrow> tcp_out list \<times> tcp_conn" where
  "conn_step c (Ev_Segment seg now ans) =
     (if tc_state c = TCP_CLOSED then ([], c) else conn_input c seg now ans None)"
| "conn_step c (Ev_Send data now) = (let (outs, c', r) = tcp_send_at c data now in (outs, c'))"
| "conn_step c (Ev_Consumed n) = tcp_rcv_consumed c n"
| "conn_step c (Ev_Cap n) = ([], tcp_set_rcv_buf_cap c n)"
| "conn_step c (Ev_Tick now) = tick_conn now c"

primrec conn_run :: "tcp_conn \<Rightarrow> conn_event list \<Rightarrow> tcp_out list \<times> tcp_conn" where
  "conn_run c [] = ([], c)"
| "conn_run c (e # es) = (let (o1, c1) = conn_step c e; (o2, c2) = conn_run c1 es in (o1 @ o2, c2))"

lemma inv_of_buffer:
  "conn_inv (c\<lparr>rcv_buf_used := u, rcv_wnd := w\<rparr>) = conn_inv c" "conn_life (c\<lparr>rcv_buf_used := u, rcv_wnd := w\<rparr>) = conn_life c"
  by (simp_all add: conn_inv_def conn_life_def)

lemma consumed_inv:
  "tcp_rcv_consumed c n = (outs, c') \<Longrightarrow> quiet outs \<and> tc_state c' = tc_state c \<and> rcv_nxt c' = rcv_nxt c
     \<and> conn_inv c' = conn_inv c \<and> conn_life c' = conn_life c"
  by (cases "n = 0"; simp only: tcp_rcv_consumed_def Let_def if_True if_False simp_thms prod.inject; elim conjE; hypsubst;
      simp add: inv_of_buffer)

lemma cap_inv:
  "tc_state (tcp_set_rcv_buf_cap c n) = tc_state c \<and> rcv_nxt (tcp_set_rcv_buf_cap c n) = rcv_nxt c
     \<and> conn_inv (tcp_set_rcv_buf_cap c n) = conn_inv c \<and> conn_life (tcp_set_rcv_buf_cap c n) = conn_life c"
  by (simp add: tcp_set_rcv_buf_cap_def Let_def conn_inv_def conn_life_def)

lemma conn_step_lives_on:
  assumes "conn_inv c" "conn_step c e = (outs, c')"
  shows "lives_on c outs c'"
proof (cases e)
  case (Ev_Segment seg now ans)
  then show ?thesis using assms conn_input_lives_on lives_on_Nil by (auto split: if_splits)
next
  case (Ev_Send data now)
  then show ?thesis using assms by (auto split: prod.splits dest: tcp_send_at_tx intro: lives_on_tx)
next
  case (Ev_Consumed n)
  then show ?thesis using assms consumed_inv [of c n outs c'] by (simp add: lives_on_def)
next
  case (Ev_Cap n)
  then show ?thesis using assms cap_inv [of c n] by (auto simp: lives_on_def)
next
  case (Ev_Tick now)
  then show ?thesis using assms by (auto dest: tick_conn_tx intro: lives_on_tx)
qed

lemma rst_delivers:
  assumes "input_rst c seg = (outs, c')"
  shows "delivered outs = [] \<and> (c' = c \<or> tc_state c' = TCP_CLOSED)"
  using assms by (auto simp: input_rst_def split: if_splits prod.splits dest: delivered_fire_close)

lemma last_ack_delivers:
  assumes "input_last_ack c seg = (outs, c')"
  shows "delivered outs = [] \<and> (c' = c \<or> tc_state c' = TCP_CLOSED)"
  using assms by (auto simp: input_last_ack_def split: if_splits prod.splits dest: delivered_fire_close)

text \<open>
  The peer's segments carry pieces of one byte stream \<open>S\<close> whose first byte has number \<open>base\<close>.
\<close>

fun carries :: "bytes \<Rightarrow> u32 \<Rightarrow> conn_event \<Rightarrow> bool" where
  "carries S base (Ev_Segment seg now ans) =
     (\<exists>off\<in>{..length S}. sg_seq seg = base + word_of_nat off
        \<and> sg_payload seg = take (length (sg_payload seg)) (drop off S))"
| "carries S base (Ev_Send data now) = True"
| "carries S base (Ev_Consumed n) = True"
| "carries S base (Ev_Cap n) = True"
| "carries S base (Ev_Tick now) = True"

definition received :: "bytes \<Rightarrow> u32 \<Rightarrow> tcp_conn \<Rightarrow> nat \<Rightarrow> bool" where
  "received S base c n \<longleftrightarrow> conn_inv c \<and> n \<le> length S \<and> tc_state c \<noteq> TCP_SYN_RECEIVED
     \<and> (tc_state c = TCP_ESTABLISHED \<longrightarrow> rcv_nxt c = base + word_of_nat n)"

lemma received_keep:
  assumes "received S base c n" "conn_inv c'" "tc_state c' = tc_state c" "rcv_nxt c' = rcv_nxt c"
  shows "received S base c' n"
  using assms by (simp add: received_def)

lemma received_input:
  assumes "received S base c n" "tc_state c \<noteq> TCP_CLOSED" "carries S base (Ev_Segment seg now ans)" "length S < 2 ^ 32"
    "conn_input c seg now ans None = (outs, c')"
  shows "\<exists>m\<ge>n. delivered outs = take (m - n) (drop n S) \<and> received S base c' m"
proof -
  have ci: "conn_inv c" and n: "n \<le> length S" using assms(1) by (simp_all add: received_def)
  have ci': "conn_inv c'" using conn_input_lives_on [OF ci assms(2,5)] by (simp add: lives_on_def)
  have same: ?thesis if "delivered outs = []" "tc_state c' \<noteq> TCP_SYN_RECEIVED"
    "tc_state c' = TCP_ESTABLISHED \<Longrightarrow> rcv_nxt c' = rcv_nxt c \<and> tc_state c = TCP_ESTABLISHED"
    using that ci' n assms(1) by (auto simp: received_def intro!: exI [of _ n])
  have st: "tc_state c \<noteq> TCP_SYN_RECEIVED" using assms(1) by (simp add: received_def)
  consider (rst) "has_flag seg TCPF_RST" | (est) "\<not> has_flag seg TCPF_RST" "tc_state c = TCP_ESTABLISHED"
    | (other) "\<not> has_flag seg TCPF_RST" "tc_state c \<noteq> TCP_ESTABLISHED" by blast
  then show ?thesis
  proof cases
    case rst
    then have "input_rst c seg = (outs, c')" using assms(5) by (simp add: conn_input_def)
    from rst_delivers [OF this] show ?thesis using st by (intro same) auto
  next
    case other
    then have "input_last_ack c seg = (outs, c') \<or> outs = emit_rst seg \<and> c' = c"
      using assms(2,5) st by (cases "tc_state c") (simp_all add: conn_input_def)
    then have "delivered outs = [] \<and> (c' = c \<or> tc_state c' = TCP_CLOSED)"
      using last_ack_delivers by (auto simp: emit_rst_def Let_def)
    then show ?thesis using st by (intro same) auto
  next
    case est
    let ?p = "sg_payload seg"
    have e: "input_established c seg now ans None = (outs, c')" using est assms(5) by (simp add: conn_input_def)
    have c: "rcv_nxt c = base + word_of_nat n" using assms(1) est by (simp add: received_def)
    show ?thesis
    proof (cases "delivered outs = [] \<and> (tc_state c' = TCP_ESTABLISHED \<longrightarrow> rcv_nxt c' = rcv_nxt c)")
      case True
      then show ?thesis using input_established_delivers [OF ci est(2) e] est(2) by (intro same) auto
    next
      case False
      then have d: "sg_seq seg = rcv_nxt c" "delivered outs = ?p" "tc_state c' \<noteq> TCP_SYN_RECEIVED"
        "tc_state c' = TCP_ESTABLISHED \<Longrightarrow> rcv_nxt c' = rcv_nxt c + len32 ?p"
        using input_established_delivers [OF ci est(2) e] by auto
      obtain off where off: "off \<le> length S" "sg_seq seg = base + word_of_nat off" "?p = take (length ?p) (drop off S)"
        using assms(3) by auto
      have "(word_of_nat off :: u32) = word_of_nat n" using off(2) d(1) c by simp
      then have "off = n" using off(1) n assms(4) by (simp add: word_of_nat_eq_iff take_bit_eq_mod)
      then have p: "?p = take (length ?p) (drop n S)" using off(3) by simp
      then have "length ?p \<le> length S - n" by (metis length_drop length_take min.cobounded1)
      then show ?thesis using d p n ci' c by (intro exI [of _ "n + length ?p"]) (simp add: received_def)
    qed
  qed
qed

lemma received_step:
  assumes "received S base c n" "carries S base e" "length S < 2 ^ 32" "conn_step c e = (outs, c')"
  shows "\<exists>m\<ge>n. delivered outs = take (m - n) (drop n S) \<and> received S base c' m"
proof -
  have ci: "conn_inv c" using assms(1) by (simp add: received_def)
  have ci': "conn_inv c'" using conn_step_lives_on [OF ci assms(4)] by (simp add: lives_on_def)
  have keep: ?thesis if "quiet outs" "tc_state c' = tc_state c" "rcv_nxt c' = rcv_nxt c"
    using that received_keep [OF assms(1) ci'] by (intro exI [of _ n]) simp
  show ?thesis
  proof (cases e)
    case (Ev_Segment seg now ans)
    then show ?thesis using received_input [OF assms(1) _ _ assms(3)] assms(2,4) keep
      by (auto split: if_splits)
  next
    case (Ev_Send data now)
    then show ?thesis using assms(4) by (intro keep) (auto simp: tx_only_def split: prod.splits dest: tcp_send_at_tx)
  next
    case (Ev_Consumed n)
    then show ?thesis using assms(4) consumed_inv [of c n outs c'] by (intro keep) auto
  next
    case (Ev_Cap n)
    then show ?thesis using assms(4) cap_inv [of c n] by (intro keep) auto
  next
    case (Ev_Tick now)
    then show ?thesis using assms(4) by (intro keep) (auto simp: tx_only_def dest: tick_conn_tx)
  qed
qed

lemma received_run:
  assumes "received S base c n" "list_all (carries S base) es" "length S < 2 ^ 32" "conn_run c es = (outs, c')"
  shows "\<exists>m\<ge>n. delivered outs = take (m - n) (drop n S) \<and> received S base c' m"
  using assms
proof (induction es arbitrary: c n outs)
  case Nil
  then show ?case by (auto intro!: exI [of _ n])
next
  case (Cons e es)
  obtain o1 c1 where s: "conn_step c e = (o1, c1)" by (cases "conn_step c e")
  obtain o2 where r: "conn_run c1 es = (o2, c')" "outs = o1 @ o2"
    using Cons.prems(4) s by (auto split: prod.splits)
  obtain k where k: "n \<le> k" "delivered o1 = take (k - n) (drop n S)" "received S base c1 k"
    using received_step [OF Cons.prems(1) _ _ s] Cons.prems(2,3) by auto
  obtain m where m: "k \<le> m" "delivered o2 = take (m - k) (drop k S)" "received S base c' m"
    using Cons.IH [OF k(3) _ _ r(1)] Cons.prems(2,3) by auto
  have "delivered outs = take (k - n) (drop n S) @ take (m - k) (drop (k - n) (drop n S))"
    using k(1,2) m(2) r(2) by simp
  also have "\<dots> = take (m - n) (drop n S)"
    using k(1) m(1) take_add [of "k - n" "m - k" "drop n S"] by (simp add: add.commute)
  finally show ?case using k(1) m(1,3) by (intro exI [of _ m]) simp
qed

section \<open>Segmentation\<close>

text \<open>
  The segments of a byte string, built by \<open>mk\<close>: consecutive, at most \<open>TCP_MSS\<close> bytes each, pushed
  at the end.
\<close>

function segments :: "(u32 \<Rightarrow> byte \<Rightarrow> bytes \<Rightarrow> tcp_seg) \<Rightarrow> u32 \<Rightarrow> bytes \<Rightarrow> tcp_seg list" where
  "segments mk sq data =
     (if data = [] then []
      else mk sq (TCPF_ACK OR (if drop TCP_MSS data = [] then TCPF_PSH else 0)) (take TCP_MSS data)
           # segments mk (sq + len32 (take TCP_MSS data)) (drop TCP_MSS data))"
  by pat_completeness auto
termination
  by (relation "measure (\<lambda>(mk, sq, data). length data)") (auto simp: TCP_MSS_def)

declare segments.simps [simp del]

definition rtx_of :: "u64 \<Rightarrow> tcp_seg \<Rightarrow> tcp_rtx_entry" where
  "rtx_of now s = \<lparr>rx_seq = sg_seq s, rx_len = len32 (sg_payload s), rx_payload = sg_payload s,
     rx_flags = sg_flags s, rx_retrans = False, rx_tx_time_ms = now\<rparr>"

lemma adv_wnd_updates [simp]:
  "tcp_advertised_wnd (c\<lparr>rcv_wnd := w\<rparr>) = tcp_advertised_wnd c"
  "tcp_advertised_wnd (c\<lparr>rtx := q\<rparr>) = tcp_advertised_wnd c"
  "tcp_advertised_wnd (c\<lparr>snd_nxt := n\<rparr>) = tcp_advertised_wnd c"
  "tcp_advertised_wnd (c\<lparr>rto_ms := r\<rparr>) = tcp_advertised_wnd c"
  by (simp_all add: tcp_advertised_wnd_def)

lemma conn_seg_updates [simp]:
  "conn_seg (c\<lparr>rtx := q\<rparr>) = conn_seg c" "conn_seg (c\<lparr>snd_nxt := n\<rparr>) = conn_seg c"
  "conn_seg (c\<lparr>rto_ms := r\<rparr>) = conn_seg c"
  by (simp_all add: conn_seg_def fun_eq_iff)

lemma segments_Nil [simp]: "segments mk sq [] = []"
  by (simp add: segments.simps)

lemma segments_Cons:
  "data \<noteq> [] \<Longrightarrow> segments mk sq data =
     mk sq (TCPF_ACK OR (if drop TCP_MSS data = [] then TCPF_PSH else 0)) (take TCP_MSS data)
     # segments mk (sq + len32 (take TCP_MSS data)) (drop TCP_MSS data)"
  by (simp add: segments.simps [of mk sq data])

definition sent_conn :: "u64 \<Rightarrow> bytes \<Rightarrow> tcp_conn \<Rightarrow> tcp_conn" where
  "sent_conn now data c =
     (let cw = c\<lparr>rcv_wnd := tcp_advertised_wnd c\<rparr> in
      if data = [] then c
      else cw\<lparr>snd_nxt := snd_nxt c + len32 data,
             rtx := rtx c @ (if now = 0 then [] else map (rtx_of now) (segments (conn_seg cw) (snd_nxt c) data))\<rparr>)"

lemma len32_take_drop: "len32 (take n xs) + len32 (drop n xs) = len32 xs"
  by (metis append_take_drop_id length_append of_nat_add)

lemma rtx_of_seg:
  "\<lparr>rx_seq = s, rx_len = len32 p, rx_payload = p, rx_flags = f, rx_retrans = False, rx_tx_time_ms = now\<rparr>
     = rtx_of now (conn_seg c s f p)"
  by (simp add: rtx_of_def conn_seg_def)

lemma send_loop_segments:
  assumes "now = 0 \<or> length (rtx c) + length (segments (conn_seg (c\<lparr>rcv_wnd := tcp_advertised_wnd c\<rparr>)) (snd_nxt c) data) \<le> TCP_RTX_QUEUE_MAX"
  shows "send_loop now data c =
    (map Emit (segments (conn_seg (c\<lparr>rcv_wnd := tcp_advertised_wnd c\<rparr>)) (snd_nxt c) data), sent_conn now data c, True)"
  using assms
proof (induction now data c rule: send_loop.induct)
  case (1 now data c)
  define cw where "cw = c\<lparr>rcv_wnd := tcp_advertised_wnd c\<rparr>"
  define fl where "fl = (TCPF_ACK OR (if drop TCP_MSS data = [] then TCPF_PSH else 0))"
  define ch where "ch = take TCP_MSS data"
  define c2 where "c2 = (if now = 0 then cw else cw\<lparr>rtx := rtx c @ [rtx_of now (conn_seg cw (snd_nxt c) fl ch)]\<rparr>)"
  define c3 where "c3 = c2\<lparr>snd_nxt := snd_nxt c2 + len32 ch\<rparr>"
  show ?case
  proof (cases "data = []")
    case True
    then show ?thesis by (simp add: send_loop.simps sent_conn_def)
  next
    case False
    note sg = segments_Cons [OF False, of "conn_seg cw" "snd_nxt c", folded fl_def ch_def]
    have cw_snd: "snd_nxt cw = snd_nxt c" by (simp add: cw_def)
    have room: "now = 0 \<or> length (rtx c) + length (segments (conn_seg cw) (snd_nxt c + len32 ch) (drop TCP_MSS data)) < TCP_RTX_QUEUE_MAX"
      using "1.prems" sg by (auto simp: cw_def)
    then have q: "(if now \<noteq> 0 then rtx_enqueue cw (snd_nxt cw) ch fl now else Some cw) = Some c2"
      by (auto simp: rtx_enqueue_def c2_def cw_def rtx_of_seg [of _ _ _ _ "c\<lparr>rcv_wnd := tcp_advertised_wnd c\<rparr>"])
    have c3: "snd_nxt c3 = snd_nxt c + len32 ch" "conn_seg (c3\<lparr>rcv_wnd := tcp_advertised_wnd c3\<rparr>) = conn_seg cw"
      "rtx c3 = rtx c @ (if now = 0 then [] else [rtx_of now (conn_seg cw (snd_nxt c) fl ch)])"
      by (auto simp: c3_def c2_def cw_def conn_seg_def fun_eq_iff)
    have room3: "now = 0 \<or> length (rtx c3) + length (segments (conn_seg (c3\<lparr>rcv_wnd := tcp_advertised_wnd c3\<rparr>)) (snd_nxt c3) (drop TCP_MSS data)) \<le> TCP_RTX_QUEUE_MAX"
      using room unfolding c3 by auto
    have ih: "send_loop now (drop TCP_MSS data) c3 =
        (map Emit (segments (conn_seg (c3\<lparr>rcv_wnd := tcp_advertised_wnd c3\<rparr>)) (snd_nxt c3) (drop TCP_MSS data)),
         sent_conn now (drop TCP_MSS data) c3, True)"
      unfolding c3_def ch_def
      by (rule "1.IH" [OF False refl refl refl refl refl q [unfolded cw_def ch_def fl_def] room3 [unfolded c3_def ch_def]])
    have snd2: "snd_nxt c + len32 ch + len32 (drop TCP_MSS data) = snd_nxt c + len32 data"
      using len32_take_drop [of TCP_MSS data] by (simp add: ch_def add.assoc)
    have fin: "sent_conn now (drop TCP_MSS data) c3 = sent_conn now data c"
    proof (cases "drop TCP_MSS data = []")
      case True
      then show ?thesis using False snd2 sg
        by (simp add: sent_conn_def Let_def cw_def [symmetric]) (simp add: c3_def c2_def cw_def)
    next
      case rest: False
      have w: "c3\<lparr>rcv_wnd := tcp_advertised_wnd c3\<rparr> = c3" by (simp add: c3_def c2_def cw_def)
      have sg3: "segments (conn_seg c3) (snd_nxt c3) (drop TCP_MSS data) = segments (conn_seg cw) (snd_nxt c + len32 ch) (drop TCP_MSS data)"
        using c3(1,2) w by simp
      show ?thesis using False rest snd2
        by (simp add: sent_conn_def Let_def w sg3 cw_def [symmetric] sg)
          (simp add: c3(1,3), simp add: c3_def c2_def cw_def)
    qed
    show ?thesis using q ih [unfolded c3(1,2)] fin False sg cw_snd
      unfolding send_loop.simps [of now data c] ch_def [symmetric] cw_def [symmetric] fl_def [symmetric] Let_def
      by (simp add: c3_def [symmetric])
  qed
qed

lemma send_loop_full:
  assumes "send_loop now data c = (outs, c', ok)" "now \<noteq> 0" "length (rtx c) \<le> TCP_RTX_QUEUE_MAX"
    "TCP_RTX_QUEUE_MAX < length (rtx c) + length (segments mk sq data)"
  shows "\<not> ok \<and> length outs = Suc (TCP_RTX_QUEUE_MAX - length (rtx c)) \<and> length (rtx c') = TCP_RTX_QUEUE_MAX
    \<and> snd_nxt c' = snd_nxt c + word_of_nat ((length outs - 1) * TCP_MSS)"
  using assms
proof (induction "TCP_RTX_QUEUE_MAX - length (rtx c)" arbitrary: data c sq outs)
  case 0
  then have "data \<noteq> []" "length (rtx c) = TCP_RTX_QUEUE_MAX" by auto
  then show ?case using 0 by (auto simp: send_loop.simps [of _ data] Let_def rtx_enqueue_def)
next
  case (Suc k)
  have d: "data \<noteq> []" using Suc.prems(3,4) by auto
  have more: "TCP_MSS < length data"
  proof (rule ccontr)
    assume "\<not> TCP_MSS < length data"
    then have "length (segments mk sq data) = 1" using d by (simp add: segments_Cons)
    then show False using Suc.prems(4) Suc.hyps(2) by simp
  qed
  let ?e = "\<lparr>rx_seq = snd_nxt c, rx_len = len32 (take TCP_MSS data), rx_payload = take TCP_MSS data,
                    rx_flags = TCPF_ACK, rx_retrans = False, rx_tx_time_ms = now\<rparr>"
  define c2 where "c2 = c\<lparr>rcv_wnd := tcp_advertised_wnd c, rtx := rtx c @ [?e], snd_nxt := snd_nxt c + len32 (take TCP_MSS data)\<rparr>"
  obtain o2 c3 ok2 where r: "send_loop now (drop TCP_MSS data) c2 = (o2, c3, ok2)" by (metis prod_cases3)
  have lt: "length (rtx c) < TCP_RTX_QUEUE_MAX" using Suc.hyps(2) by simp
  have e: "\<exists>x. outs = x # o2" "c' = c3" "ok = ok2"
    using Suc.prems(1,2) lt d more r
    by (auto simp: send_loop.simps [of _ data] Let_def rtx_enqueue_def c2_def)
  have "\<not> ok2 \<and> length o2 = Suc (TCP_RTX_QUEUE_MAX - length (rtx c2)) \<and> length (rtx c3) = TCP_RTX_QUEUE_MAX
    \<and> snd_nxt c3 = snd_nxt c2 + word_of_nat ((length o2 - 1) * TCP_MSS)"
    using Suc.hyps(1) [of c2 "drop TCP_MSS data" o2 "sq + len32 (take TCP_MSS data)"] r e(2,3) Suc.hyps(2) Suc.prems(2,4)
    by (simp add: c2_def segments_Cons [OF d])
  then show ?case using e more Suc.hyps(2) by (auto simp: c2_def algebra_simps)
qed

text \<open>A constructor that puts its arguments into the segment.\<close>

definition plain_mk :: "(u32 \<Rightarrow> byte \<Rightarrow> bytes \<Rightarrow> tcp_seg) \<Rightarrow> bool" where
  "plain_mk mk \<longleftrightarrow> (\<forall>s f p. sg_seq (mk s f p) = s \<and> sg_flags (mk s f p) = f \<and> sg_payload (mk s f p) = p)"

lemma plain_conn_seg [simp]: "plain_mk (conn_seg c)"
  by (simp add: plain_mk_def conn_seg_def)

lemma segments_concat: "plain_mk mk \<Longrightarrow> concat (map sg_payload (segments mk sq data)) = data"
proof (induction mk sq data rule: segments.induct)
  case (1 mk sq data)
  then show ?case by (cases "data = []") (simp_all add: segments_Cons plain_mk_def)
qed

lemma segments_sizes:
  "plain_mk mk \<Longrightarrow> s \<in> set (segments mk sq data) \<Longrightarrow> 0 < length (sg_payload s) \<and> length (sg_payload s) \<le> TCP_MSS"
proof (induction mk sq data rule: segments.induct)
  case (1 mk sq data)
  then show ?case by (cases "data = []") (auto simp: segments_Cons plain_mk_def TCP_MSS_def)
qed

lemma segments_nth:
  "plain_mk mk \<Longrightarrow> i < length (segments mk sq data) \<Longrightarrow>
     sg_seq (segments mk sq data ! i) = sq + word_of_nat (i * TCP_MSS)
     \<and> sg_flags (segments mk sq data ! i) = TCPF_ACK OR (if Suc i = length (segments mk sq data) then TCPF_PSH else 0)"
proof (induction mk sq data arbitrary: i rule: segments.induct)
  case (1 mk sq data)
  have d: "data \<noteq> []" using "1.prems"(2) by auto
  show ?case
  proof (cases "drop TCP_MSS data = []")
    case True
    then show ?thesis using "1.prems" d by (simp add: segments_Cons plain_mk_def)
  next
    case rest: False
    then have len: "len32 (take TCP_MSS data) = word_of_nat TCP_MSS" by simp
    have "segments mk (sq + len32 (take TCP_MSS data)) (drop TCP_MSS data) \<noteq> []" using rest by (simp add: segments_Cons)
    then show ?thesis
      using "1.prems" "1.IH" [OF d "1.prems"(1), of "i - 1"] rest len
      by (cases i) (auto simp: segments_Cons [OF d] plain_mk_def algebra_simps)
  qed
qed

lemma flight_append:
  "foldl (\<lambda>sum e. sum + rx_len e) a (map (rtx_of now) segs) = a + len32 (concat (map sg_payload segs))"
  by (induction segs rule: rev_induct) (simp_all add: rtx_of_def)

section \<open>Bounds of the retransmission state\<close>

definition rto_ok :: "u32 \<Rightarrow> bool" where
  "rto_ok r \<longleftrightarrow> TCP_RTO_MIN_MS \<le> r \<and> r \<le> TCP_RTO_MAX_MS"

definition timer_inv :: "tcp_conn \<Rightarrow> bool" where
  "timer_inv c \<longleftrightarrow> length (rtx c) \<le> TCP_RTX_QUEUE_MAX \<and> (rto_ok (rto_ms c) \<or> rto_ms c = 0 \<and> rtx c = [])"

lemma timer_inv_updates [simp]:
  "timer_inv (c\<lparr>rcv_wnd := w\<rparr>) = timer_inv c" "timer_inv (c\<lparr>snd_nxt := n\<rparr>) = timer_inv c"
  "timer_inv (c\<lparr>rcv_nxt := n\<rparr>) = timer_inv c" "timer_inv (c\<lparr>tc_state := s\<rparr>) = timer_inv c"
  "timer_inv (c\<lparr>snd_una := n\<rparr>) = timer_inv c" "timer_inv (c\<lparr>snd_wnd := n\<rparr>) = timer_inv c"
  "timer_inv (c\<lparr>rcv_buf_used := n\<rparr>) = timer_inv c" "timer_inv (c\<lparr>app_state := a\<rparr>) = timer_inv c"
  "timer_inv (c\<lparr>opened := b\<rparr>) = timer_inv c" "timer_inv (c\<lparr>dupack_n := n\<rparr>) = timer_inv c"
  by (simp_all add: timer_inv_def)

lemma clamp_rto_ok [simp]: "rto_ok (clamp_rto r)"
  by (auto simp: rto_ok_def clamp_rto_def TCP_RTO_MIN_MS_def TCP_RTO_MAX_MS_def word_le_nat_alt word_less_nat_alt Let_def)

lemma rtt_sample_timer: "rtx (rtt_sample c r) = rtx c \<and> rto_ok (rto_ms (rtt_sample c r))"
  by (simp add: rtt_sample_def Let_def)

lemma rtx_scan_timer:
  "rtx_scan es a now c = (kept, c') \<Longrightarrow> length kept \<le> length es \<and> (es = [] \<longrightarrow> kept = [])
     \<and> (rto_ok (rto_ms c') \<or> rto_ms c' = rto_ms c)"
proof (induction es arbitrary: c kept)
  case (Cons e es)
  show ?case
  proof (cases "sint (a - (rx_seq e + rx_len e)) < 0")
    case True
    then show ?thesis using Cons by (auto split: prod.splits)
  next
    case False
    then show ?thesis using Cons.prems Cons.IH rtt_sample_timer by (fastforce split: if_splits)
  qed
qed auto

lemma rtx_on_ack_timer: "timer_inv c \<Longrightarrow> timer_inv (rtx_on_ack c a now)"
  by (auto simp: timer_inv_def rtx_on_ack_def split: prod.split dest!: rtx_scan_timer)

lemma cc_on_new_ack_timer: "timer_inv (cc_on_new_ack c n) = timer_inv c"
  by (simp add: timer_inv_def cc_on_new_ack_def Let_def)

lemma cc_on_dupack_timer: "timer_inv c \<Longrightarrow> cc_on_dupack c = (outs, c') \<Longrightarrow> timer_inv c'"
  by (auto simp: timer_inv_def cc_on_dupack_def Let_def split: if_splits list.splits)

lemma double_rto_ok:
  assumes "rto_ok r"
  shows "rto_ok (ucast (let d = (ucast r :: u64) * 2 in if d > ucast TCP_RTO_MAX_MS then ucast TCP_RTO_MAX_MS else d))"
proof -
  have r: "200 \<le> unat r" "unat r \<le> 60000"
    using assms by (simp_all add: rto_ok_def TCP_RTO_MIN_MS_def TCP_RTO_MAX_MS_def word_le_nat_alt)
  then have "unat ((ucast r :: u64) * 2) = 2 * unat r" by (simp add: unat_word_ariths unsigned_ucast_eq take_bit_eq_mod)
  then show ?thesis using r
    by (auto simp: rto_ok_def TCP_RTO_MIN_MS_def TCP_RTO_MAX_MS_def word_le_nat_alt word_less_nat_alt Let_def
        unsigned_ucast_eq take_bit_eq_mod)
qed

lemma tick_conn_timer: "timer_inv c \<Longrightarrow> tick_conn now c = (outs, c') \<Longrightarrow> timer_inv c'"
  using double_rto_ok [of "rto_ms c"]
  by (auto simp: timer_inv_def tick_conn_def cc_on_rto_def Let_def split: if_splits list.splits)

lemma send_loop_stepE:
  assumes "send_loop now data c = (outs, c', ok)" "data \<noteq> []"
  obtains (full) "c' = c\<lparr>rcv_wnd := tcp_advertised_wnd c\<rparr>"
  | (more) o2 q where "send_loop now (drop TCP_MSS data)
        (c\<lparr>rcv_wnd := tcp_advertised_wnd c, rtx := q, snd_nxt := snd_nxt c + len32 (take TCP_MSS data)\<rparr>) = (o2, c', ok)"
      "q = rtx c \<or> length (rtx c) < TCP_RTX_QUEUE_MAX \<and> length q = Suc (length (rtx c))"
proof (cases "now = 0 \<or> length (rtx c) < TCP_RTX_QUEUE_MAX")
  case False
  then show ?thesis using assms full by (simp add: send_loop.simps [of now data] rtx_enqueue_def Let_def)
next
  case True
  define q where "q = (if now = 0 then rtx c else rtx c @ [rtx_of now (conn_seg c (snd_nxt c)
     (TCPF_ACK OR (if drop TCP_MSS data = [] then TCPF_PSH else 0)) (take TCP_MSS data))])"
  have "\<exists>o2. send_loop now (drop TCP_MSS data)
        (c\<lparr>rcv_wnd := tcp_advertised_wnd c, rtx := q, snd_nxt := snd_nxt c + len32 (take TCP_MSS data)\<rparr>) = (o2, c', ok)"
    using assms True
    by (auto simp: send_loop.simps [of now data] rtx_enqueue_def Let_def q_def rtx_of_def conn_seg_def split: if_splits prod.splits)
  then show ?thesis using more [of q] True by (auto simp: q_def)
qed

lemma send_loop_timer:
  "send_loop now data c = (outs, c', ok) \<Longrightarrow> length (rtx c) \<le> TCP_RTX_QUEUE_MAX \<Longrightarrow>
     length (rtx c') \<le> TCP_RTX_QUEUE_MAX \<and> rto_ms c' = rto_ms c"
proof (induction "length data" arbitrary: data c outs rule: less_induct)
  case less
  show ?case
  proof (cases "data = []")
    case True
    then show ?thesis using less.prems by (simp add: send_loop.simps)
  next
    case False
    have shorter: "length (drop TCP_MSS data) < length data" using False by (simp add: TCP_MSS_def)
    from less.prems(1) False show ?thesis
      by (cases rule: send_loop_stepE) (use less.prems(2) less.hyps [OF shorter] in fastforce)+
  qed
qed

lemma tcp_send_at_timer: "timer_inv c \<Longrightarrow> tcp_send_at c data now = (outs, c', r) \<Longrightarrow> timer_inv c'"
  by (auto simp: timer_inv_def tcp_send_at_def Let_def rto_ok_def TCP_RTO_INIT_MS_def TCP_RTO_MIN_MS_def
      TCP_RTO_MAX_MS_def word_le_nat_alt split: if_splits prod.splits dest!: send_loop_timer)

lemma tcp_sendv_timer: "timer_inv c \<Longrightarrow> tcp_sendv c iov = (outs, c', r) \<Longrightarrow> timer_inv c'"
  by (auto simp: tcp_sendv_def tcp_send_def Let_def split: if_splits list.splits dest: tcp_send_at_timer)

lemma fire_close_timer: "fire_close c = (outs, c') \<Longrightarrow> timer_inv c' = timer_inv c"
  by (auto simp: fire_close_def split: option.splits if_splits)

lemma fire_open_timer: "fire_open c ans = (outs, c', go) \<Longrightarrow> timer_inv c' = timer_inv c"
  by (auto simp: fire_open_def emit_ctrl_def Let_def split: option.splits if_splits)

lemma drive_timer: "timer_inv c \<Longrightarrow> drive_service_data c ans data = (outs, c', go) \<Longrightarrow> timer_inv c'"
  by (auto simp: drive_service_data_def emit_ctrl_def Let_def split: pw_disp_status.splits if_splits prod.splits
      dest: tcp_sendv_timer dest!: fire_close_timer)

lemma est_ack_timer: "timer_inv c \<Longrightarrow> est_ack c seg now = (outs, c') \<Longrightarrow> timer_inv c'"
  by (auto simp: est_ack_def Let_def cc_on_new_ack_timer split: if_splits intro!: rtx_on_ack_timer
      dest: cc_on_dupack_timer [rotated])

lemma est_data_timer:
  assumes "timer_inv c" "svc c \<noteq> None" "est_data c seg ans od = (outs, c', go)"
  shows "timer_inv c'"
  using assms by (auto simp: est_data_def deliver_def emit_ctrl_def Let_def split: if_splits prod.splits dest: drive_timer)

lemma est_fin_timer: "est_fin c seg = (outs, c') \<Longrightarrow> timer_inv c' = timer_inv c"
  by (auto simp: est_fin_def emit_ctrl_def Let_def split: if_splits prod.splits dest!: fire_close_timer)

lemma conn_input_timer:
  assumes "timer_inv c" "svc c \<noteq> None" "conn_input c seg now ans od = (outs, c')"
  shows "timer_inv c'"
proof -
  have est: "timer_inv c''" if "input_established c seg now ans od = (os, c'')" for os c''
  proof -
    obtain o1 c1 where a: "est_ack c seg now = (o1, c1)" by (cases "est_ack c seg now")
    obtain o2 c2 go where d: "est_data c1 seg ans od = (o2, c2, go)" by (metis prod_cases3)
    have "svc c1 \<noteq> None" using est_ack_tx [OF a] assms(2) by (simp add: tx_only_def)
    then have "timer_inv c2" using est_ack_timer [OF assms(1) a] est_data_timer d by blast
    then show ?thesis using that assms(1)
      by (auto simp: input_established_def a d emit_ctrl_def Let_def split: if_splits prod.splits dest: est_fin_timer)
  qed
  have syn: "timer_inv c''" if "input_syn_received c seg now ans od = (os, c'')" for os c''
  proof (cases "has_flag seg TCPF_ACK \<and> sg_ack seg = snd_nxt c")
    case True
    define c0 where "c0 = rtx_on_ack (c\<lparr>snd_una := snd_nxt c\<rparr>) (snd_nxt c) now"
    have c0: "timer_inv c0" using rtx_on_ack_timer assms(1) by (simp add: c0_def)
    obtain o1 c1 g1 where op: "fire_open (c0\<lparr>tc_state := TCP_ESTABLISHED\<rparr>) ans = (o1, c1, g1)" by (metis prod_cases3)
    have c1: "timer_inv c1" using fire_open_timer [OF op] c0 by simp
    have "svc c1 \<noteq> None" using op assms(2) rtx_on_ack_tx [of "c\<lparr>snd_una := snd_nxt c\<rparr>" "snd_nxt c" now]
      by (auto simp: fire_open_def emit_ctrl_def Let_def tx_only_def c0_def split: option.splits if_splits)
    then show ?thesis using that True c1
      by (auto simp: input_syn_received_def c0_def [symmetric] op deliver_def emit_ctrl_def Let_def
          split: if_splits prod.splits dest: drive_timer)
  qed (use that assms in \<open>auto simp: input_syn_received_def\<close>)
  show ?thesis using assms est syn
    by (cases "tc_state c") (auto simp: conn_input_def input_rst_def input_last_ack_def split: if_splits prod.splits dest!: fire_close_timer)
qed

lemma conn_step_timer:
  assumes "timer_inv c" "conn_inv c" "conn_step c e = (outs, c')"
  shows "timer_inv c'"
proof (cases e)
  case (Ev_Segment seg now ans)
  then show ?thesis using assms conn_input_timer conn_inv_svc by (auto split: if_splits)
next
  case (Ev_Consumed n)
  then show ?thesis using assms by (auto simp: tcp_rcv_consumed_def Let_def split: if_splits)
next
  case (Ev_Cap n)
  then show ?thesis using assms by (auto simp: tcp_set_rcv_buf_cap_def Let_def timer_inv_def)
qed (use assms in \<open>auto split: prod.splits dest: tick_conn_timer tcp_send_at_timer\<close>)

section \<open>The reset window\<close>



section \<open>Properties\<close>

text \<open>Data on the segment that completes the handshake is delivered whatever its sequence number.\<close>

lemma handshake_data_unchecked:
  assumes "tc_state c = TCP_SYN_RECEIVED" "svc c = Some sv" "\<not> opened c" "\<not> has_flag seg TCPF_RST" "has_flag seg TCPF_ACK"
    "sg_ack seg = snd_nxt c" "an_open ans = Some p" "conn_input c seg now ans od = (outs, c')"
  shows "delivered outs = sg_payload seg"
proof -
  define c0 where "c0 = rtx_on_ack (c\<lparr>snd_una := snd_nxt c\<rparr>) (snd_nxt c) now"
  have "tx_only c c0" using rtx_on_ack_tx [of "c\<lparr>snd_una := snd_nxt c\<rparr>"] by (simp add: c0_def)
  then have c0: "svc c0 = Some sv" "\<not> opened c0" using assms(2,3) by (simp_all add: tx_only_def)
  obtain o1 c1 where op: "fire_open (c0\<lparr>tc_state := TCP_ESTABLISHED\<rparr>) ans = (o1, c1, True)" "delivered o1 = []" "svc c1 = Some sv"
    using c0 assms(7) by (cases "sv_on_open sv") (simp_all add: fire_open_def)
  obtain o2 c2 g2 where dr: "drive_service_data c1 ans (sg_payload seg) = (o2, c2, g2)" by (metis prod_cases3)
  have "conn_input c seg now ans od = input_syn_received c seg now ans od" using assms(1,4) by (simp add: conn_input_def)
  then show ?thesis using assms(5,6,8) op(2,3) delivered_drive [OF dr]
    by (auto simp: input_syn_received_def c0_def [symmetric] op(1) deliver_def dr emit_ctrl_def Let_def split: if_splits)
qed

text \<open>
  C32: In-order delivery. Take an established connection of a service, let the peer's segments be
  pieces of one byte stream in any order, with duplicates and overlaps, and interleave them with
  sends, window updates and timer ticks of the application. What the service receives is always a
  prefix of that stream, and while the connection is established \<open>rcv_nxt\<close> is its end. (The segment
  that completes the handshake is not covered, see \<open>handshake_data_unchecked\<close>.)
\<close>

theorem tcp_in_order_delivery:
  assumes "conn_inv c" "tc_state c = TCP_ESTABLISHED" "length S < 2 ^ 32"
    "list_all (carries S (rcv_nxt c)) es" "conn_run c es = (outs, c')"
  shows "\<exists>m\<le>length S. delivered outs = take m S
    \<and> (tc_state c' = TCP_ESTABLISHED \<longrightarrow> rcv_nxt c' = rcv_nxt c + word_of_nat m)"
proof -
  have "received S (rcv_nxt c) c 0" using assms(1,2) by (simp add: received_def)
  from received_run [OF this assms(4,3,5)] show ?thesis by (auto simp: received_def)
qed

definition ex_service :: pw_service where
  "ex_service = \<lparr>sv_proto = 6, sv_port = 80, sv_on_open = True, sv_on_data = True, sv_on_close = True\<rparr>"

definition ex_conn :: tcp_conn where
  "ex_conn = \<lparr>tc_state = TCP_ESTABLISHED, local_ip = 1, remote_ip = 2, local_port = 80, remote_port = 5000,
     snd_nxt = 101, snd_una = 101, rcv_nxt = 0xFFFFFFFF, rcv_wnd = 65535, rcv_buf_cap = 0, rcv_buf_used = 0,
     rtx = [], srtt_ms = 0, rttvar_ms = 0, rto_ms = 1000, tc_cwnd = 14600, tc_ssthresh = 0xFFFFFFFF, snd_wnd = 65535,
     dupack_n = 0, recovery_seq = 0, in_recovery = False, svc = Some ex_service, app_state = Some 7, opened = True\<rparr>"

definition ex_seg :: "u32 \<Rightarrow> byte \<Rightarrow> bytes \<Rightarrow> tcp_seg" where
  "ex_seg sq flags p = \<lparr>src_ip = 2, dst_ip = 1, src_port = 5000, dst_port = 80, sg_seq = sq, sg_ack = 101,
     sg_window = 1000, sg_flags = flags, sg_payload = p\<rparr>"

definition ex_answers :: svc_answers where
  "ex_answers = \<lparr>an_open = Some 7, an_status = PW_DISP_NO_OUTPUT, an_iov = []\<rparr>"

lemma ex_conn_inv: "conn_inv ex_conn" "tc_state ex_conn = TCP_ESTABLISHED"
  by (simp_all add: ex_conn_def conn_inv_def ex_service_def)

theorem tcp_in_order_delivery_witness:
  "\<exists>m\<le>3. delivered (fst (conn_run ex_conn
     [Ev_Segment (ex_seg 0 0x10 [8, 9]) 5 ex_answers, Ev_Segment (ex_seg 0xFFFFFFFF 0x10 [7, 8]) 6 ex_answers,
      Ev_Send [1] 7, Ev_Segment (ex_seg 1 0x10 [9]) 8 ex_answers])) = take m [7, 8, 9]"
proof -
  let ?es = "[Ev_Segment (ex_seg 0 0x10 [8, 9]) 5 ex_answers, Ev_Segment (ex_seg 0xFFFFFFFF 0x10 [7, 8]) 6 ex_answers,
      Ev_Send [1] 7, Ev_Segment (ex_seg 1 0x10 [9]) 8 ex_answers]"
  have c: "list_all (carries [7, 8, 9] (rcv_nxt ex_conn)) ?es" by code_simp
  obtain outs c' where r: "conn_run ex_conn ?es = (outs, c')" by (cases "conn_run ex_conn ?es")
  from tcp_in_order_delivery [OF ex_conn_inv _ c r] show ?thesis unfolding r by (auto simp: numeral_3_eq_3)
qed

text \<open>
  C33: Segmentation. A send that is not refused emits segments whose payloads are the data in
  order, numbered consecutively from \<open>snd_nxt\<close>, none empty or above the segment size, with the
  push flag on the last one only; \<open>snd_nxt\<close> advances by the data. When the send is tracked, the
  segments are queued for retransmission and the bytes in flight stay within both the congestion
  window and the peer's window.
\<close>

theorem tcp_send_segmentation:
  assumes "tcp_send_at c data now = (outs, c', r)" "r \<noteq> -1" "length (rtx c) \<le> TCP_RTX_QUEUE_MAX"
  shows "\<exists>segs. outs = map Emit segs \<and> concat (map sg_payload segs) = data
    \<and> (\<forall>s\<in>set segs. 0 < length (sg_payload s) \<and> length (sg_payload s) \<le> TCP_MSS)
    \<and> (\<forall>i<length segs. sg_seq (segs ! i) = snd_nxt c + word_of_nat (i * TCP_MSS)
         \<and> sg_flags (segs ! i) = TCPF_ACK OR (if Suc i = length segs then TCPF_PSH else 0))
    \<and> snd_nxt c' = snd_nxt c + len32 data
    \<and> (now \<noteq> 0 \<longrightarrow> rtx c' = rtx c @ map (rtx_of now) segs \<and> tcp_flight_size c' = tcp_flight_size c + len32 data
         \<and> len32 data \<le> tcp_send_window c)"
proof -
  let ?c = "if rto_ms c = 0 then c\<lparr>rto_ms := TCP_RTO_INIT_MS\<rparr> else c"
  let ?mk = "conn_seg (?c\<lparr>rcv_wnd := tcp_advertised_wnd ?c\<rparr>)"
  define segs where "segs = segments ?mk (snd_nxt ?c) data"
  obtain o2 c2 ok where l: "send_loop now data ?c = (o2, c2, ok)" by (metis prod_cases3)
  have e: "ok" "outs = o2" "c' = c2" "now \<noteq> 0 \<Longrightarrow> len32 data \<le> tcp_send_window c"
    using assms(1,2) l by (auto simp: tcp_send_at_def Let_def not_less split: if_splits)
  have c: "rtx ?c = rtx c" "snd_nxt ?c = snd_nxt c" by simp_all
  have "now = 0 \<or> length (rtx ?c) + length segs \<le> TCP_RTX_QUEUE_MAX"
    using send_loop_full [OF l, of ?mk "snd_nxt ?c"] e(1) assms(3) unfolding c segs_def by linarith
  from send_loop_segments [OF this [unfolded segs_def]]
  have r: "outs = map Emit segs" "c' = sent_conn now data ?c" using l e by (simp_all add: segs_def)
  have q: "snd_nxt c' = snd_nxt c + len32 data" "now \<noteq> 0 \<Longrightarrow> rtx c' = rtx c @ map (rtx_of now) segs"
    unfolding r(2) sent_conn_def Let_def by (simp_all add: segs_def)
  have cat: "concat (map sg_payload segs) = data" by (simp add: segs_def segments_concat)
  have "now \<noteq> 0 \<Longrightarrow> tcp_flight_size c' = tcp_flight_size c + len32 data"
    using q(2) cat by (simp add: tcp_flight_size_def flight_append)
  moreover have "\<forall>s\<in>set segs. 0 < length (sg_payload s) \<and> length (sg_payload s) \<le> TCP_MSS"
    unfolding segs_def using segments_sizes [OF plain_conn_seg] by blast
  moreover have "\<forall>i<length segs. sg_seq (segs ! i) = snd_nxt c + word_of_nat (i * TCP_MSS)
       \<and> sg_flags (segs ! i) = TCPF_ACK OR (if Suc i = length segs then TCPF_PSH else 0)"
    unfolding segs_def c(2) using segments_nth [OF plain_conn_seg] by blast
  ultimately show ?thesis using r(1) cat q e(4) by blast
qed

theorem tcp_send_segmentation_witness:
  "\<exists>segs outs c' r. tcp_send_at ex_conn [1, 2, 3] 50 = (outs, c', r) \<and> outs = map Emit segs
     \<and> concat (map sg_payload segs) = [1, 2, 3] \<and> rtx c' = map (rtx_of 50) segs"
proof -
  obtain outs c' r where r: "tcp_send_at ex_conn [1, 2, 3] 50 = (outs, c', r)" by (metis prod_cases3)
  have "snd (snd (tcp_send_at ex_conn [1, 2, 3] 50)) = 3" by code_simp
  then show ?thesis using tcp_send_segmentation [OF r] r by (auto simp: ex_conn_def TCP_RTX_QUEUE_MAX_def)
qed

text \<open>
  A tracked send that fits the send window but needs more segments than the retransmission
  queue has room for is reported as an error after segments have gone out: it emits one segment
  more than it queues, and \<open>snd_nxt\<close> covers only the queued ones.
\<close>

lemma tcp_send_partial:
  assumes "tcp_send_at c data now = (outs, c', r)" "tc_state c = TCP_ESTABLISHED" "now \<noteq> 0"
    "length (rtx c) < TCP_RTX_QUEUE_MAX" "len32 data \<le> tcp_send_window c"
    "(TCP_RTX_QUEUE_MAX - length (rtx c)) * TCP_MSS < length data"
  shows "r = -1 \<and> length outs = Suc (TCP_RTX_QUEUE_MAX - length (rtx c))
    \<and> length (rtx c') = TCP_RTX_QUEUE_MAX
    \<and> snd_nxt c' = snd_nxt c + word_of_nat ((length outs - 1) * TCP_MSS)"
proof -
  let ?c = "if rto_ms c = 0 then c\<lparr>rto_ms := TCP_RTO_INIT_MS\<rparr> else c"
  obtain o2 c2 ok where l: "send_loop now data ?c = (o2, c2, ok)" by (metis prod_cases3)
  have c: "rtx ?c = rtx c" "snd_nxt ?c = snd_nxt c" by simp_all
  define segs where "segs = segments (conn_seg c) 0 data"
  have "length data = sum_list (map (\<lambda>s. length (sg_payload s)) segs)"
    using arg_cong [OF segments_concat [OF plain_conn_seg, of c 0 data], of length]
    by (simp add: length_concat comp_def segs_def)
  also have "\<dots> \<le> sum_list (map (\<lambda>s. TCP_MSS) segs)"
    using segments_sizes [OF plain_conn_seg] by (intro sum_list_mono) (auto simp: segs_def)
  finally have "length data \<le> length segs * TCP_MSS" by (simp add: sum_list_triv)
  then have "TCP_RTX_QUEUE_MAX - length (rtx c) < length segs" using assms(6) less_le_trans mult_less_cancel2 by blast
  then have "TCP_RTX_QUEUE_MAX < length (rtx ?c) + length segs" using assms(4) by simp
  note full = send_loop_full [OF l assms(3) _ this [unfolded segs_def]]
  have nw: "\<not> tcp_send_window c < len32 data" using assms(5) by simp
  have e: "outs = o2" "c' = c2" "r = (if ok then sint (len32 data) else -1)"
    using assms(1-4) nw l by (simp_all add: tcp_send_at_def)
  show ?thesis using full assms(4) unfolding e c by simp
qed



end
