(* ===== verification/Tcp_Stack.thy ===== *)
theory Tcp_Stack
  imports Tcp
begin

text \<open>
  The connection table and its demultiplexer: the stack-level half of \<open>userspace/tcp/tcp.c\<close>.  Each
  output is tagged with the slot of the connection that caused it.
\<close>

section \<open>Definitions\<close>

record tcp_stack =
  conns :: "tcp_conn list"
  stk_local_ip :: u32
  listen_port :: u16
  stk_dispatch :: "pw_dispatch option"
  iss_secret :: bytes

type_synonym slot_out = "nat \<times> tcp_out"

text \<open>A zeroed slot, as \<open>memset\<close> leaves it.\<close>

definition tcp_conn_zero :: tcp_conn where
  "tcp_conn_zero = \<lparr>tc_state = TCP_CLOSED, local_ip = 0, remote_ip = 0, local_port = 0, remote_port = 0,
     snd_nxt = 0, snd_una = 0, rcv_nxt = 0, rcv_wnd = 0, rcv_buf_cap = 0, rcv_buf_used = 0,
     rtx = [], srtt_ms = 0, rttvar_ms = 0, rto_ms = 0, tc_cwnd = 0, tc_ssthresh = 0, snd_wnd = 0,
     dupack_n = 0, recovery_seq = 0, in_recovery = False, svc = None, app_state = None, opened = False\<rparr>"

definition iss_derive :: "tcp_stack \<Rightarrow> u32 \<Rightarrow> u16 \<Rightarrow> u32 \<Rightarrow> u16 \<Rightarrow> u64 \<Rightarrow> u32" where
  "iss_derive s lip lport rip rport now =
     (let k0 = foldl (\<lambda>k i. k OR push_bit (i * 8) (ucast (iss_secret s ! i))) (0 :: u64) [0..<8];
          k1 = foldl (\<lambda>k i. k OR push_bit (i * 8) (ucast (iss_secret s ! (i + 8)))) (0 :: u64) [0..<8];
          v = push_bit 32 (ucast lip) XOR ucast rip;
          v = v XOR (push_bit 16 (ucast lport) XOR ucast rport);
          v = v XOR k0;
          v = (v XOR drop_bit 33 v) * 0xff51afd7ed558ccd;
          v = v XOR k1;
          v = (v XOR drop_bit 33 v) * 0xc4ceb9fe1a85ec53;
          v = v XOR drop_bit 33 v
      in ucast v + ucast (push_bit 18 now))"

definition tcp_stack_set_iss_secret :: "tcp_stack \<Rightarrow> bytes \<Rightarrow> tcp_stack" where
  "tcp_stack_set_iss_secret s secret =
     (let n = min (length secret) 16 in s\<lparr>iss_secret := take n secret @ replicate (16 - n) 0\<rparr>)"

primrec first_index :: "('a \<Rightarrow> bool) \<Rightarrow> 'a list \<Rightarrow> nat option" where
  "first_index P [] = None"
| "first_index P (x # xs) = (if P x then Some 0 else map_option Suc (first_index P xs))"

definition matches :: "tcp_seg \<Rightarrow> tcp_conn \<Rightarrow> bool" where
  "matches seg c \<longleftrightarrow> tc_state c \<noteq> TCP_CLOSED \<and> tc_state c \<noteq> TCP_LISTEN
     \<and> local_port c = dst_port seg \<and> remote_port c = src_port seg
     \<and> local_ip c = dst_ip seg \<and> remote_ip c = src_ip seg"

definition find_conn :: "tcp_stack \<Rightarrow> tcp_seg \<Rightarrow> nat option" where
  "find_conn s seg = first_index (matches seg) (conns s)"

definition alloc_conn :: "tcp_stack \<Rightarrow> nat option" where
  "alloc_conn s = first_index (\<lambda>c. tc_state c = TCP_CLOSED) (conns s)"

definition tcp_listen :: "u32 \<Rightarrow> u16 \<Rightarrow> tcp_stack" where
  "tcp_listen ip port =
     \<lparr>conns = tcp_conn_zero\<lparr>tc_state := TCP_LISTEN, local_ip := ip, local_port := port\<rparr>
              # replicate (TCP_TABLE_SIZE - 1) tcp_conn_zero,
      stk_local_ip = ip, listen_port = port, stk_dispatch = None, iss_secret = replicate 16 0\<rparr>"

definition tcp_attach_dispatch :: "u32 \<Rightarrow> pw_dispatch \<Rightarrow> tcp_stack" where
  "tcp_attach_dispatch ip d =
     \<lparr>conns = replicate TCP_TABLE_SIZE tcp_conn_zero, stk_local_ip = ip, listen_port = 0,
      stk_dispatch = Some d, iss_secret = replicate 16 0\<rparr>"

text \<open>\<open>None\<close> is a refusal; an accepted port comes with its service, if any.\<close>

definition port_accepts :: "tcp_stack \<Rightarrow> u16 \<Rightarrow> pw_service option option" where
  "port_accepts s port =
     (case stk_dispatch s of
        Some d \<Rightarrow> (case pw_dispatch_lookup d PW_PROTO_TCP port of None \<Rightarrow> None | Some sv \<Rightarrow> Some (Some sv))
      | None \<Rightarrow> if port = listen_port s then Some None else None)"

text \<open>The slot \<open>c\<close> taken over by a SYN: only the fields the code assigns change.\<close>

definition syn_conn :: "tcp_stack \<Rightarrow> tcp_conn \<Rightarrow> tcp_seg \<Rightarrow> u64 \<Rightarrow> pw_service option \<Rightarrow> tcp_out list \<times> tcp_conn" where
  "syn_conn s c seg now sv =
     (let iss = iss_derive s (dst_ip seg) (dst_port seg) (src_ip seg) (src_port seg) now;
          c = c\<lparr>tc_state := TCP_SYN_RECEIVED, local_ip := dst_ip seg, remote_ip := src_ip seg,
                local_port := dst_port seg, remote_port := src_port seg, rcv_nxt := sg_seq seg + 1,
                snd_nxt := iss, snd_una := iss, rcv_wnd := 65535, tc_cwnd := TCP_INIT_CWND,
                tc_ssthresh := 0xffffffff, snd_wnd := (if sg_window seg \<noteq> 0 then ucast (sg_window seg) else 65535),
                dupack_n := 0, in_recovery := False, recovery_seq := 0, svc := sv, app_state := None, opened := False\<rparr>;
          (outs, c) = emit_ctrl c (TCPF_SYN OR TCPF_ACK)
      in (outs, c\<lparr>snd_nxt := snd_nxt c + 1\<rparr>))"

definition tcp_input_at ::
  "tcp_stack \<Rightarrow> tcp_seg \<Rightarrow> u64 \<Rightarrow> svc_answers \<Rightarrow> tcp_on_data \<Rightarrow> slot_out list \<times> tcp_stack" where
  "tcp_input_at s seg now ans on_data =
     (if dst_ip seg \<noteq> stk_local_ip s then ([], s)
      else case port_accepts s (dst_port seg) of
        None \<Rightarrow> ([], s)
      | Some sv \<Rightarrow>
          (case find_conn s seg of
             None \<Rightarrow>
               if \<not> has_flag seg TCPF_SYN \<or> has_flag seg TCPF_ACK then ([], s)
               else (case alloc_conn s of
                 None \<Rightarrow> ([], s)
               | Some i \<Rightarrow>
                   let (outs, c) = syn_conn s (conns s ! i) seg now sv
                   in (map (Pair i) outs, s\<lparr>conns := (conns s)[i := c]\<rparr>))
           | Some i \<Rightarrow>
               let (outs, c) = conn_input (conns s ! i) seg now ans on_data
               in (map (Pair i) outs, s\<lparr>conns := (conns s)[i := c]\<rparr>)))"

definition tcp_input :: "tcp_stack \<Rightarrow> tcp_seg \<Rightarrow> svc_answers \<Rightarrow> tcp_on_data \<Rightarrow> slot_out list \<times> tcp_stack" where
  "tcp_input s seg ans on_data = tcp_input_at s seg 0 ans on_data"

definition tcp_tick :: "tcp_stack \<Rightarrow> u64 \<Rightarrow> slot_out list \<times> tcp_stack" where
  "tcp_tick s now =
     (concat (map (\<lambda>i. map (Pair i) (fst (tick_conn now (conns s ! i)))) [0..<length (conns s)]),
      s\<lparr>conns := map (\<lambda>c. snd (tick_conn now c)) (conns s)\<rparr>)"

section \<open>Reachable stacks\<close>

text \<open>
  What an application in dispatch mode can do to a stack: feed it segments, let its timer tick,
  and call the connection operations on a slot.
\<close>

fun app_event :: "conn_event \<Rightarrow> bool" where
  "app_event (Ev_Segment seg now ans) = False"
| "app_event (Ev_Send data now) = True"
| "app_event (Ev_Consumed n) = True"
| "app_event (Ev_Cap n) = True"
| "app_event (Ev_Tick now) = False"

inductive tcp_reach :: "pw_dispatch \<Rightarrow> slot_out list \<Rightarrow> tcp_stack \<Rightarrow> bool" for d where
  attach: "tcp_reach d [] (tcp_attach_dispatch ip d)"
| secret: "tcp_reach d log s \<Longrightarrow> tcp_reach d log (tcp_stack_set_iss_secret s sec)"
| input: "tcp_reach d log s \<Longrightarrow> tcp_input_at s seg now ans on_data = (outs, s') \<Longrightarrow> tcp_reach d (log @ outs) s'"
| tick: "tcp_reach d log s \<Longrightarrow> tcp_tick s now = (outs, s') \<Longrightarrow> tcp_reach d (log @ outs) s'"
| app: "tcp_reach d log s \<Longrightarrow> i < length (conns s) \<Longrightarrow> app_event e \<Longrightarrow> conn_step (conns s ! i) e = (outs, c) \<Longrightarrow>
     tcp_reach d (log @ map (Pair i) outs) (s\<lparr>conns := (conns s)[i := c]\<rparr>)"

definition slot_log :: "nat \<Rightarrow> slot_out list \<Rightarrow> tcp_out list" where
  "slot_log i log = map snd (filter (\<lambda>x. fst x = i) log)"

definition tuple :: "tcp_conn \<Rightarrow> u32 \<times> u32 \<times> u16 \<times> u16" where
  "tuple c = (local_ip c, remote_ip c, local_port c, remote_port c)"

definition tuples_distinct :: "tcp_conn list \<Rightarrow> bool" where
  "tuples_distinct cs \<longleftrightarrow> (\<forall>i<length cs. \<forall>j<length cs. i \<noteq> j \<and> tc_state (cs ! i) \<noteq> TCP_CLOSED
     \<and> tc_state (cs ! j) \<noteq> TCP_CLOSED \<longrightarrow> tuple (cs ! i) \<noteq> tuple (cs ! j))"

definition stack_inv :: "pw_dispatch \<Rightarrow> slot_out list \<Rightarrow> tcp_stack \<Rightarrow> bool" where
  "stack_inv d log s \<longleftrightarrow> stk_dispatch s = Some d \<and> length (conns s) = TCP_TABLE_SIZE
     \<and> (\<forall>c\<in>set (conns s). conn_inv c \<and> timer_inv c \<and> tc_state c \<noteq> TCP_LISTEN)
     \<and> (\<forall>i<length (conns s). life_runs Idle (slot_log i log) (conn_life (conns s ! i)))
     \<and> tuples_distinct (conns s)"

section \<open>What an input leaves of a connection\<close>

text \<open>A connection keeps its addresses, and an input never makes it a listener.\<close>

definition stays :: "tcp_conn \<Rightarrow> tcp_conn \<Rightarrow> bool" where
  "stays c c' \<longleftrightarrow> tuple c' = tuple c \<and> svc c' = svc c \<and> (tc_state c' = TCP_LISTEN \<longrightarrow> tc_state c = TCP_LISTEN)"

lemma stays_refl [simp]: "stays c c"
  by (simp add: stays_def)

lemma stays_trans: "stays c c' \<Longrightarrow> stays c' c'' \<Longrightarrow> stays c c''"
  by (auto simp: stays_def)

lemma stays_updates [simp]:
  "stays c (c'\<lparr>rcv_wnd := w\<rparr>) = stays c c'" "stays c (c'\<lparr>snd_nxt := n\<rparr>) = stays c c'"
  "stays c (c'\<lparr>rcv_nxt := n\<rparr>) = stays c c'" "stays c (c'\<lparr>rcv_buf_used := n\<rparr>) = stays c c'"
  "stays c (c'\<lparr>app_state := a\<rparr>) = stays c c'" "stays c (c'\<lparr>opened := b\<rparr>) = stays c c'"
  "stays (c\<lparr>snd_una := n\<rparr>) c' = stays c c'" "stays (c\<lparr>rcv_wnd := w\<rparr>) c' = stays c c'"
  by (simp_all add: stays_def tuple_def)

lemma stays_state:
  "stays c c' \<Longrightarrow> st \<noteq> TCP_LISTEN \<Longrightarrow> stays c (c'\<lparr>tc_state := st\<rparr>)"
  by (simp add: stays_def tuple_def)

lemma tx_only_stays: "tx_only c c' \<Longrightarrow> stays c c'"
  by (simp add: tx_only_def stays_def tuple_def)

lemma fire_close_stays: "fire_close c = (outs, c') \<Longrightarrow> stays c c'"
  by (auto simp: fire_close_def split: option.splits if_splits)

lemma fire_open_stays: "fire_open c ans = (outs, c', go) \<Longrightarrow> stays c c'"
  by (auto simp: fire_open_def emit_ctrl_def Let_def split: option.splits if_splits intro: stays_state)

lemma drive_stays: "drive_service_data c ans data = (outs, c', go) \<Longrightarrow> stays c c'"
  by (auto simp: drive_service_data_def emit_ctrl_def Let_def split: pw_disp_status.splits if_splits prod.splits
      intro!: stays_state dest!: fire_close_stays dest: tx_only_stays [OF conjunct2 [OF tcp_sendv_tx]])

lemma est_data_stays:
  assumes "svc c \<noteq> None" "est_data c seg ans od = (outs, c', go)"
  shows "stays c c'"
  using assms by (auto simp: est_data_def deliver_def emit_ctrl_def Let_def split: if_splits prod.splits dest: drive_stays)

lemma est_fin_stays: "est_fin c seg = (outs, c') \<Longrightarrow> stays c c'"
  by (auto simp: est_fin_def emit_ctrl_def Let_def stays_def tuple_def split: if_splits prod.splits dest!: fire_close_stays)

lemma conn_input_stays:
  assumes "svc c \<noteq> None" "conn_input c seg now ans od = (outs, c')"
  shows "stays c c'"
proof -
  have est: "stays c c''" if "input_established c seg now ans od = (os, c'')" for os c''
  proof -
    obtain o1 c1 where a: "est_ack c seg now = (o1, c1)" by (cases "est_ack c seg now")
    obtain o2 c2 go where d: "est_data c1 seg ans od = (o2, c2, go)" by (metis prod_cases3)
    have c1: "stays c c1" using tx_only_stays est_ack_tx [OF a] by blast
    then have "svc c1 \<noteq> None" using assms(1) by (simp add: stays_def)
    then have "stays c c2" using stays_trans [OF c1 est_data_stays [OF _ d]] by simp
    then show ?thesis using that
      by (auto simp: input_established_def a d emit_ctrl_def Let_def split: if_splits prod.splits
          dest!: est_fin_stays intro: stays_trans)
  qed
  have syn: "stays c c''" if "input_syn_received c seg now ans od = (os, c'')" for os c''
  proof (cases "has_flag seg TCPF_ACK \<and> sg_ack seg = snd_nxt c")
    case True
    define c0 where "c0 = rtx_on_ack (c\<lparr>snd_una := snd_nxt c\<rparr>) (snd_nxt c) now"
    have c0: "stays c c0" using tx_only_stays [OF rtx_on_ack_tx [of "c\<lparr>snd_una := snd_nxt c\<rparr>" "snd_nxt c" now]]
      by (simp add: c0_def)
    obtain o1 c1 g1 where op: "fire_open (c0\<lparr>tc_state := TCP_ESTABLISHED\<rparr>) ans = (o1, c1, g1)" by (metis prod_cases3)
    have c1: "stays c c1" using stays_trans [OF stays_state [OF c0] fire_open_stays [OF op]] by simp
    then have "svc c1 \<noteq> None" using assms(1) by (simp add: stays_def)
    then show ?thesis using that True c1
      by (auto simp: input_syn_received_def c0_def [symmetric] op deliver_def emit_ctrl_def Let_def
          split: if_splits prod.splits dest!: drive_stays intro: stays_trans)
  qed (use that in \<open>auto simp: input_syn_received_def\<close>)
  show ?thesis using assms(2) est syn
    by (cases "tc_state c") (auto simp: conn_input_def input_rst_def input_last_ack_def split: if_splits prod.splits
        dest!: fire_close_stays intro: stays_state)
qed

section \<open>Tables and logs\<close>

lemma first_index_Some: "first_index P xs = Some i \<Longrightarrow> i < length xs \<and> P (xs ! i)"
  by (induction xs arbitrary: i) (auto split: if_splits)

lemma first_index_None: "first_index P xs = None \<longleftrightarrow> (\<forall>x\<in>set xs. \<not> P x)"
  by (induction xs) auto

lemma slot_log_simps [simp]:
  "slot_log i [] = []" "slot_log i (xs @ ys) = slot_log i xs @ slot_log i ys"
  "slot_log i (map (Pair j) outs) = (if i = j then outs else [])"
  by (auto simp: slot_log_def filter_map comp_def)

lemma slot_log_concat:
  "slot_log i (concat (map (\<lambda>j. map (Pair j) (f j)) [0..<n])) = (if i < n then f i else [])"
  by (induction n) (auto simp: less_Suc_eq)

lemma stack_inv_update:
  assumes inv: "stack_inv d log s" and i: "i < length (conns s)" and l: "lives_on (conns s ! i) outs c'"
    and t: "timer_inv c'" "tc_state c' \<noteq> TCP_LISTEN"
    and u: "tc_state c' \<noteq> TCP_CLOSED \<Longrightarrow> tc_state (conns s ! i) \<noteq> TCP_CLOSED \<and> tuple c' = tuple (conns s ! i)
      \<or> (\<forall>j<length (conns s). j \<noteq> i \<longrightarrow> tc_state (conns s ! j) \<noteq> TCP_CLOSED \<longrightarrow> tuple (conns s ! j) \<noteq> tuple c')"
  shows "stack_inv d (log @ map (Pair i) outs) (s\<lparr>conns := (conns s)[i := c']\<rparr>)"
proof -
  have logs: "\<forall>j<length (conns s). life_runs Idle (slot_log j (log @ map (Pair i) outs)) (conn_life ((conns s)[i := c'] ! j))"
    using inv i l by (auto simp: stack_inv_def lives_on_def nth_list_update intro: life_runs_append)
  have all: "conn_inv c \<and> timer_inv c \<and> tc_state c \<noteq> TCP_LISTEN" if "c \<in> set ((conns s)[i := c'])" for c
    using that set_update_subset_insert [of "conns s" i c'] inv l t by (auto simp: stack_inv_def lives_on_def)
  have "tuples_distinct ((conns s)[i := c'])"
    using inv i u unfolding stack_inv_def tuples_distinct_def by (auto simp: nth_list_update)
  then show ?thesis using inv logs all by (simp add: stack_inv_def)
qed

lemma zero_inv: "conn_inv tcp_conn_zero" "timer_inv tcp_conn_zero" "conn_life tcp_conn_zero = Idle"
  "tc_state tcp_conn_zero = TCP_CLOSED"
  by (simp_all add: tcp_conn_zero_def conn_inv_def timer_inv_def conn_life_def)

lemma stack_inv_attach: "stack_inv d [] (tcp_attach_dispatch ip d)"
  by (simp add: stack_inv_def tcp_attach_dispatch_def tuples_distinct_def zero_inv)

lemma stack_inv_syn:
  assumes inv: "stack_inv d log s" and free: "find_conn s seg = None" and a: "alloc_conn s = Some i"
    and c: "syn_conn s (conns s ! i) seg now (Some sv) = (outs, c')"
  shows "stack_inv d (log @ map (Pair i) outs) (s\<lparr>conns := (conns s)[i := c']\<rparr>)"
proof -
  have i: "i < length (conns s)" "tc_state (conns s ! i) = TCP_CLOSED"
    using first_index_Some [of _ "conns s" i] a by (auto simp: alloc_conn_def)
  have ci: "conn_inv (conns s ! i)" "timer_inv (conns s ! i)" using inv i by (simp_all add: stack_inv_def)
  have c': "quiet outs" "tc_state c' = TCP_SYN_RECEIVED" "svc c' = Some sv" "\<not> opened c'" "app_state c' = None"
    "rtx c' = rtx (conns s ! i)" "rto_ms c' = rto_ms (conns s ! i)"
    "tuple c' = (dst_ip seg, src_ip seg, dst_port seg, src_port seg)"
    using c by (auto simp: syn_conn_def emit_ctrl_def Let_def tuple_def)
  have l: "lives_on (conns s ! i) outs c'"
    using c' ci(1) i(2) by (simp add: lives_on_def conn_life_def conn_inv_def)
  have t: "timer_inv c'" "tc_state c' \<noteq> TCP_LISTEN" using c' ci(2) by (simp_all add: timer_inv_def)
  have "tuple (conns s ! j) \<noteq> tuple c'" if "j < length (conns s)" "tc_state (conns s ! j) \<noteq> TCP_CLOSED" for j
  proof -
    have "\<not> matches seg (conns s ! j)" using free that(1) by (auto simp: find_conn_def first_index_None)
    moreover have "tc_state (conns s ! j) \<noteq> TCP_LISTEN" using inv that(1) by (simp add: stack_inv_def)
    ultimately show ?thesis using that(2) unfolding c'(8) by (auto simp: matches_def tuple_def)
  qed
  then show ?thesis by (intro stack_inv_update [OF inv i(1) l t]) blast
qed

lemma stack_inv_conn_input:
  assumes inv: "stack_inv d log s" and f: "find_conn s seg = Some i"
    and c: "conn_input (conns s ! i) seg now ans od = (outs, c')"
  shows "stack_inv d (log @ map (Pair i) outs) (s\<lparr>conns := (conns s)[i := c']\<rparr>)"
proof -
  have i: "i < length (conns s)" "tc_state (conns s ! i) \<noteq> TCP_CLOSED"
    using first_index_Some [of "matches seg" "conns s" i] f by (auto simp: find_conn_def matches_def)
  have ci: "conn_inv (conns s ! i)" "timer_inv (conns s ! i)" "tc_state (conns s ! i) \<noteq> TCP_LISTEN"
    using inv i by (simp_all add: stack_inv_def)
  have sv: "svc (conns s ! i) \<noteq> None" using conn_inv_svc ci(1) i(2) by blast
  have st: "stays (conns s ! i) c'" by (rule conn_input_stays [OF sv c])
  show ?thesis
    by (rule stack_inv_update [OF inv i(1) conn_input_lives_on [OF ci(1) i(2) c] conn_input_timer [OF ci(2) sv c]])
      (use st ci(3) i(2) in \<open>auto simp: stays_def\<close>)
qed

lemma stack_inv_input:
  assumes "stack_inv d log s" "tcp_input_at s seg now ans od = (outs, s')"
  shows "stack_inv d (log @ outs) s'"
proof -
  have d: "stk_dispatch s = Some d" using assms(1) by (simp add: stack_inv_def)
  show ?thesis
  proof (cases "pw_dispatch_lookup d PW_PROTO_TCP (dst_port seg)")
    case None
    then show ?thesis using assms(1,2) d by (auto simp: tcp_input_at_def port_accepts_def split: if_splits)
  next
    case (Some sv)
    then show ?thesis
      using assms(1,2) d stack_inv_syn [OF assms(1)] stack_inv_conn_input [OF assms(1)]
      by (auto simp: tcp_input_at_def port_accepts_def split: if_splits option.splits prod.splits)
  qed
qed

lemma stack_inv_tick:
  assumes inv: "stack_inv d log s" and t: "tcp_tick s now = (outs, s')"
  shows "stack_inv d (log @ outs) s'"
proof -
  have k: "quiet (fst (tick_conn now c))" "tx_only c (snd (tick_conn now c))" for c
    using tick_conn_tx [of now c "fst (tick_conn now c)" "snd (tick_conn now c)"] by simp_all
  have s': "conns s' = map (\<lambda>c. snd (tick_conn now c)) (conns s)" "stk_dispatch s' = stk_dispatch s"
    and outs: "outs = concat (map (\<lambda>i. map (Pair i) (fst (tick_conn now (conns s ! i)))) [0..<length (conns s)])"
    using t by (auto simp: tcp_tick_def)
  have same: "tc_state (snd (tick_conn now c)) = tc_state c" "tuple (snd (tick_conn now c)) = tuple c"
    "conn_life (snd (tick_conn now c)) = conn_life c" "conn_inv (snd (tick_conn now c)) = conn_inv c" for c
    using k(2) [of c] conn_inv_tx [OF k(2) [of c]] by (simp_all add: tx_only_def tuple_def)
  have tm: "timer_inv (snd (tick_conn now c))" if "timer_inv c" for c
    using tick_conn_timer [OF that, of now "fst (tick_conn now c)"] by simp
  have "life_runs Idle (slot_log i (log @ outs)) (conn_life (conns s' ! i))" if "i < length (conns s)" for i
    using that inv life_runs_append [OF _ life_runs_quiet [OF k(1)]] by (simp add: outs s' slot_log_concat same stack_inv_def)
  then show ?thesis using inv tm by (auto simp: stack_inv_def s' same tuples_distinct_def)
qed

lemma app_stays:
  assumes "app_event e" "conn_step c e = (outs, c')"
  shows "tc_state c' = tc_state c \<and> tuple c' = tuple c"
  using assms
  by (cases e) (auto simp: tcp_rcv_consumed_def tcp_set_rcv_buf_cap_def Let_def tuple_def tx_only_def
      split: prod.splits if_splits dest!: tcp_send_at_tx)

lemma stack_inv_app:
  assumes inv: "stack_inv d log s" and i: "i < length (conns s)" and e: "app_event e"
    and c: "conn_step (conns s ! i) e = (outs, c')"
  shows "stack_inv d (log @ map (Pair i) outs) (s\<lparr>conns := (conns s)[i := c']\<rparr>)"
proof -
  have ci: "conn_inv (conns s ! i)" "timer_inv (conns s ! i)" "tc_state (conns s ! i) \<noteq> TCP_LISTEN"
    using inv i by (simp_all add: stack_inv_def)
  show ?thesis
    by (rule stack_inv_update [OF inv i conn_step_lives_on [OF ci(1) c] conn_step_timer [OF ci(2,1) c]])
      (use app_stays [OF e c] ci(3) in auto)
qed

lemma tcp_reach_inv:
  assumes "tcp_reach d log s"
  shows "stack_inv d log s"
  using assms
proof (induction rule: tcp_reach.induct)
  case (secret log s sec)
  then show ?case by (simp add: stack_inv_def tcp_stack_set_iss_secret_def Let_def)
qed (auto intro: stack_inv_attach stack_inv_input stack_inv_tick stack_inv_app)

section \<open>Slot reuse\<close>

lemma syn_conn_keeps:
  assumes "syn_conn s c seg now sv = (outs, c')"
  shows "rtx c' = rtx c" "rto_ms c' = rto_ms c" "tc_state c' = TCP_SYN_RECEIVED" "remote_ip c' = src_ip seg"
    "remote_port c' = src_port seg" "svc c' = sv" "\<not> opened c'"
    "snd_nxt c' = iss_derive s (dst_ip seg) (dst_port seg) (src_ip seg) (src_port seg) now + 1"
  using assms by (auto simp: syn_conn_def emit_ctrl_def Let_def)

lemma rtx_scan_head:
  "sint (a - (rx_seq e + rx_len e)) < 0 \<Longrightarrow> \<exists>kept c'. rtx_scan (e # es) a now c = (e # kept, c')"
  by (auto split: prod.splits)

lemma handshake_keeps_head:
  assumes c: "tc_state c = TCP_SYN_RECEIVED" "svc c = Some sv" "\<not> opened c" "rtx c = e # es"
    and e: "sint (snd_nxt c - (rx_seq e + rx_len e)) < 0"
    and seg: "\<not> has_flag seg TCPF_RST" "has_flag seg TCPF_ACK" "sg_ack seg = snd_nxt c" "sg_payload seg = []"
    and ans: "an_open ans \<noteq> None"
    and r: "conn_input c seg now ans od = (outs, c')"
  shows "tc_state c' = TCP_ESTABLISHED \<and> (\<exists>es'. rtx c' = e # es') \<and> remote_ip c' = remote_ip c \<and> remote_port c' = remote_port c"
proof -
  let ?c1 = "c\<lparr>snd_una := snd_nxt c\<rparr>"
  obtain kept c2 where k: "rtx_scan (e # es) (snd_nxt c) now ?c1 = (e # kept, c2)" using rtx_scan_head [OF e] by blast
  have tx: "tx_only ?c1 c2" by (rule rtx_scan_tx [OF k])
  have c2: "svc c2 = Some sv" "\<not> opened c2" "remote_ip c2 = remote_ip c" "remote_port c2 = remote_port c"
    using tx c(2,3) by (simp_all add: tx_only_def)
  have a: "rtx_on_ack ?c1 (snd_nxt c) now = c2\<lparr>rtx := e # kept\<rparr>"
    using c(4) k by (simp add: rtx_on_ack_def del: rtx_scan.simps)
  obtain p where p: "an_open ans = Some p" using ans by blast
  have "c' = c2\<lparr>rtx := e # kept, tc_state := TCP_ESTABLISHED, opened := True\<rparr>
      \<or> c' = c2\<lparr>rtx := e # kept, tc_state := TCP_ESTABLISHED, app_state := Some p, opened := True\<rparr>"
    using r c(1) seg p c2(1,2) by (auto simp: conn_input_def input_syn_received_def a fire_open_def Let_def split: if_splits)
  then show ?thesis using c2 by auto
qed

section \<open>Properties\<close>

text \<open>
  C31: The hook contract of a service. However segments, timer ticks and application calls are interleaved on a
  stack, and whichever hooks its services have, the calls made on each slot of its table follow the contract. A
  service with an \<open>on_open\<close> gets data only between an \<open>on_open\<close> of its own that returned a state and the end of that
  connection, always with that state; after a refusal it gets nothing. Its \<open>on_close\<close>, if it has one, is called once for such an
  opening, with its state, before the slot is opened again, and not otherwise. A service without \<open>on_open\<close> gets its
  data with the null state and is never closed. No connection is open while its slot is closed or in the handshake.
\<close>

theorem tcp_service_lifecycle:
  assumes "tcp_reach d log s" "i < TCP_TABLE_SIZE"
  shows "life_runs Idle (slot_log i log) (conn_life (conns s ! i))
    \<and> (tc_state (conns s ! i) \<in> {TCP_CLOSED, TCP_SYN_RECEIVED} \<longrightarrow> conn_life (conns s ! i) = Idle)"
  using tcp_reach_inv [OF assms(1)] assms(2)
  by (auto simp: stack_inv_def conn_inv_def conn_life_def dest!: bspec [of _ _ "conns s ! i"])

definition ex_table :: pw_dispatch where
  "ex_table = \<lparr>dp_entries = [ex_service]\<rparr>"

theorem tcp_service_lifecycle_witness:
  "let (o1, s1) = tcp_input_at (tcp_attach_dispatch 1 ex_table) (ex_seg 9 0x02 []) 5 ex_answers None;
       (o2, s2) = tcp_input_at s1 ((ex_seg 10 0x10 [3])\<lparr>sg_ack := snd_nxt (conns s1 ! 0)\<rparr>) 6 ex_answers None
   in life_runs Idle (slot_log 0 (o1 @ o2)) (conn_life (conns s2 ! 0)) \<and> conn_life (conns s2 ! 0) = Live ex_service 7
     \<and> (0, Call_Data (Some ex_service) (Some 7) [3]) \<in> set o2"
proof -
  obtain o1 s1 where r: "tcp_input_at (tcp_attach_dispatch 1 ex_table) (ex_seg 9 0x02 []) 5 ex_answers None = (o1, s1)"
    by fastforce
  let ?seg = "(ex_seg 10 0x10 [3])\<lparr>sg_ack := snd_nxt (conns s1 ! 0)\<rparr>"
  obtain o2 s2 where r2: "tcp_input_at s1 ?seg 6 ex_answers None = (o2, s2)" by fastforce
  have "tcp_reach ex_table (([] @ o1) @ o2) s2" by (rule tcp_reach.input [OF tcp_reach.input [OF tcp_reach.attach r] r2])
  from tcp_service_lifecycle [OF this, of 0] have "life_runs Idle (slot_log 0 (o1 @ o2)) (conn_life (conns s2 ! 0))"
    by (simp add: TCP_TABLE_SIZE_def)
  moreover have "let (o1, s1) = tcp_input_at (tcp_attach_dispatch 1 ex_table) (ex_seg 9 0x02 []) 5 ex_answers None;
       (o2, s2) = tcp_input_at s1 ((ex_seg 10 0x10 [3])\<lparr>sg_ack := snd_nxt (conns s1 ! 0)\<rparr>) 6 ex_answers None
     in conn_life (conns s2 ! 0) = Live ex_service 7 \<and> (0, Call_Data (Some ex_service) (Some 7) [3]) \<in> set o2"
    by code_simp
  ultimately show ?thesis by (simp add: r r2)
qed

text \<open>
  C35: In every reachable stack each connection keeps at most four segments for retransmission, and
  its timeout is between 200 milliseconds and one minute once it has anything to retransmit, in
  spite of the 32-bit arithmetic of the estimator and the doubling on every timeout.
\<close>

theorem tcp_retransmit_bounds:
  assumes "tcp_reach d log s" "c \<in> set (conns s)"
  shows "length (rtx c) \<le> 4 \<and> (rto_ms c = 0 \<and> rtx c = [] \<or> 200 \<le> rto_ms c \<and> rto_ms c \<le> 60000)"
  using tcp_reach_inv [OF assms(1)] assms(2)
  by (auto simp: stack_inv_def timer_inv_def rto_ok_def TCP_RTX_QUEUE_MAX_def TCP_RTO_MIN_MS_def TCP_RTO_MAX_MS_def)

theorem tcp_retransmit_bounds_witness:
  "length (rtx (conns (tcp_attach_dispatch 1 ex_table) ! 3)) \<le> 4"
  using tcp_retransmit_bounds [OF tcp_reach.attach, of "conns (tcp_attach_dispatch 1 ex_table) ! 3" 1]
  by (simp add: tcp_attach_dispatch_def TCP_TABLE_SIZE_def)

text \<open>
  Demultiplexing is unambiguous. Two slots of a reachable stack that are both in use never have
  the same addresses and ports.
\<close>

lemma tcp_tuples_unique:
  assumes "tcp_reach d log s" "i < TCP_TABLE_SIZE" "j < TCP_TABLE_SIZE" "i \<noteq> j"
    "tc_state (conns s ! i) \<noteq> TCP_CLOSED" "tc_state (conns s ! j) \<noteq> TCP_CLOSED"
  shows "(local_ip (conns s ! i), remote_ip (conns s ! i), local_port (conns s ! i), remote_port (conns s ! i))
    \<noteq> (local_ip (conns s ! j), remote_ip (conns s ! j), local_port (conns s ! j), remote_port (conns s ! j))"
  using tcp_reach_inv [OF assms(1)] assms(2-6)
  by (simp add: stack_inv_def tuples_distinct_def tuple_def del: prod.inject)

text \<open>
  C36: A slot taken over by a new connection keeps the retransmission queue of the old one. If the
  old connection closed with an unacknowledged segment whose end lies after the new initial
  sequence number, then after the handshake of the new peer the timer sends the old payload to the
  new peer.
\<close>

theorem tcp_stale_retransmit:
  assumes "rtx old = e # es" "syn_conn s old syn now (Some sv) = (o1, c1)"
    "sint (snd_nxt c1 - (rx_seq e + rx_len e)) < 0"
    "\<not> has_flag seg TCPF_RST" "has_flag seg TCPF_ACK" "sg_ack seg = snd_nxt c1" "sg_payload seg = []" "an_open ans \<noteq> None"
    "conn_input c1 seg now2 ans None = (o2, c2)" "rx_tx_time_ms e \<le> now3" "ucast (rto_ms c2) \<le> now3 - rx_tx_time_ms e"
  shows "\<exists>sg c3. tick_conn now3 c2 = ([Emit sg], c3) \<and> sg_payload sg = rx_payload e
    \<and> dst_ip sg = src_ip syn \<and> dst_port sg = src_port syn"
proof -
  note k = syn_conn_keeps [OF assms(2)]
  have h: "tc_state c2 = TCP_ESTABLISHED" "\<exists>es'. rtx c2 = e # es'" "remote_ip c2 = src_ip syn" "remote_port c2 = src_port syn"
    using handshake_keeps_head [OF k(3,6,7) _ assms(3-9)] k(1,4,5) assms(1) by auto
  then show ?thesis using assms(10,11) by (auto simp: tick_conn_def Let_def conn_seg_def not_less)
qed

definition ex_entry :: tcp_rtx_entry where
  "ex_entry = \<lparr>rx_seq = 3507172587, rx_len = 5, rx_payload = [1, 2, 3, 4, 5], rx_flags = 0x18,
     rx_retrans = False, rx_tx_time_ms = 1\<rparr>"

definition ex_taken :: tcp_conn where
  "ex_taken = snd (syn_conn (tcp_attach_dispatch 1 ex_table) (tcp_conn_zero\<lparr>rtx := [ex_entry], rto_ms := 1000\<rparr>)
     (ex_seg 9 0x02 []) 5 (Some ex_service))"

definition ex_ack :: tcp_seg where
  "ex_ack = (ex_seg 10 0x10 [])\<lparr>sg_ack := snd_nxt ex_taken\<rparr>"

theorem tcp_stale_retransmit_witness:
  "\<exists>sg c3. tick_conn 5000 (snd (conn_input ex_taken ex_ack 7 ex_answers None)) = ([Emit sg], c3)
     \<and> sg_payload sg = [1, 2, 3, 4, 5] \<and> dst_ip sg = 2"
proof -
  let ?c2 = "snd (conn_input ex_taken ex_ack 7 ex_answers None)"
  have h: "sint (snd_nxt ex_taken - (rx_seq ex_entry + rx_len ex_entry)) < 0" "\<not> has_flag ex_ack TCPF_RST"
    "has_flag ex_ack TCPF_ACK" "sg_ack ex_ack = snd_nxt ex_taken" "sg_payload ex_ack = []" "an_open ex_answers \<noteq> None"
    by code_simp+
  have t: "rx_tx_time_ms ex_entry \<le> 5000" "ucast (rto_ms ?c2) \<le> 5000 - rx_tx_time_ms ex_entry" by code_simp+
  have v: "rx_payload ex_entry = [1, 2, 3, 4, 5]" "src_ip (ex_seg 9 0x02 []) = 2" by (simp_all add: ex_entry_def ex_seg_def)
  have q: "rtx (tcp_conn_zero\<lparr>rtx := [ex_entry], rto_ms := 1000\<rparr>) = [ex_entry]" by simp
  have y: "syn_conn (tcp_attach_dispatch 1 ex_table) (tcp_conn_zero\<lparr>rtx := [ex_entry], rto_ms := 1000\<rparr>)
     (ex_seg 9 0x02 []) 5 (Some ex_service) = (fst (syn_conn (tcp_attach_dispatch 1 ex_table) (tcp_conn_zero\<lparr>rtx := [ex_entry], rto_ms := 1000\<rparr>)
     (ex_seg 9 0x02 []) 5 (Some ex_service)), ex_taken)" by (simp add: ex_taken_def)
  from tcp_stale_retransmit [OF q y h prod.collapse [symmetric] t] show ?thesis unfolding v by blast
qed

end
