(* ===== verification/Util.thy ===== *)
theory Util
  imports Prelude
begin

text \<open>
  String helpers of the server: \<open>src/util.c\<close> and the SSE2 paths of \<open>src/simd.h\<close>.  A vector
  register is the list of its lanes.  The logging and clock functions are not modelled.
\<close>

section \<open>Definitions\<close>

definition str :: "string \<Rightarrow> bytes" where
  "str s = map of_char s"

primrec first_pos :: "byte \<Rightarrow> bytes \<Rightarrow> nat option" where
  "first_pos c [] = None"
| "first_pos c (x # xs) = (if x = c then Some 0 else map_option Suc (first_pos c xs))"

text \<open>FNV-1a.\<close>

definition metal_fnv1a_init :: u64 where
  "metal_fnv1a_init = 1469598103934665603"

definition metal_fnv1a_step :: "u64 \<Rightarrow> bytes \<Rightarrow> u64" where
  "metal_fnv1a_step h data = foldl (\<lambda>h b. (h XOR ucast b) * 1099511628211) h data"

definition metal_fnv1a_step_lower :: "u64 \<Rightarrow> bytes \<Rightarrow> u64" where
  "metal_fnv1a_step_lower h data =
     foldl (\<lambda>h b. (h XOR ucast (if b \<ge> 0x41 \<and> b \<le> 0x5a then b + 32 else b)) * 1099511628211) h data"

definition metal_fnv1a :: "bytes \<Rightarrow> u64" where
  "metal_fnv1a data = metal_fnv1a_step metal_fnv1a_init data"

definition metal_fnv1a_lower :: "bytes \<Rightarrow> u64" where
  "metal_fnv1a_lower data = metal_fnv1a_step_lower metal_fnv1a_init data"

text \<open>Vector routines, sixteen bytes at a time with a scalar tail.\<close>

function metal_eq_n :: "bytes \<Rightarrow> bytes \<Rightarrow> nat \<Rightarrow> bool" where
  "metal_eq_n a b len =
     (if len \<ge> 16 then
        if \<not> list_all2 (=) (take 16 a) (take 16 b) then False
        else metal_eq_n (drop 16 a) (drop 16 b) (len - 16)
      else len = 0 \<or> take len a = take len b)"
  by pat_completeness auto
termination by (relation "measure (\<lambda>(a, b, len). len)") auto

declare metal_eq_n.simps [simp del]

definition lower_lane :: "byte \<Rightarrow> byte" where
  "lower_lane v =
     (let gt_a = (if sint v > 0x40 then 0xff else 0);
          gt_z = (if sint v > 0x5a then 0xff else 0);
          not_gtz = gt_z XOR 0xff;
          mask = gt_a AND not_gtz
      in v + (mask AND 0x20))"

definition lower_scalar :: "byte \<Rightarrow> byte" where
  "lower_scalar c = (if c \<ge> 0x41 \<and> c \<le> 0x5a then c OR 0x20 else c)"

function metal_lower_simd :: "bytes \<Rightarrow> bytes" where
  "metal_lower_simd p =
     (if length p \<ge> 16 then map lower_lane (take 16 p) @ metal_lower_simd (drop 16 p)
      else map lower_scalar p)"
  by pat_completeness auto
termination by (relation "measure length") auto

declare metal_lower_simd.simps [simp del]

definition metal_lower_inplace :: "bytes \<Rightarrow> bytes" where
  "metal_lower_inplace buf = metal_lower_simd buf"

text \<open>Case-insensitive equality: for common lengths through little-endian loads.\<close>

definition ld :: "bytes \<Rightarrow> nat \<Rightarrow> nat \<Rightarrow> u64" where
  "ld a off n = foldr (\<lambda>b w. push_bit 8 w OR ucast b) (take n (drop off a)) 0"

abbreviation ld_eq :: "bytes \<Rightarrow> bytes \<Rightarrow> nat \<Rightarrow> nat \<Rightarrow> u64 \<Rightarrow> bool" where
  "ld_eq a b off n m \<equiv> ld a off n OR m = ld b off n OR m"

definition metal_ieq :: "bytes \<Rightarrow> bytes \<Rightarrow> bool" where
  "metal_ieq a b =
     (let n = length a;
          m8 = 0x2020202020202020; m4 = 0x20202020; m2 = 0x2020
      in if n \<noteq> length b then False
         else if n = 4 then ld_eq a b 0 4 m4
         else if n = 10 then (if \<not> ld_eq a b 0 8 m8 then False else ld_eq a b 8 2 m2)
         else if n = 13 then
           (if \<not> ld_eq a b 0 8 m8 then False
            else if \<not> ld_eq a b 8 4 m4 then False
            else a ! 12 OR 0x20 = b ! 12 OR 0x20)
         else if n = 14 then
           (if \<not> ld_eq a b 0 8 m8 then False
            else if \<not> ld_eq a b 8 4 m4 then False
            else ld_eq a b 12 2 m2)
         else if n = 15 then (if \<not> ld_eq a b 0 8 m8 then False else ld_eq a b 7 8 m8)
         else if n = 17 then
           (if \<not> ld_eq a b 0 8 m8 then False
            else if \<not> ld_eq a b 8 8 m8 then False
            else a ! 16 OR 0x20 = b ! 16 OR 0x20)
         else
           list_all2 (\<lambda>ca cb. (if ca \<ge> 0x41 \<and> ca \<le> 0x5a then ca + 32 else ca)
                            = (if cb \<ge> 0x41 \<and> cb \<le> 0x5a then cb + 32 else cb)) a b)"

definition metal_next_pow2 :: "u64 \<Rightarrow> u64" where
  "metal_next_pow2 n =
     (if n < 2 then 1
      else
        let n = n - 1;
            n = n OR drop_bit 1 n;
            n = n OR drop_bit 2 n;
            n = n OR drop_bit 4 n;
            n = n OR drop_bit 8 n;
            n = n OR drop_bit 16 n;
            n = n OR drop_bit 32 n
        in n + 1)"

definition metal_align_up :: "u64 \<Rightarrow> u64 \<Rightarrow> u64" where
  "metal_align_up x align = (x + (align - 1)) AND NOT (align - 1)"

section \<open>Lowercasing\<close>

lemma byte_exhaust:
  assumes "list_all P (map word_of_nat [0..<256])"
  shows "P (b :: byte)"
proof -
  have "unat b \<in> set [0..<256]" using unat_byte_lt [of b] by simp
  then have "P (word_of_nat (unat b))" using assms unfolding list_all_iff set_map by blast
  then show ?thesis by simp
qed

lemma lower_lane_scalar: "lower_lane b = lower_scalar b"
  by (rule byte_exhaust [of "\<lambda>b. lower_lane b = lower_scalar b"]) code_simp

lemma byte_range_exhaust:
  assumes "list_all P (map word_of_nat [unat lo..<Suc (unat hi)])" "lo \<le> b" "b \<le> (hi :: byte)"
  shows "P b"
proof -
  have "unat b \<in> set [unat lo..<Suc (unat hi)]" using assms(2,3) by (auto simp: word_le_nat_alt)
  then have "P (word_of_nat (unat b))" using assms(1) unfolding list_all_iff set_map by blast
  then show ?thesis by simp
qed

lemma lower_scalar_same: "\<not> (b \<ge> 0x41 \<and> b \<le> 0x5a) \<Longrightarrow> lower_scalar b = b"
  by (auto simp: lower_scalar_def)

lemma lower_add: "(if b \<ge> 0x41 \<and> b \<le> 0x5a then b + 32 else b) = lower_scalar b"
proof (cases "b \<ge> 0x41 \<and> b \<le> 0x5a")
  case True
  then show ?thesis
    by (intro byte_range_exhaust [of "\<lambda>b. (if b \<ge> 0x41 \<and> b \<le> 0x5a then b + 32 else b) = lower_scalar b" "0x41" "0x5a"])
      (code_simp, auto)
qed (simp add: lower_scalar_same)

lemma lower_simd_map: "metal_lower_simd p = map lower_scalar p"
proof (induction p rule: metal_lower_simd.induct)
  case (1 p)
  then show ?case
    using append_take_drop_id [of 16 p]
    by (cases "length p \<ge> 16")
      (simp_all add: metal_lower_simd.simps [of p] lower_lane_scalar map_append [symmetric] del: map_append append_take_drop_id cong: map_cong)
qed

lemma fnv1a_append: "metal_fnv1a_step h (xs @ ys) = metal_fnv1a_step (metal_fnv1a_step h xs) ys"
  by (simp add: metal_fnv1a_step_def)

lemma fnv1a_lower: "metal_fnv1a_step_lower h data = metal_fnv1a_step h (map lower_scalar data)"
  by (simp add: metal_fnv1a_step_lower_def metal_fnv1a_step_def lower_add foldl_map)

lemma eq_n_eq: "n \<le> length a \<Longrightarrow> n \<le> length b \<Longrightarrow> metal_eq_n a b n \<longleftrightarrow> take n a = take n b"
proof (induction a b n rule: metal_eq_n.induct)
  case (1 a b n)
  show ?case
  proof (cases "n \<ge> 16")
    case True
    have "take n a = take n b \<longleftrightarrow> take 16 a = take 16 b \<and> take (n - 16) (drop 16 a) = take (n - 16) (drop 16 b)"
      using 1(2,3) True take_add [of 16 "n - 16" a] take_add [of 16 "n - 16" b] by auto
    then show ?thesis using 1 True by (auto simp: metal_eq_n.simps [of a b n] list.rel_eq)
  qed (auto simp: metal_eq_n.simps [of a b n])
qed

section \<open>Case-insensitive equality\<close>

lemma ld_bits:
  fixes bs :: bytes
  shows "bit (foldr (\<lambda>b w. push_bit 8 w OR ucast b) bs 0 :: u64) k \<longleftrightarrow>
     k < 64 \<and> k div 8 < length bs \<and> bit (bs ! (k div 8)) (k mod 8)"
proof (induction bs arbitrary: k)
  case (Cons b bs)
  show ?case
  proof (cases "k < 8")
    case True
    then show ?thesis by (simp add: bit_simps)
  next
    case False
    then obtain j where j: "k = j + 8" by (metis le_add_diff_inverse2 not_le)
    have "\<not> bit b (j + 8)" using bit_imp_le_length [of b "j + 8"] by auto
    moreover have "(j + 8) div 8 = Suc (j div 8)" "(j + 8) mod 8 = j mod 8" by simp_all
    ultimately show ?thesis using Cons.IH [of j] unfolding j by (auto simp: bit_simps)
  qed
qed simp

lemma ld_or_eq:
  assumes "off + n \<le> length a" "off + n \<le> length b" "n \<le> 8"
  shows "ld a off n OR ld (replicate 8 0x20) 0 n = ld b off n OR ld (replicate 8 0x20) 0 n \<longleftrightarrow>
    (\<forall>i<n. a ! (off + i) OR 0x20 = b ! (off + i) OR 0x20)"
proof -
  have l: "bit (ld xs off n) k \<longleftrightarrow> k < 64 \<and> k div 8 < n \<and> bit (xs ! (off + k div 8)) (k mod 8)"
    if "off + n \<le> length xs" for xs off k
    using that by (auto simp: ld_def ld_bits)
  show ?thesis
  proof
    assume e: "ld a off n OR ld (replicate 8 0x20) 0 n = ld b off n OR ld (replicate 8 0x20) 0 n"
    show "\<forall>i<n. a ! (off + i) OR 0x20 = b ! (off + i) OR 0x20"
    proof (intro allI impI bit_word_eqI)
      fix i j assume i: "i < n" and j: "j < LENGTH(8)"
      then have k: "(8 * i + j) div 8 = i" "(8 * i + j) mod 8 = j" "8 * i + j < 64" using assms(3) by auto
      have "bit (ld a off n OR ld (replicate 8 0x20) 0 n) (8 * i + j) = bit (ld b off n OR ld (replicate 8 0x20) 0 n) (8 * i + j)"
        using e by simp
      then show "bit (a ! (off + i) OR 0x20) j = bit (b ! (off + i) OR 0x20) j"
        using i k assms by (simp add: bit_or_iff l)
    qed
  next
    assume e: "\<forall>i<n. a ! (off + i) OR 0x20 = b ! (off + i) OR 0x20"
    show "ld a off n OR ld (replicate 8 0x20) 0 n = ld b off n OR ld (replicate 8 0x20) 0 n"
    proof (rule bit_word_eqI)
      fix k :: nat
      have "k div 8 < n \<Longrightarrow> bit (a ! (off + k div 8) OR 0x20) (k mod 8) = bit (b ! (off + k div 8) OR 0x20) (k mod 8)"
        using e by simp
      then show "bit (ld a off n OR ld (replicate 8 0x20) 0 n) k = bit (ld b off n OR ld (replicate 8 0x20) 0 n) k"
        using assms by (auto simp: bit_or_iff l)
    qed
  qed
qed

lemma ld_masks: "ld (replicate 8 0x20) 0 8 = 0x2020202020202020" "ld (replicate 8 0x20) 0 4 = 0x20202020"
  "ld (replicate 8 0x20) 0 2 = 0x2020"
  by code_simp+

lemma ld_eq_iff:
  assumes "off + n \<le> length a" "length a = length b"
  shows "n = 8 \<Longrightarrow> ld_eq a b off n 0x2020202020202020 \<longleftrightarrow> (\<forall>i\<in>{off..<off + n}. a ! i OR 0x20 = b ! i OR 0x20)"
    "n = 4 \<Longrightarrow> ld_eq a b off n 0x20202020 \<longleftrightarrow> (\<forall>i\<in>{off..<off + n}. a ! i OR 0x20 = b ! i OR 0x20)"
    "n = 2 \<Longrightarrow> ld_eq a b off n 0x2020 \<longleftrightarrow> (\<forall>i\<in>{off..<off + n}. a ! i OR 0x20 = b ! i OR 0x20)"
proof -
  have r: "(\<forall>i<n. P (off + i)) \<longleftrightarrow> (\<forall>i\<in>{off..<off + n}. P i)" for P
    by (auto simp: le_iff_add)
  have "n \<le> 8 \<Longrightarrow> ld_eq a b off n (ld (replicate 8 0x20) 0 n) \<longleftrightarrow> (\<forall>i\<in>{off..<off + n}. a ! i OR 0x20 = b ! i OR 0x20)"
    using ld_or_eq [of off n a b] assms r [of "\<lambda>i. a ! i OR 0x20 = b ! i OR 0x20"] by simp
  then show "n = 8 \<Longrightarrow> ld_eq a b off n 0x2020202020202020 \<longleftrightarrow> (\<forall>i\<in>{off..<off + n}. a ! i OR 0x20 = b ! i OR 0x20)"
    "n = 4 \<Longrightarrow> ld_eq a b off n 0x20202020 \<longleftrightarrow> (\<forall>i\<in>{off..<off + n}. a ! i OR 0x20 = b ! i OR 0x20)"
    "n = 2 \<Longrightarrow> ld_eq a b off n 0x2020 \<longleftrightarrow> (\<forall>i\<in>{off..<off + n}. a ! i OR 0x20 = b ! i OR 0x20)"
    using ld_masks by auto
qed

definition or20_eq :: "bytes \<Rightarrow> bytes \<Rightarrow> bool" where
  "or20_eq a b \<longleftrightarrow> (\<forall>i<length a. a ! i OR 0x20 = b ! i OR 0x20)"

lemma or20_split:
  assumes "\<And>i. i < length a \<longleftrightarrow> i \<in> A \<or> i \<in> B"
  shows "or20_eq a b \<longleftrightarrow> (\<forall>i\<in>A. a ! i OR 0x20 = b ! i OR 0x20) \<and> (\<forall>i\<in>B. a ! i OR 0x20 = b ! i OR 0x20)"
  using assms unfolding or20_eq_def by blast

lemma metal_ieq_cases:
  "metal_ieq a b \<longleftrightarrow> length a = length b \<and>
     (if length a \<in> {4, 10, 13, 14, 15, 17} then or20_eq a b else map lower_scalar a = map lower_scalar b)"
proof (cases "length a = length b")
  case eq: True
  have gen: "list_all2 (\<lambda>ca cb. (if ca \<ge> 0x41 \<and> ca \<le> 0x5a then ca + 32 else ca)
                            = (if cb \<ge> 0x41 \<and> cb \<le> 0x5a then cb + 32 else cb)) a b \<longleftrightarrow> map lower_scalar a = map lower_scalar b"
    using eq by (simp add: lower_add list_all2_conv_all_nth list_eq_iff_nth_eq)
  consider "length a = 4" | "length a = 10" | "length a = 13" | "length a = 14" | "length a = 15" | "length a = 17"
    | "length a \<notin> {4, 10, 13, 14, 15, 17}" by blast
  then show ?thesis
  proof cases
    case 1
    have "or20_eq a b \<longleftrightarrow> (\<forall>i\<in>{}. a ! i OR 0x20 = b ! i OR 0x20) \<and> (\<forall>i\<in>{0..<4}. a ! i OR 0x20 = b ! i OR 0x20)"
      using 1 by (intro or20_split) auto
    then show ?thesis using eq 1 ld_eq_iff(2) [of 0 4 a b]
      by (simp add: metal_ieq_def ball_Un)
  next
    case 2
    have "or20_eq a b \<longleftrightarrow> (\<forall>i\<in>{0..<8}. a ! i OR 0x20 = b ! i OR 0x20) \<and> (\<forall>i\<in>{8..<10}. a ! i OR 0x20 = b ! i OR 0x20)"
      using 2 by (intro or20_split) auto
    then show ?thesis using eq 2 ld_eq_iff(1) [of 0 8 a b] ld_eq_iff(3) [of 8 2 a b]
      by (simp add: metal_ieq_def ball_Un)
  next
    case 3
    have "or20_eq a b \<longleftrightarrow> (\<forall>i\<in>{0..<8} \<union> {8..<12}. a ! i OR 0x20 = b ! i OR 0x20) \<and> (\<forall>i\<in>{12}. a ! i OR 0x20 = b ! i OR 0x20)"
      using 3 by (intro or20_split) auto
    then show ?thesis using eq 3 ld_eq_iff(1) [of 0 8 a b] ld_eq_iff(2) [of 8 4 a b]
      by (simp add: metal_ieq_def ball_Un)
  next
    case 4
    have "or20_eq a b \<longleftrightarrow> (\<forall>i\<in>{0..<8} \<union> {8..<12}. a ! i OR 0x20 = b ! i OR 0x20) \<and> (\<forall>i\<in>{12..<14}. a ! i OR 0x20 = b ! i OR 0x20)"
      using 4 by (intro or20_split) auto
    then show ?thesis using eq 4 ld_eq_iff(1) [of 0 8 a b] ld_eq_iff(2) [of 8 4 a b] ld_eq_iff(3) [of 12 2 a b]
      by (simp add: metal_ieq_def ball_Un)
  next
    case 5
    have "or20_eq a b \<longleftrightarrow> (\<forall>i\<in>{0..<8}. a ! i OR 0x20 = b ! i OR 0x20) \<and> (\<forall>i\<in>{7..<15}. a ! i OR 0x20 = b ! i OR 0x20)"
      using 5 by (intro or20_split) auto
    then show ?thesis using eq 5 ld_eq_iff(1) [of 0 8 a b] ld_eq_iff(1) [of 7 8 a b]
      by (simp add: metal_ieq_def ball_Un)
  next
    case 6
    have "or20_eq a b \<longleftrightarrow> (\<forall>i\<in>{0..<8} \<union> {8..<16}. a ! i OR 0x20 = b ! i OR 0x20) \<and> (\<forall>i\<in>{16}. a ! i OR 0x20 = b ! i OR 0x20)"
      using 6 by (intro or20_split) auto
    then show ?thesis using eq 6 ld_eq_iff(1) [of 0 8 a b] ld_eq_iff(1) [of 8 8 a b]
      by (simp add: metal_ieq_def ball_Un)
  next
    case 7
    then show ?thesis using eq gen by (simp add: metal_ieq_def)
  qed
qed (simp add: metal_ieq_def)

text \<open>The bytes of the header names the server compares with: letters and the hyphen.\<close>

definition name_char :: "byte \<Rightarrow> bool" where
  "name_char c \<longleftrightarrow> c \<ge> 0x41 \<and> c \<le> 0x5a \<or> c \<ge> 0x61 \<and> c \<le> 0x7a \<or> c = 0x2d"

lemma lower_or20:
  "lower_scalar c OR 0x20 = c OR 0x20"
  "name_char (c OR 0x20) \<and> c \<noteq> 0x0d \<Longrightarrow> lower_scalar c = c OR 0x20"
  "name_char c \<Longrightarrow> name_char (c OR 0x20) \<and> c \<noteq> 0x0d"
proof -
  show "lower_scalar c OR 0x20 = c OR 0x20"
  proof (cases "c \<ge> 0x41 \<and> c \<le> 0x5a")
    case True
    then show ?thesis
      by (intro byte_range_exhaust [of "\<lambda>c. lower_scalar c OR 0x20 = c OR 0x20" "0x41" "0x5a"]) (code_simp, auto)
  qed (simp add: lower_scalar_same)
  show "name_char (c OR 0x20) \<and> c \<noteq> 0x0d \<Longrightarrow> lower_scalar c = c OR 0x20"
    by (rule byte_exhaust [of "\<lambda>c. name_char (c OR 0x20) \<and> c \<noteq> 0x0d \<longrightarrow> lower_scalar c = c OR 0x20", THEN mp]) code_simp
  let ?P = "\<lambda>c. name_char (c OR 0x20) \<and> c \<noteq> 0x0d"
  assume "name_char c"
  then consider "c \<ge> 0x41 \<and> c \<le> 0x5a" | "c \<ge> 0x61 \<and> c \<le> 0x7a" | "c = 0x2d" by (auto simp: name_char_def)
  then show "?P c"
  proof cases
    case 1
    then show ?thesis by (intro byte_range_exhaust [of ?P "0x41" "0x5a"]) (code_simp, auto)
  next
    case 2
    then show ?thesis by (intro byte_range_exhaust [of ?P "0x61" "0x7a"]) (code_simp, auto)
  next
    case 3
    then show ?thesis by (simp add: name_char_def)
  qed
qed

lemma or20_lower:
  assumes "name_char b" "a \<noteq> 0x0d"
  shows "a OR 0x20 = b OR 0x20 \<longleftrightarrow> lower_scalar a = lower_scalar b"
proof
  assume e: "a OR 0x20 = b OR 0x20"
  then have "name_char (a OR 0x20)" using lower_or20(3) [OF assms(1)] by simp
  then show "lower_scalar a = lower_scalar b" using lower_or20(2,3) assms e by simp
next
  assume "lower_scalar a = lower_scalar b"
  then show "a OR 0x20 = b OR 0x20" using lower_or20(1) [of a] lower_or20(1) [of b] by simp
qed

text \<open>The comparison of header names is case-insensitive equality for names of letters and hyphens.\<close>

lemma metal_ieq_lower:
  assumes "list_all name_char b" "0x0d \<notin> set a"
  shows "metal_ieq a b \<longleftrightarrow> map lower_scalar a = map lower_scalar b"
proof (cases "length a = length b")
  case True
  have "a ! i OR 0x20 = b ! i OR 0x20 \<longleftrightarrow> lower_scalar (a ! i) = lower_scalar (b ! i)" if "i < length a" for i
    using that True assms by (intro or20_lower) (auto simp: list_all_length in_set_conv_nth)
  then have "or20_eq a b \<longleftrightarrow> map lower_scalar a = map lower_scalar b"
    using True by (simp add: or20_eq_def list_eq_iff_nth_eq)
  then show ?thesis using True by (simp add: metal_ieq_cases)
next
  case False
  then show ?thesis by (auto simp: metal_ieq_cases dest: map_eq_imp_length_eq)
qed

section \<open>Powers of two\<close>

definition smeared :: "u64 \<Rightarrow> nat \<Rightarrow> u64 \<Rightarrow> bool" where
  "smeared n w x \<longleftrightarrow> (\<forall>k. bit x k \<longleftrightarrow> (\<exists>j\<in>{k..<k + w}. bit n j))"

lemma smeared_step: "smeared n w x \<Longrightarrow> smeared n (w + w) (x OR drop_bit w x)"
proof -
  assume s: "smeared n w x"
  show ?thesis unfolding smeared_def
  proof
    fix k
    have "bit (x OR drop_bit w x) k \<longleftrightarrow> (\<exists>j\<in>{k..<k + w}. bit n j) \<or> (\<exists>j\<in>{w + k..<w + k + w}. bit n j)"
      using s by (simp add: bit_or_iff bit_drop_bit_eq smeared_def)
    also have "\<dots> \<longleftrightarrow> (\<exists>j\<in>{k..<k + w} \<union> {w + k..<w + k + w}. bit n j)" by blast
    also have "{k..<k + w} \<union> {w + k..<w + k + w} = {k..<k + (w + w)}" by auto
    finally show "bit (x OR drop_bit w x) k \<longleftrightarrow> (\<exists>j\<in>{k..<k + (w + w)}. bit n j)" .
  qed
qed

lemma smeared_mask:
  assumes "smeared n 64 x" "n \<noteq> 0"
  obtains h where "h < 64" "x = mask (Suc h)" "2 ^ h \<le> unat n" "unat n < 2 ^ Suc h"
proof -
  let ?B = "{j. bit n j}"
  have sub: "?B \<subseteq> {..<64}" using bit_imp_le_length [of n] by auto
  have ne: "?B \<noteq> {}" using assms(2) by (auto simp: bit_eq_iff)
  define h where "h = Max ?B"
  have fin: "finite ?B" using sub finite_subset by blast
  have h: "bit n h" "h < 64" using Max_in [OF fin ne] sub by (auto simp: h_def)
  have top: "bit n j \<Longrightarrow> j \<le> h" for j using Max_ge [OF fin] by (simp add: h_def)
  have "x = mask (Suc h)"
  proof (rule bit_word_eqI)
    fix k assume "k < LENGTH(64)"
    have "bit x k \<longleftrightarrow> (\<exists>j\<in>{k..<k + 64}. bit n j)" using assms(1) by (simp add: smeared_def)
    also have "\<dots> \<longleftrightarrow> k \<le> h" using h top by (auto intro: order_trans)
    finally show "bit x k = bit (mask (Suc h) :: u64) k" using \<open>k < LENGTH(64)\<close> by (auto simp: bit_mask_iff)
  qed
  moreover have "take_bit (Suc h) n = n" using top by (intro bit_word_eqI) (auto simp: bit_take_bit_iff less_Suc_eq_le)
  then have "unat n < 2 ^ Suc h" by (metis unsigned_take_bit_eq take_bit_nat_less_exp)
  moreover have "2 ^ h \<le> unat n"
  proof -
    have "bit (unat n) h" using h(1) by (simp add: bit_unsigned_iff)
    then have "odd (unat n div 2 ^ h)" by (simp add: bit_iff_odd)
    then have "unat n div 2 ^ h \<noteq> 0" by (metis even_zero)
    then show ?thesis by (metis div_less not_le)
  qed
  ultimately show thesis using that h(2) by blast
qed

lemma next_pow2_smear:
  assumes "2 \<le> n"
  shows "\<exists>x. smeared (n - 1) 64 x \<and> metal_next_pow2 n = x + 1"
proof -
  define a where "a = n - 1"
  define b where "b = a OR drop_bit 1 a"
  define c where "c = b OR drop_bit 2 b"
  define d where "d = c OR drop_bit 4 c"
  define e where "e = d OR drop_bit 8 d"
  define f where "f = e OR drop_bit 16 e"
  have "smeared a 1 a" by (simp add: smeared_def)
  from smeared_step [OF this] have "smeared a 2 b" by (simp add: b_def numeral_2_eq_2)
  from smeared_step [OF this] have "smeared a 4 c" by (simp add: c_def)
  from smeared_step [OF this] have "smeared a 8 d" by (simp add: d_def)
  from smeared_step [OF this] have "smeared a 16 e" by (simp add: e_def)
  from smeared_step [OF this] have "smeared a 32 f" by (simp add: f_def)
  from smeared_step [OF this] have x: "smeared a 64 (f OR drop_bit 32 f)" by simp
  have "\<not> n < 2" using assms by simp
  then have "metal_next_pow2 n = (f OR drop_bit 32 f) + 1"
    unfolding metal_next_pow2_def Let_def a_def [symmetric] b_def [symmetric] c_def [symmetric]
      d_def [symmetric] e_def [symmetric] f_def [symmetric] by simp
  then show ?thesis using x by (auto simp: a_def)
qed

section \<open>Properties\<close>

text \<open>The result is the least power of two that is not below the argument.\<close>

lemma next_pow2_least:
  assumes "1 \<le> unat n" "unat n \<le> 2 ^ 63"
  shows "\<exists>k. unat (metal_next_pow2 n) = 2 ^ k \<and> unat n \<le> 2 ^ k \<and> 2 ^ k < 2 * unat n"
proof (cases "n = 1")
  case True
  then show ?thesis by (intro exI [of _ 0]) (simp add: metal_next_pow2_def)
next
  case False
  then have "unat n \<noteq> 1" using word_eqI_unat [of n 1] by auto
  then have two: "2 \<le> unat n" using assms(1) by simp
  then have n: "2 \<le> n" "unat (n - 1) = unat n - 1" by (simp_all add: word_le_nat_alt unat_sub_if_size)
  then have "n - 1 \<noteq> 0" using two by (metis One_nat_def diff_is_0_eq not_less_eq_eq numeral_2_eq_2 unat_eq_zero)
  obtain x where x: "smeared (n - 1) 64 x" "metal_next_pow2 n = x + 1" using next_pow2_smear [OF n(1)] by blast
  obtain h where h: "x = mask (Suc h)" "2 ^ h \<le> unat (n - 1)" "unat (n - 1) < 2 ^ Suc h"
    using smeared_mask [OF x(1) \<open>n - 1 \<noteq> 0\<close>] by blast
  have "2 ^ h < (2::nat) ^ 63" using h(2) n(2) assms(2) two by linarith
  then have "h < 63" by (rule power_less_imp_less_exp [rotated]) simp
  then have "Suc h \<le> 63" by simp
  then have "(2::nat) ^ Suc h < 2 ^ 64" by (intro power_strict_increasing) simp_all
  then have "unat (word_of_nat (2 ^ Suc h) :: u64) = 2 ^ Suc h" unfolding unat_of_nat by (intro mod_less) simp
  then have "unat (2 ^ Suc h :: u64) = 2 ^ Suc h" by simp
  moreover have "x + 1 = 2 ^ Suc h" using h(1) by (simp add: mask_eq_exp_minus_1)
  ultimately show ?thesis using h(2,3) n(2) two x(2) by (intro exI [of _ "Suc h"]) auto
qed

end
