(* ===== verification/Compress.thy ===== *)
theory Compress
  imports Util
begin

text \<open>
  The block-LZ codec of the static files, \<open>src/compress.c\<close>.  An output buffer is the list of the
  bytes written so far next to its capacity; \<open>return -1\<close> is \<open>None\<close>.  The two entry points return
  the number of bytes written as a C \<open>int\<close>, next to the bytes themselves: from \<open>2 ^ 31\<close> bytes on the
  conversion wraps around (\<open>c_int\<close>).
\<close>

section \<open>Definitions\<close>

definition METAL_COMP_BLOCK_SIZE :: nat where "METAL_COMP_BLOCK_SIZE = 508"
definition METAL_COMP_DICT_SIZE :: nat where "METAL_COMP_DICT_SIZE = 2048"
definition METAL_COMP_MIN_MATCH :: nat where "METAL_COMP_MIN_MATCH = 3"
definition METAL_COMP_MAX_MATCH :: nat where "METAL_COMP_MAX_MATCH = 18"

lemmas comp_consts = METAL_COMP_BLOCK_SIZE_def METAL_COMP_DICT_SIZE_def METAL_COMP_MIN_MATCH_def
  METAL_COMP_MAX_MATCH_def

text \<open>The literal flush, in runs of at most 127 bytes.\<close>

function flush_literals :: "nat \<Rightarrow> bytes \<Rightarrow> bytes \<Rightarrow> bytes option" where
  "flush_literals cap lits out =
     (if lits = [] then Some out
      else
        let run = (if length lits > 127 then 127 else length lits) in
        if length out + 1 + run > cap then None
        else flush_literals cap (drop run lits) (out @ [word_of_nat run] @ take run lits))"
  by pat_completeness auto
termination by (relation "measure (\<lambda>(cap, lits, out). length lits)") auto

declare flush_literals.simps [simp del]

text \<open>The length of the match of position \<open>i\<close> with position \<open>j\<close>.\<close>

function match_len :: "bytes \<Rightarrow> nat \<Rightarrow> nat \<Rightarrow> nat \<Rightarrow> nat \<Rightarrow> nat" where
  "match_len inp j i mx mlen =
     (if mlen < mx \<and> inp ! (j + mlen) = inp ! (i + mlen) then match_len inp j i mx (mlen + 1) else mlen)"
  by pat_completeness auto
termination by (relation "measure (\<lambda>(inp, j, i, mx, mlen). mx - mlen)") auto

declare match_len.simps [simp del]

text \<open>The scan of the window: the best length and offset, leaving at the first longest match.\<close>

primrec best_match :: "bytes \<Rightarrow> nat \<Rightarrow> nat list \<Rightarrow> nat \<times> nat \<Rightarrow> nat \<times> nat" where
  "best_match inp i [] best = best"
| "best_match inp i (j # js) best =
     (let mlen = match_len inp j i (min METAL_COMP_MAX_MATCH (length inp - i)) 0 in
      if mlen \<ge> METAL_COMP_MIN_MATCH \<and> mlen > fst best
      then if mlen = METAL_COMP_MAX_MATCH then (mlen, i - j) else best_match inp i js (mlen, i - j)
      else best_match inp i js best)"

definition match_token :: "nat \<Rightarrow> nat \<Rightarrow> bytes" where
  "match_token len off =
     [0x80 OR push_bit 3 (word_of_nat (len - METAL_COMP_MIN_MATCH)) OR (word_of_nat (off div 256) AND 7),
      word_of_nat off]"

function compress_loop :: "bytes \<Rightarrow> nat \<Rightarrow> nat \<Rightarrow> nat \<Rightarrow> bytes \<Rightarrow> bytes option" where
  "compress_loop inp cap i lit_start out =
     (if i < length inp then
        let window_start = (if i > METAL_COMP_DICT_SIZE then i - METAL_COMP_DICT_SIZE else 0);
            (best_len, best_off) = best_match inp i [window_start..<i] (0, 0)
        in if best_len \<ge> METAL_COMP_MIN_MATCH then
             do {
               out \<leftarrow> flush_literals cap (take (i - lit_start) (drop lit_start inp)) out;
               if length out + 2 > cap then None
               else compress_loop inp cap (i + best_len) (i + best_len) (out @ match_token best_len best_off)
             }
           else compress_loop inp cap (i + 1) lit_start out
      else flush_literals cap (take (i - lit_start) (drop lit_start inp)) out)"
  by pat_completeness auto
termination
  by (relation "measure (\<lambda>(inp, cap, i, lit_start, out). length inp - i)") (auto simp: comp_consts)

declare compress_loop.simps [simp del]

definition compress_block :: "bytes \<Rightarrow> nat \<Rightarrow> bytes option" where
  "compress_block inp cap = (if inp = [] then Some [] else compress_loop inp cap 0 0 [])"

definition le16 :: "nat \<Rightarrow> bytes" where
  "le16 n = [word_of_nat n, word_of_nat (n div 256)]"

text \<open>The payload of one block: stored when the LZ pass failed or did not help.\<close>

definition block_payload :: "bytes \<Rightarrow> bytes" where
  "block_payload blk =
     (case compress_block blk (METAL_COMP_BLOCK_SIZE + 64) of
        None \<Rightarrow> blk
      | Some lz \<Rightarrow> if length lz \<ge> length blk then blk else lz)"

function compress_blocks :: "nat \<Rightarrow> bytes \<Rightarrow> bytes \<Rightarrow> bytes option" where
  "compress_blocks cap inp out =
     (if inp = [] then Some out
      else
        let blk = take METAL_COMP_BLOCK_SIZE inp in
        if length out + 4 > cap then None
        else
          let payload = block_payload blk in
          if length out + 4 + length payload > cap then None
          else compress_blocks cap (drop METAL_COMP_BLOCK_SIZE inp)
                 (out @ le16 (length blk) @ le16 (length payload) @ payload))"
  by pat_completeness auto
termination by (relation "measure (\<lambda>(cap, inp, out). length inp)") (auto simp: comp_consts)

declare compress_blocks.simps [simp del]

text \<open>The conversion \<open>(int)op\<close> of a size.\<close>

definition c_int :: "nat \<Rightarrow> int" where
  "c_int n = sint (word_of_nat n :: 32 word)"

definition metal_compress :: "bytes \<Rightarrow> nat \<Rightarrow> (int \<times> bytes) option" where
  "metal_compress inp cap = map_option (\<lambda>out. (c_int (length out), out)) (compress_blocks cap inp [])"

text \<open>The copy of a match runs byte by byte, so that it may overlap its own output.\<close>

primrec copy_match :: "nat \<Rightarrow> nat \<Rightarrow> bytes \<Rightarrow> bytes" where
  "copy_match off 0 out = out"
| "copy_match off (Suc k) out = copy_match off k (out @ [out ! (length out - off)])"

function decompress_loop :: "nat \<Rightarrow> bytes \<Rightarrow> bytes \<Rightarrow> bytes option" where
  "decompress_loop cap inp out =
     (case inp of
        [] \<Rightarrow> Some out
      | tag # rest \<Rightarrow>
          if tag AND 0x80 \<noteq> 0 then
            (case rest of
               [] \<Rightarrow> None
             | lo # rest' \<Rightarrow>
                 let mlen = unat (drop_bit 3 tag AND 0x0f) + METAL_COMP_MIN_MATCH;
                     off = unat (tag AND 7) * 256 + unat lo
                 in if off = 0 \<or> off > length out then None
                    else if length out + mlen > cap then None
                    else decompress_loop cap rest' (copy_match off mlen out))
          else
            let run = unat tag in
            if run = 0 then Some out
            else if run > length rest \<or> length out + run > cap then None
            else decompress_loop cap (drop run rest) (out @ take run rest))"
  by pat_completeness auto
termination by (relation "measure (\<lambda>(cap, inp, out). length inp)") auto

declare decompress_loop.simps [simp del]

definition decompress_block :: "bytes \<Rightarrow> nat \<Rightarrow> bytes option" where
  "decompress_block inp cap = decompress_loop cap inp []"

function decompress_blocks :: "nat \<Rightarrow> bytes \<Rightarrow> bytes \<Rightarrow> bytes option" where
  "decompress_blocks cap inp out =
     (if length inp < 4 then Some out
      else
        let raw = unat (inp ! 0) + unat (inp ! 1) * 256;
            cmp = unat (inp ! 2) + unat (inp ! 3) * 256;
            rest = drop 4 inp
        in if cmp = 0 then None
           else if cmp > length rest then None
           else if length out + raw > cap then None
           else if raw = cmp then decompress_blocks cap (drop cmp rest) (out @ take raw rest)
           else (case decompress_block (take cmp rest) (cap - length out) of
                   None \<Rightarrow> None
                 | Some got \<Rightarrow>
                     if length got \<noteq> raw then None
                     else decompress_blocks cap (drop cmp rest) (out @ got)))"
  by pat_completeness auto
termination by (relation "measure (\<lambda>(cap, inp, out). length inp)") auto

declare decompress_blocks.simps [simp del]

definition metal_decompress :: "bytes \<Rightarrow> nat \<Rightarrow> (int \<times> bytes) option" where
  "metal_decompress inp cap = map_option (\<lambda>out. (c_int (length out), out)) (decompress_blocks cap inp [])"

definition metal_compress_bound :: "nat \<Rightarrow> nat" where
  "metal_compress_bound input_len =
     (let blocks = (input_len + METAL_COMP_BLOCK_SIZE - 1) div METAL_COMP_BLOCK_SIZE;
          blocks = (if blocks = 0 then 1 else blocks)
      in input_len + blocks * 4 + 64)"

definition substring_at :: "bytes \<Rightarrow> bytes \<Rightarrow> bool" where
  "substring_at tok v = list_ex (\<lambda>i. take (length tok) (drop i v) = tok) [0..<Suc (length v - length tok)]"

definition metal_compress_accepted :: "bytes \<Rightarrow> bool" where
  "metal_compress_accepted v =
     (let tok1 = str ''picoweb-compress''; tok2 = str ''BareMetal.Compress'' in
      if v = [] then False
      else if length v \<ge> length tok1 \<and> substring_at tok1 v then True
      else length v \<ge> length tok2 \<and> substring_at tok2 v)"

section \<open>The decoder on the encoder's tokens\<close>

lemma decompress_Nil [simp]: "decompress_loop cap [] out = Some out"
  by (simp add: decompress_loop.simps)

lemma high_bit_clear: "unat b < 128 \<Longrightarrow> (b :: byte) AND 0x80 = 0"
  by (rule byte_exhaust [of "\<lambda>b. unat b < 128 \<longrightarrow> b AND 0x80 = 0", THEN mp]) code_simp

lemma decompress_literal:
  assumes "0 < length lits" "length lits \<le> 127" "length out + length lits \<le> cap"
  shows "decompress_loop cap (word_of_nat (length lits) # lits @ rest) out = decompress_loop cap rest (out @ lits)"
proof -
  have u: "unat (word_of_nat (length lits) :: byte) = length lits" using assms(2) by (simp add: unat_of_nat)
  then have "(word_of_nat (length lits) :: byte) AND 0x80 = 0" using assms(2) by (intro high_bit_clear) simp
  then show ?thesis using assms u by (simp add: decompress_loop.simps [of cap "_ # _"] Let_def)
qed

lemma decompress_flush:
  assumes "flush_literals cap1 lits out1 = Some out2" "length out + length lits \<le> cap"
  shows "\<exists>toks. out2 = out1 @ toks \<and> (\<forall>rest. decompress_loop cap (toks @ rest) out = decompress_loop cap rest (out @ lits))"
  using assms
proof (induction cap1 lits out1 arbitrary: out rule: flush_literals.induct)
  case (1 cap1 lits out1)
  show ?case
  proof (cases "lits = []")
    case True
    then show ?thesis using "1.prems"(1) by (simp add: flush_literals.simps)
  next
    case False
    define run where "run = (if length lits > 127 then 127 else length lits)"
    have f: "flush_literals cap1 (drop run lits) (out1 @ [word_of_nat run] @ take run lits) = Some out2"
      and fit: "\<not> length out1 + 1 + run > cap1"
      using "1.prems"(1) False by (simp_all add: flush_literals.simps [of cap1 lits] run_def Let_def split: if_splits)
    have r: "length (take run lits) = run" "0 < run" "run \<le> 127" using False by (auto simp: run_def)
    have "length (out @ take run lits) + length (drop run lits) \<le> cap" using "1.prems"(2) by simp
    from "1.IH" [OF False run_def fit f this] obtain toks where
      t: "out2 = (out1 @ [word_of_nat run] @ take run lits) @ toks"
        "\<forall>rest. decompress_loop cap (toks @ rest) (out @ take run lits) = decompress_loop cap rest ((out @ take run lits) @ drop run lits)"
      by blast
    have "length out + length (take run lits) \<le> cap" using "1.prems"(2) by simp
    note lit = decompress_literal [OF _ _ this, unfolded r(1), OF r(2,3)]
    show ?thesis using t lit by (intro exI [of _ "word_of_nat run # take run lits @ toks"]) simp
  qed
qed

lemma byte_fields:
  assumes "l < 16" "h < 8"
  shows "(0x80 OR push_bit 3 (word_of_nat l) OR word_of_nat h :: byte) AND 0x80 \<noteq> 0"
    "unat (drop_bit 3 (0x80 OR push_bit 3 (word_of_nat l) OR word_of_nat h :: byte) AND 0x0f) = l"
    "unat ((0x80 OR push_bit 3 (word_of_nat l) OR word_of_nat h :: byte) AND 7) = h"
proof -
  have all: "list_all (\<lambda>l. list_all (\<lambda>h.
      (0x80 OR push_bit 3 (word_of_nat l) OR word_of_nat h :: byte) AND 0x80 \<noteq> 0
      \<and> unat (drop_bit 3 (0x80 OR push_bit 3 (word_of_nat l) OR word_of_nat h :: byte) AND 0x0f) = l
      \<and> unat ((0x80 OR push_bit 3 (word_of_nat l) OR word_of_nat h :: byte) AND 7) = h) [0..<8]) [0..<16]"
    by code_simp
  then show "(0x80 OR push_bit 3 (word_of_nat l) OR word_of_nat h :: byte) AND 0x80 \<noteq> 0"
    "unat (drop_bit 3 (0x80 OR push_bit 3 (word_of_nat l) OR word_of_nat h :: byte) AND 0x0f) = l"
    "unat ((0x80 OR push_bit 3 (word_of_nat l) OR word_of_nat h :: byte) AND 7) = h"
    using assms unfolding list_all_iff set_upt by simp_all
qed

lemma and7_small: "h < 8 \<Longrightarrow> (word_of_nat h :: byte) AND 7 = word_of_nat h"
proof -
  assume "h < 8"
  moreover have "list_all (\<lambda>h. (word_of_nat h :: byte) AND 7 = word_of_nat h) [0..<8]" by code_simp
  ultimately show ?thesis unfolding list_all_iff set_upt by simp
qed

lemma decompress_match:
  assumes "METAL_COMP_MIN_MATCH \<le> len" "len \<le> METAL_COMP_MAX_MATCH" "0 < off" "off < 2048" "off \<le> length out"
    "length out + len \<le> cap"
  shows "decompress_loop cap (match_token len off @ rest) out = decompress_loop cap rest (copy_match off len out)"
proof -
  have b: "len - METAL_COMP_MIN_MATCH < 16" "off div 256 < 8" using assms by (simp_all add: comp_consts less_mult_imp_div_less)
  note f = byte_fields [OF b] and a7 = and7_small [OF b(2)]
  have lo: "unat (word_of_nat off :: byte) = off mod 256" by (simp add: unat_of_nat)
  have o: "(off div 256) * 256 + off mod 256 = off" by (rule div_mult_mod_eq)
  show ?thesis using assms f lo o
    by (simp add: match_token_def decompress_loop.simps [of cap "_ # _"] Let_def a7)
qed

section \<open>Matches\<close>

definition valid_match :: "bytes \<Rightarrow> nat \<Rightarrow> nat \<times> nat \<Rightarrow> bool" where
  "valid_match inp i m \<longleftrightarrow> METAL_COMP_MIN_MATCH \<le> fst m \<and> fst m \<le> METAL_COMP_MAX_MATCH \<and> i + fst m \<le> length inp
     \<and> 0 < snd m \<and> snd m \<le> i \<and> (\<forall>k<fst m. inp ! (i - snd m + k) = inp ! (i + k))"

lemma match_len_spec:
  "mlen \<le> mx \<Longrightarrow> \<forall>k<mlen. inp ! (j + k) = inp ! (i + k) \<Longrightarrow>
     match_len inp j i mx mlen \<le> mx \<and> (\<forall>k<match_len inp j i mx mlen. inp ! (j + k) = inp ! (i + k))"
proof (induction inp j i mx mlen rule: match_len.induct)
  case (1 inp j i mx mlen)
  then show ?case by (cases "mlen < mx \<and> inp ! (j + mlen) = inp ! (i + mlen)")
    (auto simp: match_len.simps [of inp j i mx mlen] less_Suc_eq)
qed

lemma best_match_valid:
  "\<forall>j\<in>set js. j < i \<Longrightarrow> i \<le> length inp \<Longrightarrow> best = (0, 0) \<or> valid_match inp i best \<Longrightarrow>
     best_match inp i js best = (0, 0) \<or> valid_match inp i (best_match inp i js best)"
proof (induction js arbitrary: best)
  case (Cons j js)
  define m where "m = match_len inp j i (min METAL_COMP_MAX_MATCH (length inp - i)) 0"
  have m: "m \<le> min METAL_COMP_MAX_MATCH (length inp - i)" "\<forall>k<m. inp ! (j + k) = inp ! (i + k)"
    using match_len_spec [of 0 "min METAL_COMP_MAX_MATCH (length inp - i)" inp j i] by (simp_all add: m_def)
  have "METAL_COMP_MIN_MATCH \<le> m \<Longrightarrow> valid_match inp i (m, i - j)"
    using m Cons.prems(1,2) by (auto simp: valid_match_def)
  then show ?case using Cons by (auto simp: m_def [symmetric] Let_def)
qed simp

lemma copy_match_take:
  "j < i \<Longrightarrow> i + len \<le> length inp \<Longrightarrow> \<forall>k<len. inp ! (j + k) = inp ! (i + k) \<Longrightarrow>
     copy_match (i - j) len (take i inp) = take (i + len) inp"
proof (induction len arbitrary: i j)
  case (Suc len)
  have "take i inp ! (length (take i inp) - (i - j)) = inp ! i"
    using Suc.prems(1,2) Suc.prems(3) [rule_format, of 0] by simp
  then have step: "take i inp @ [take i inp ! (length (take i inp) - (i - j))] = take (Suc i) inp"
    using Suc.prems(2) by (simp add: take_Suc_conv_app_nth)
  have "\<forall>k<len. inp ! (Suc j + k) = inp ! (Suc i + k)" using Suc.prems(3) by auto
  then show ?case using Suc.IH [of "Suc j" "Suc i"] Suc.prems(1,2) step by simp
qed simp

section \<open>Blocks\<close>

lemma compress_loop_decodes:
  assumes "compress_loop inp cap i lit_start out = Some out'" "lit_start \<le> i" "i \<le> length inp"
    "length inp \<le> METAL_COMP_BLOCK_SIZE" "length inp \<le> cap2"
    "\<forall>rest. decompress_loop cap2 (out @ rest) [] = decompress_loop cap2 rest (take lit_start inp)"
  shows "decompress_loop cap2 out' [] = Some inp"
  using assms
proof (induction inp cap i lit_start out rule: compress_loop.induct)
  case (1 inp cap i lit_start out)
  let ?lits = "take (i - lit_start) (drop lit_start inp)"
  have lits: "take lit_start inp @ ?lits = take i inp" "length (take lit_start inp) + length ?lits \<le> cap2"
    using "1.prems"(2,3,5) take_add [of lit_start "i - lit_start" inp] by simp_all
  have flush: "\<forall>rest. decompress_loop cap2 (out2 @ rest) [] = decompress_loop cap2 rest (take i inp)"
    if fl: "flush_literals cap ?lits out = Some out2" for out2
  proof -
    obtain toks where "out2 = out @ toks"
      "\<forall>rest. decompress_loop cap2 (toks @ rest) (take lit_start inp) = decompress_loop cap2 rest (take lit_start inp @ ?lits)"
      using decompress_flush [OF fl lits(2)] by blast
    then show ?thesis using "1.prems"(6) lits(1) by simp
  qed
  show ?case
  proof (cases "i < length inp")
    case False
    then show ?thesis using "1.prems"(1,3) flush [rule_format, of out' "[]"]
      by (simp add: compress_loop.simps [of inp])
  next
    case True
    define ws where "ws = (if i > METAL_COMP_DICT_SIZE then i - METAL_COMP_DICT_SIZE else 0)"
    obtain bl bo where b: "best_match inp i [ws..<i] (0, 0) = (bl, bo)" by fastforce
    have v: "(bl, bo) = (0, 0) \<or> valid_match inp i (bl, bo)"
      using best_match_valid [of "[ws..<i]" i inp "(0, 0)"] b True by simp
    show ?thesis
    proof (cases "bl \<ge> METAL_COMP_MIN_MATCH")
      case False
      have "compress_loop inp cap (i + 1) lit_start out = Some out'"
        using "1.prems"(1) True False b by (simp add: compress_loop.simps [of inp cap i] ws_def)
      then show ?thesis
        using "1.IH"(2) [OF True ws_def b [symmetric] refl False _ _ _ "1.prems"(4,5,6)] "1.prems"(2) True by simp
    next
      case mt: True
      then have vm: "valid_match inp i (bl, bo)" using v by (auto simp: comp_consts)
      obtain out2 where o: "flush_literals cap ?lits out = Some out2" "\<not> length out2 + 2 > cap"
        "compress_loop inp cap (i + bl) (i + bl) (out2 @ match_token bl bo) = Some out'"
        using "1.prems"(1) True mt b
        by (auto simp: compress_loop.simps [of inp cap i] ws_def bind_eq_Some_conv split: if_splits)
      have "copy_match (i - (i - bo)) bl (take i inp) = take (i + bl) inp"
        using vm by (intro copy_match_take) (auto simp: valid_match_def)
      then have cm: "copy_match bo bl (take i inp) = take (i + bl) inp" using vm by (simp add: valid_match_def)
      have "bo < 2048" using vm True "1.prems"(4) by (simp add: valid_match_def comp_consts)
      then have "\<forall>rest. decompress_loop cap2 (match_token bl bo @ rest) (take i inp) = decompress_loop cap2 rest (take (i + bl) inp)"
        using vm "1.prems"(5) True by (subst decompress_match) (auto simp: valid_match_def cm)
      then have "\<forall>rest. decompress_loop cap2 ((out2 @ match_token bl bo) @ rest) [] = decompress_loop cap2 rest (take (i + bl) inp)"
        using flush [OF o(1)] by simp
      then show ?thesis
        using "1.IH"(1) [OF True ws_def b [symmetric] refl mt _ o(2,3) order_refl _ "1.prems"(4,5)] vm o(1)
        by (simp add: valid_match_def)
    qed
  qed
qed

lemma compress_block_decodes:
  assumes "compress_block blk cap = Some lz" "length blk \<le> METAL_COMP_BLOCK_SIZE" "length blk \<le> cap2"
  shows "decompress_block lz cap2 = Some blk"
proof (cases "blk = []")
  case True
  then show ?thesis using assms(1) by (simp add: compress_block_def decompress_block_def)
next
  case False
  then show ?thesis using compress_loop_decodes [of blk cap 0 0 "[]" lz cap2] assms
    by (simp add: compress_block_def decompress_block_def)
qed

lemma block_payload_props:
  assumes "blk \<noteq> []" "length blk \<le> METAL_COMP_BLOCK_SIZE"
  shows "0 < length (block_payload blk)" "length (block_payload blk) \<le> length blk"
    "length (block_payload blk) = length blk \<Longrightarrow> block_payload blk = blk"
    "length (block_payload blk) \<noteq> length blk \<Longrightarrow> length blk \<le> cap2 \<Longrightarrow> decompress_block (block_payload blk) cap2 = Some blk"
proof -
  have ne: "lz \<noteq> []" if "compress_block blk (METAL_COMP_BLOCK_SIZE + 64) = Some lz" for lz
    using compress_block_decodes [OF that assms(2) order_refl] assms(1) by (auto simp: decompress_block_def)
  show "0 < length (block_payload blk)" using ne assms(1) by (auto simp: block_payload_def split: option.splits)
  show "length (block_payload blk) \<le> length blk" "length (block_payload blk) = length blk \<Longrightarrow> block_payload blk = blk"
    by (auto simp: block_payload_def split: option.splits)
  show "length (block_payload blk) \<noteq> length blk \<Longrightarrow> length blk \<le> cap2 \<Longrightarrow> decompress_block (block_payload blk) cap2 = Some blk"
    using compress_block_decodes [OF _ assms(2)] by (auto simp: block_payload_def split: option.splits if_splits)
qed

lemma le16_value: "n < 65536 \<Longrightarrow> unat (le16 n ! 0) + unat (le16 n ! 1) * 256 = n"
  by (simp add: le16_def unat_of_nat less_mult_imp_div_less)

lemma decompress_one:
  assumes blk: "blk \<noteq> []" "length blk \<le> METAL_COMP_BLOCK_SIZE" and cap: "length acc + length blk \<le> cap2"
  shows "decompress_blocks cap2 (le16 (length blk) @ le16 (length (block_payload blk)) @ block_payload blk @ rest) acc
    = decompress_blocks cap2 rest (acc @ blk)"
proof -
  let ?p = "block_payload blk"
  note p = block_payload_props [OF blk]
  let ?i = "le16 (length blk) @ le16 (length ?p) @ ?p @ rest"
  have small: "length blk < 65536" "length ?p < 65536" using blk(2) p(2) by (simp_all add: comp_consts)
  have h: "unat (?i ! 0) + unat (?i ! 1) * 256 = length blk" "unat (?i ! 2) + unat (?i ! 3) * 256 = length ?p"
    "drop 4 ?i = ?p @ rest" "\<not> length ?i < 4"
    using le16_value [OF small(1)] le16_value [OF small(2)] by (simp_all add: le16_def)
  show ?thesis
  proof (cases "length ?p = length blk")
    case True
    then show ?thesis unfolding decompress_blocks.simps [of cap2 ?i] Let_def h(1-3)
      using h(4) p(1) p(3) [OF True] cap by simp
  next
    case False
    have "decompress_block ?p (cap2 - length acc) = Some blk" using p(4) [OF False] cap by simp
    then show ?thesis unfolding decompress_blocks.simps [of cap2 ?i] Let_def h(1-3)
      using h(4) p(1) False cap by auto
  qed
qed

lemma compress_blocks_decodes:
  assumes "compress_blocks cap inp out = Some out'" "length acc + length inp \<le> cap2"
  shows "\<exists>toks. out' = out @ toks \<and> decompress_blocks cap2 toks acc = Some (acc @ inp)"
  using assms
proof (induction cap inp out arbitrary: acc rule: compress_blocks.induct)
  case (1 cap inp out)
  show ?case
  proof (cases "inp = []")
    case True
    then show ?thesis using "1.prems"(1) by (simp add: compress_blocks.simps decompress_blocks.simps)
  next
    case False
    define blk where "blk = take METAL_COMP_BLOCK_SIZE inp"
    let ?hd = "le16 (length blk) @ le16 (length (block_payload blk)) @ block_payload blk"
    have b: "blk \<noteq> []" "length blk \<le> METAL_COMP_BLOCK_SIZE" using False by (simp_all add: blk_def comp_consts)
    have c: "\<not> length out + 4 > cap" "\<not> length out + 4 + length (block_payload blk) > cap"
      "compress_blocks cap (drop METAL_COMP_BLOCK_SIZE inp) (out @ ?hd) = Some out'"
      using "1.prems"(1) False by (simp_all add: compress_blocks.simps [of cap inp] blk_def Let_def split: if_splits)
    have split: "length blk + length (drop METAL_COMP_BLOCK_SIZE inp) = length inp" "blk @ drop METAL_COMP_BLOCK_SIZE inp = inp"
      by (simp_all add: blk_def)
    have "length (acc @ blk) + length (drop METAL_COMP_BLOCK_SIZE inp) \<le> cap2" using "1.prems"(2) split(1) by simp
    from "1.IH" [OF False blk_def c(1) refl c(2,3) this] obtain toks where
      t: "out' = (out @ ?hd) @ toks" "decompress_blocks cap2 toks (acc @ blk) = Some (acc @ inp)"
      using split(2) by auto
    have "length acc + length blk \<le> cap2" using "1.prems"(2) split(1) by simp
    from decompress_one [OF b this] t show ?thesis by (intro exI [of _ "?hd @ toks"]) simp
  qed
qed

lemma compress_blocks_fits:
  "length out + length inp + 4 * ((length inp + METAL_COMP_BLOCK_SIZE - 1) div METAL_COMP_BLOCK_SIZE) \<le> cap \<Longrightarrow>
     \<exists>out'. compress_blocks cap inp out = Some out'
       \<and> length out' \<le> length out + length inp + 4 * ((length inp + METAL_COMP_BLOCK_SIZE - 1) div METAL_COMP_BLOCK_SIZE)"
proof (induction cap inp out rule: compress_blocks.induct)
  case (1 cap inp out)
  show ?case
  proof (cases "inp = []")
    case True
    then show ?thesis using "1.prems" by (simp add: compress_blocks.simps)
  next
    case False
    define blk where "blk = take METAL_COMP_BLOCK_SIZE inp"
    let ?p = "block_payload blk" and ?r = "drop METAL_COMP_BLOCK_SIZE inp"
    have b: "blk \<noteq> []" "length blk \<le> METAL_COMP_BLOCK_SIZE" using False by (simp_all add: blk_def comp_consts)
    have p: "length ?p \<le> length blk" by (rule block_payload_props(2) [OF b])
    have len: "length blk + length ?r = length inp" by (simp add: blk_def)
    have pos: "0 < length inp" using False by simp
    have blocks: "Suc ((length ?r + METAL_COMP_BLOCK_SIZE - 1) div METAL_COMP_BLOCK_SIZE)
        \<le> (length inp + METAL_COMP_BLOCK_SIZE - 1) div METAL_COMP_BLOCK_SIZE"
    proof (cases "length inp \<le> METAL_COMP_BLOCK_SIZE")
      case True
      then show ?thesis using div_le_mono [of 508 "length inp + 507" 508] pos by (simp add: comp_consts)
    next
      case False
      then have "length inp + METAL_COMP_BLOCK_SIZE - 1 = (length ?r + METAL_COMP_BLOCK_SIZE - 1) + METAL_COMP_BLOCK_SIZE"
        by (simp add: comp_consts)
      then show ?thesis by (simp add: comp_consts)
    qed
    have l2: "length (le16 n) = 2" for n by (simp add: le16_def)
    have c: "\<not> length out + 4 > cap" "\<not> length out + 4 + length ?p > cap"
      "length (out @ le16 (length blk) @ le16 (length ?p) @ ?p) + length ?r + 4 * ((length ?r + METAL_COMP_BLOCK_SIZE - 1) div METAL_COMP_BLOCK_SIZE) \<le> cap"
      using "1.prems" blocks p len by (simp_all add: l2)
    let ?o = "out @ le16 (length blk) @ le16 (length ?p) @ ?p"
    have "length ?o + length ?r + 4 * ((length ?r + METAL_COMP_BLOCK_SIZE - 1) div METAL_COMP_BLOCK_SIZE)
        \<le> length out + length inp + 4 * ((length inp + METAL_COMP_BLOCK_SIZE - 1) div METAL_COMP_BLOCK_SIZE)"
      using blocks p len by (simp add: l2)
    moreover obtain out' where o: "compress_blocks cap ?r ?o = Some out'"
      "length out' \<le> length ?o + length ?r + 4 * ((length ?r + METAL_COMP_BLOCK_SIZE - 1) div METAL_COMP_BLOCK_SIZE)"
      using "1.IH" [OF False blk_def c(1) refl c(2,3)] by blast
    moreover have "compress_blocks cap inp out = Some out'"
      using False c(1,2) o(1) by (simp add: compress_blocks.simps [of cap inp] blk_def Let_def)
    ultimately show ?thesis by (intro exI [of _ out']) simp
  qed
qed

section \<open>Properties\<close>

lemma c_int_small: "n < 2 ^ 31 \<Longrightarrow> c_int n = int n"
  by (simp add: c_int_def signed_of_nat signed_take_bit_int_eq_self)

lemma c_int_negative: "2 ^ 31 \<le> n \<Longrightarrow> n < 2 ^ 32 \<Longrightarrow> c_int n = int n - 2 ^ 32"
  using mod_pos_pos_trivial [of "int n - 2 ^ 31" "2 ^ 32"] mod_add_self2 [of "int n - 2 ^ 31" "2 ^ 32"]
  by (simp add: c_int_def signed_of_nat signed_take_bit_eq_take_bit_shift take_bit_eq_mod add.commute)

text \<open>
  C6: The codec is lossless: whatever the input and the output capacity, when the compressor
  writes its output completely, the decompressor gives the input back from it, and returns its length (as a C \<open>int\<close>).
\<close>

theorem compress_roundtrip:
  assumes "metal_compress inp cap = Some (rc, out)" "length inp \<le> cap2"
  shows "metal_decompress out cap2 = Some (c_int (length inp), inp)"
  using compress_blocks_decodes [of cap inp "[]" out "[]" cap2] assms
  by (auto simp: metal_compress_def metal_decompress_def)

theorem compress_roundtrip_witness:
  "\<exists>out. metal_compress [1, 2, 3, 1, 2, 3, 1, 2, 3, 1, 2, 3] 100 = Some (10, out) \<and> length out = 10
     \<and> metal_decompress out 12 = Some (12, [1, 2, 3, 1, 2, 3, 1, 2, 3, 1, 2, 3])"
proof -
  let ?i = "[1, 2, 3, 1, 2, 3, 1, 2, 3, 1, 2, 3]"
  have "map_option (\<lambda>(rc, out). (rc, length out)) (metal_compress ?i 100) = Some (10, 10)" by code_simp
  then obtain out where o: "metal_compress ?i 100 = Some (10, out)" "length out = 10" by auto
  then show ?thesis using compress_roundtrip [OF o(1), of 12] by (simp add: c_int_small)
qed

text \<open>
  C38: The advertised bound is enough: with a buffer of \<open>metal_compress_bound\<close> bytes the compressor writes
  the whole output, within the bound. It returns the number of bytes written when the bound is below
  \<open>2 ^ 31\<close>; an output of \<open>2 ^ 31\<close> bytes or more (below \<open>2 ^ 32\<close>) makes the returned \<open>int\<close> negative, which callers
  take for a failure.
\<close>

theorem compress_bound_sufficient:
  assumes "metal_compress_bound (length inp) \<le> cap"
  shows "\<exists>rc out. metal_compress inp cap = Some (rc, out) \<and> length out \<le> metal_compress_bound (length inp)
    \<and> (metal_compress_bound (length inp) < 2 ^ 31 \<longrightarrow> rc = int (length out))
    \<and> (2 ^ 31 \<le> length out \<and> length out < 2 ^ 32 \<longrightarrow> rc < 0)"
proof -
  let ?n = "length inp + 4 * ((length inp + METAL_COMP_BLOCK_SIZE - 1) div METAL_COMP_BLOCK_SIZE)"
  have b: "?n \<le> metal_compress_bound (length inp)" by (simp add: metal_compress_bound_def Let_def)
  then have "length [] + ?n \<le> cap" using assms by simp
  then obtain out where o: "compress_blocks cap inp [] = Some out" "length out \<le> ?n"
    using compress_blocks_fits [of "[]" inp cap] by auto
  then show ?thesis using b by (auto simp: metal_compress_def c_int_small c_int_negative)
qed

theorem compress_bound_sufficient_witness:
  "\<exists>out. metal_compress [7, 7, 7] 71 = Some (int (length out), out)"
proof -
  have "metal_compress_bound (length [7 :: byte, 7, 7]) \<le> 71" by code_simp
  from compress_bound_sufficient [OF this] show ?thesis by (auto simp: metal_compress_bound_def comp_consts)
qed

end
