(* ===== verification/Jumptable.thy ===== *)
theory Jumptable
  imports Util
begin

text \<open>
  The flat open-addressing table from host and path to prebuilt responses: the table part of
  \<open>src/jumptable.c\<close>.  A resource pointer is a value of the type parameter; the null pointer of an
  empty slot is \<open>None\<close>.  \<open>metal_die\<close> ends the process and is the result \<open>None\<close> of an insertion.
  The lookup loop has no bound, so it is a partial function: not returning is \<open>None\<close>.
\<close>

section \<open>Interface\<close>

text \<open>A write-once table, and what a client that fills it and then reads it may rely on.\<close>

primrec fold_opt :: "('t \<Rightarrow> 'k \<Rightarrow> 'v \<Rightarrow> 't option) \<Rightarrow> 't \<Rightarrow> ('k \<times> 'v) list \<Rightarrow> 't option" where
  "fold_opt f t [] = Some t"
| "fold_opt f t (kv # kvs) = Option.bind (f t (fst kv) (snd kv)) (\<lambda>t'. fold_opt f t' kvs)"

locale write_once_table =
  fixes rel :: "'t \<Rightarrow> ('k \<rightharpoonup> 'v) \<Rightarrow> bool"
    and put :: "'t \<Rightarrow> 'k \<Rightarrow> 'v \<Rightarrow> 't option"
    and get :: "'t \<Rightarrow> 'k \<Rightarrow> 'v option option"
    and ok :: "'k \<Rightarrow> bool"
    and used :: "'t \<Rightarrow> nat"
    and room :: "'t \<Rightarrow> nat"
  assumes put_rel: "rel t m \<Longrightarrow> ok k \<Longrightarrow> put t k v = Some t' \<Longrightarrow> rel t' (if k \<in> dom m then m else m(k \<mapsto> v))"
    and put_room: "rel t m \<Longrightarrow> ok k \<Longrightarrow> used t + 2 < room t \<Longrightarrow>
      \<exists>t'. put t k v = Some t' \<and> used t' \<le> used t + 1 \<and> room t' = room t"
    and get_rel: "rel t m \<Longrightarrow> ok k \<Longrightarrow> get t k = Some (m k)"
begin

lemma put_all_rel:
  "rel t m \<Longrightarrow> \<forall>kv\<in>set kvs. ok (fst kv) \<Longrightarrow> fold_opt put t kvs = Some t' \<Longrightarrow> rel t' (map_of kvs ++ m)"
proof (induction kvs arbitrary: t m)
  case (Cons kv kvs)
  obtain t1 where p: "put t (fst kv) (snd kv) = Some t1" "fold_opt put t1 kvs = Some t'"
    using Cons.prems(3) by (auto simp: bind_eq_Some_conv)
  let ?m = "if fst kv \<in> dom m then m else m(fst kv \<mapsto> snd kv)"
  have "rel t' (map_of kvs ++ ?m)" using Cons.IH put_rel [OF Cons.prems(1) _ p(1)] Cons.prems(2) p(2) by simp
  moreover have "map_of kvs ++ ?m = map_of (kv # kvs) ++ m"
    by (rule ext) (auto simp: map_add_def split: option.splits)
  ultimately show ?case by (simp only:)
qed simp

lemma put_all_total:
  "rel t m \<Longrightarrow> \<forall>kv\<in>set kvs. ok (fst kv) \<Longrightarrow> used t + length kvs + 1 < room t \<Longrightarrow> \<exists>t'. fold_opt put t kvs = Some t'"
proof (induction kvs arbitrary: t m)
  case (Cons kv kvs)
  have "ok (fst kv)" "used t + 2 < room t" using Cons.prems(2,3) by simp_all
  from put_room [OF Cons.prems(1) this] obtain t1
    where t1: "put t (fst kv) (snd kv) = Some t1" "used t1 \<le> used t + 1" "room t1 = room t" by blast
  have "\<exists>t'. fold_opt put t1 kvs = Some t'"
    using Cons.prems(2,3) t1(2,3) by (intro Cons.IH [OF put_rel [OF Cons.prems(1) _ t1(1)]]) simp_all
  then show ?case using t1(1) by simp
qed simp

lemma get_put_all:
  "rel t Map.empty \<Longrightarrow> \<forall>kv\<in>set kvs. ok (fst kv) \<Longrightarrow> fold_opt put t kvs = Some t' \<Longrightarrow> ok k \<Longrightarrow>
     get t' k = Some (map_of kvs k)"
  using put_all_rel get_rel by fastforce

end

section \<open>Definitions\<close>

record 'r flat_slot =
  sl_hash :: u64
  sl_value :: "'r option"
  sl_host :: bytes
  sl_path :: bytes
  sl_lens :: u32

record 'r jumptable =
  jt_slots :: "'r flat_slot list"
  jt_cap :: u64
  jt_mask :: u64
  jt_size :: u64
  err_400 :: 'r
  err_404 :: 'r
  err_405 :: 'r
  err_409 :: 'r
  err_413 :: 'r
  err_414 :: 'r
  err_505 :: 'r
  known_hosts :: "bytes list"

definition key_hash :: "bytes \<Rightarrow> bytes \<Rightarrow> u64" where
  "key_hash host path =
     (let h = metal_fnv1a_init;
          h = metal_fnv1a_step h host;
          h = metal_fnv1a_step h [0x7c]
      in metal_fnv1a_step h path)"

definition empty_slot :: "'r flat_slot" where
  "empty_slot = \<lparr>sl_hash = 0, sl_value = None, sl_host = [], sl_path = [], sl_lens = 0\<rparr>"

definition flat_init :: "'r jumptable \<Rightarrow> u64 \<Rightarrow> 'r jumptable" where
  "flat_init jt expected_entries =
     (let cap = metal_next_pow2 (expected_entries * 2 + 1);
          cap = (if cap < 16 then 16 else cap)
      in jt\<lparr>jt_slots := replicate (unat cap) empty_slot, jt_cap := cap, jt_mask := cap - 1, jt_size := 0\<rparr>)"

definition pack_lens :: "bytes \<Rightarrow> bytes \<Rightarrow> u32" where
  "pack_lens host path = push_bit 16 (word_of_nat (length host)) OR word_of_nat (length path)"

text \<open>The probe loop of the insertion; \<open>probes\<close> counts down from the capacity.\<close>

primrec insert_probe :: "nat \<Rightarrow> 'r jumptable \<Rightarrow> u64 \<Rightarrow> u32 \<Rightarrow> bytes \<Rightarrow> bytes \<Rightarrow> 'r \<Rightarrow> u64 \<Rightarrow> 'r jumptable option" where
  "insert_probe 0 jt h lens host path value i = None"
| "insert_probe (Suc probes) jt h lens host path value i =
     (let s = jt_slots jt ! unat i in
      if sl_value s = None then
        let jt = jt\<lparr>jt_slots := (jt_slots jt)[unat i := \<lparr>sl_hash = h, sl_value = Some value, sl_host = host,
                                                     sl_path = path, sl_lens = lens\<rparr>],
                   jt_size := jt_size jt + 1\<rparr>
        in if jt_size jt + 1 \<ge> jt_cap jt then None else Some jt
      else if sl_hash s = h \<and> sl_lens s = lens \<and> take (length host) (sl_host s) = host
              \<and> take (length path) (sl_path s) = path then Some jt
      else insert_probe probes jt h lens host path value ((i + 1) AND jt_mask jt))"

definition flat_insert :: "'r jumptable \<Rightarrow> bytes \<Rightarrow> bytes \<Rightarrow> 'r \<Rightarrow> 'r jumptable option" where
  "flat_insert jt host path value =
     (if length host > 0xffff \<or> length path > 0xffff then None
      else
        let h = key_hash host path
        in insert_probe (unat (jt_cap jt)) jt h (pack_lens host path) host path value (h AND jt_mask jt))"

partial_function (option) lookup_probe ::
  "'r flat_slot list \<Rightarrow> u64 \<Rightarrow> u64 \<Rightarrow> u32 \<Rightarrow> bytes \<Rightarrow> bytes \<Rightarrow> u64 \<Rightarrow> 'r option option" where
  "lookup_probe slots msk h lens host path i =
     (let s = slots ! unat i in
      case sl_value s of
        None \<Rightarrow> Some None
      | Some v \<Rightarrow>
          if sl_hash s = h \<and> sl_lens s = lens \<and> metal_eq_n (sl_host s) host (length host)
             \<and> metal_eq_n (sl_path s) path (length path) then Some (Some v)
          else lookup_probe slots msk h lens host path ((i + 1) AND msk))"

definition flat_lookup :: "'r jumptable \<Rightarrow> bytes \<Rightarrow> bytes \<Rightarrow> 'r option option" where
  "flat_lookup jt host path =
     (if jt_cap jt = 0 then Some None
      else
        let h = key_hash host path
        in lookup_probe (jt_slots jt) (jt_mask jt) h (pack_lens host path) host path (h AND jt_mask jt))"

definition jumptable_lookup :: "'r jumptable \<Rightarrow> bytes \<Rightarrow> bytes \<Rightarrow> 'r option option" where
  "jumptable_lookup jt host path =
     (if path = [] \<or> path ! 0 \<noteq> 0x2f then Some None else flat_lookup jt host path)"

definition jumptable_host_exists :: "'r jumptable \<Rightarrow> bytes \<Rightarrow> bool" where
  "jumptable_host_exists jt host =
     list_ex (\<lambda>name. length name = length host \<and> take (length host) name = host) (known_hosts jt)"

section \<open>Probe sequences\<close>

text \<open>
  A table of capacity \<open>2 ^ k\<close>. The slot a key is probed at in step \<open>t\<close> is \<open>probe jt key t\<close>.
\<close>

type_synonym key = "bytes \<times> bytes"

definition probe :: "'r jumptable \<Rightarrow> key \<Rightarrow> nat \<Rightarrow> u64" where
  "probe jt key t = (key_hash (fst key) (snd key) + word_of_nat t) AND jt_mask jt"

definition key_ok :: "key \<Rightarrow> bool" where
  "key_ok key \<longleftrightarrow> length (fst key) \<le> 0xffff \<and> length (snd key) \<le> 0xffff"

definition slot_for :: "key \<Rightarrow> 'r \<Rightarrow> 'r flat_slot" where
  "slot_for key v = \<lparr>sl_hash = key_hash (fst key) (snd key), sl_value = Some v, sl_host = fst key,
     sl_path = snd key, sl_lens = pack_lens (fst key) (snd key)\<rparr>"

definition cap_ok :: "'r jumptable \<Rightarrow> bool" where
  "cap_ok jt \<longleftrightarrow> (\<exists>k<64. jt_cap jt = 2 ^ k) \<and> jt_mask jt = jt_cap jt - 1 \<and> length (jt_slots jt) = unat (jt_cap jt)"

definition occupied :: "'r jumptable \<Rightarrow> nat set" where
  "occupied jt = {i. i < length (jt_slots jt) \<and> sl_value (jt_slots jt ! i) \<noteq> None}"

lemma unat_2p: "k < 64 \<Longrightarrow> unat (2 ^ k :: u64) = 2 ^ k"
proof -
  assume "k < 64"
  then have "(2::nat) ^ k < 2 ^ 64" by (intro power_strict_increasing) simp_all
  then have "unat (word_of_nat (2 ^ k) :: u64) = 2 ^ k" unfolding unat_of_nat by (intro mod_less) simp
  then show ?thesis by simp
qed

lemma unat_and_mask: "k < 64 \<Longrightarrow> unat (x AND (2 ^ k - 1) :: u64) = unat x mod 2 ^ k"
proof -
  assume "k < 64"
  have "x AND (2 ^ k - 1) = take_bit k x" by (simp add: take_bit_eq_mask mask_eq_exp_minus_1)
  then have "unat (x AND (2 ^ k - 1)) = take_bit k (unat x)" by (simp only: unsigned_take_bit_eq)
  then show ?thesis by (simp only: take_bit_eq_mod)
qed

lemma probe_nat:
  assumes "cap_ok jt"
  shows "unat (probe jt key t) = (unat (key_hash (fst key) (snd key)) + t) mod unat (jt_cap jt)"
proof -
  obtain k where k: "k < 64" "jt_cap jt = 2 ^ k" "jt_mask jt = 2 ^ k - 1" using assms by (auto simp: cap_ok_def)
  have d: "(2::nat) ^ k dvd 2 ^ 64" by (rule le_imp_power_dvd) (use k(1) in simp)
  have "unat (probe jt key t) = ((unat (key_hash (fst key) (snd key)) + t mod 2 ^ 64) mod 2 ^ 64) mod 2 ^ k"
    unfolding probe_def k(3) unat_and_mask [OF k(1)] by (simp add: unat_word_ariths unat_of_nat)
  also have "\<dots> = (unat (key_hash (fst key) (snd key)) + t) mod 2 ^ k"
    using d by (simp add: mod_mod_cancel mod_add_right_eq)
  finally show ?thesis using k by (simp add: unat_2p)
qed

lemma probe_Suc:
  assumes "cap_ok jt"
  shows "(probe jt key t + 1) AND jt_mask jt = probe jt key (Suc t)"
proof (rule word_eqI_unat)
  obtain k where k: "k < 64" "jt_cap jt = 2 ^ k" "jt_mask jt = 2 ^ k - 1" using assms by (auto simp: cap_ok_def)
  have d: "(2::nat) ^ k dvd 2 ^ 64" by (rule le_imp_power_dvd) (use k(1) in simp)
  have "unat ((probe jt key t + 1) AND jt_mask jt) = ((unat (probe jt key t) + 1) mod 2 ^ 64) mod 2 ^ k"
    unfolding k(3) unat_and_mask [OF k(1)] by (simp add: unat_word_ariths)
  also have "\<dots> = (unat (probe jt key t) + 1) mod 2 ^ k" using d by (simp add: mod_mod_cancel)
  also have "\<dots> = unat (probe jt key (Suc t))"
    unfolding probe_nat [OF assms] k(2) unat_2p [OF k(1)] by (simp add: mod_Suc_eq)
  finally show "unat ((probe jt key t + 1) AND jt_mask jt) = unat (probe jt key (Suc t))" .
qed

lemma probe_onto:
  assumes "cap_ok jt" "i < length (jt_slots jt)"
  obtains t where "t < unat (jt_cap jt)" "unat (probe jt key t) = i"
proof -
  let ?c = "unat (jt_cap jt)" and ?h = "unat (key_hash (fst key) (snd key))"
  define t where "t = (i + (?c - ?h mod ?c)) mod ?c"
  have i: "i < ?c" using assms by (simp add: cap_ok_def)
  then have le: "?h mod ?c \<le> ?c" by (simp add: less_imp_le)
  have "(?h + t) mod ?c = (?h mod ?c + (i + (?c - ?h mod ?c))) mod ?c"
    by (simp add: t_def mod_add_left_eq mod_add_right_eq)
  also have "?h mod ?c + (i + (?c - ?h mod ?c)) = i + ?c" using le by simp
  also have "(i + ?c) mod ?c = i" using i by simp
  finally show thesis using that [of t] i probe_nat [OF assms(1)] by (simp add: t_def)
qed

section \<open>Keys and slots\<close>

definition slot_at :: "'r jumptable \<Rightarrow> key \<Rightarrow> nat \<Rightarrow> 'r flat_slot" where
  "slot_at jt key t = jt_slots jt ! unat (probe jt key t)"

lemma pack_lens_nat:
  "key_ok key \<Longrightarrow> unat (pack_lens (fst key) (snd key)) = length (fst key) * 65536 + length (snd key)"
proof -
  assume k: "key_ok key"
  then have l: "length (fst key) < 65536" "length (snd key) < 65536" by (simp_all add: key_ok_def)
  have d: "push_bit 16 (word_of_nat (length (fst key)) :: u32) AND word_of_nat (length (snd key)) = 0"
  proof (rule bit_word_eqI)
    fix n assume "n < LENGTH(32)"
    have "\<not> bit (length (snd key)) n" if "16 \<le> n"
      using bit_take_bit_iff [of 16 "length (snd key)" n] l(2) that by (simp add: take_bit_nat_eq_self)
    then show "bit (push_bit 16 (word_of_nat (length (fst key)) :: u32) AND word_of_nat (length (snd key))) n = bit (0 :: u32) n"
      by (auto simp: bit_simps)
  qed
  have p: "pack_lens (fst key) (snd key) = push_bit 16 (word_of_nat (length (fst key))) + word_of_nat (length (snd key))"
    unfolding pack_lens_def by (rule disjunctive_add_eq_or [OF d, symmetric])
  show ?thesis unfolding p using l by (simp add: push_bit_eq_mult unat_word_ariths unat_of_nat)
qed

lemma pack_lens_inj:
  assumes "key_ok k" "key_ok k'" "pack_lens (fst k) (snd k) = pack_lens (fst k') (snd k')"
  shows "length (fst k) = length (fst k')" "length (snd k) = length (snd k')"
proof -
  have e: "length (fst k) * 65536 + length (snd k) = length (fst k') * 65536 + length (snd k')"
    using pack_lens_nat [OF assms(1)] pack_lens_nat [OF assms(2)] assms(3) by simp
  have l: "length (snd k) < 65536" "length (snd k') < 65536" using assms by (simp_all add: key_ok_def)
  have "(length (fst k) * 65536 + length (snd k)) div 65536 = length (fst k)"
    "(length (fst k') * 65536 + length (snd k')) div 65536 = length (fst k')" using l by simp_all
  then show "length (fst k) = length (fst k')" using e by simp
  then show "length (snd k) = length (snd k')" using e by simp
qed

definition slot_is :: "'r flat_slot \<Rightarrow> key \<Rightarrow> bool" where
  "slot_is s key \<longleftrightarrow> sl_hash s = key_hash (fst key) (snd key) \<and> sl_lens s = pack_lens (fst key) (snd key)
     \<and> take (length (fst key)) (sl_host s) = fst key \<and> take (length (snd key)) (sl_path s) = snd key"

lemma slot_is_iff:
  assumes "key_ok k" "key_ok k'"
  shows "slot_is (slot_for k v) k' \<longleftrightarrow> k = k'"
    and "sl_lens (slot_for k v) = pack_lens (fst k') (snd k') \<Longrightarrow>
      metal_eq_n (sl_host (slot_for k v)) (fst k') (length (fst k')) \<and> metal_eq_n (sl_path (slot_for k v)) (snd k') (length (snd k'))
      \<longleftrightarrow> k = k'"
proof -
  show "slot_is (slot_for k v) k' \<longleftrightarrow> k = k'"
    using pack_lens_inj [OF assms] by (auto simp: slot_is_def slot_for_def prod_eq_iff)
  assume "sl_lens (slot_for k v) = pack_lens (fst k') (snd k')"
  then have l: "length (fst k) = length (fst k')" "length (snd k) = length (snd k')"
    using pack_lens_inj [OF assms] by (simp_all add: slot_for_def)
  show "metal_eq_n (sl_host (slot_for k v)) (fst k') (length (fst k')) \<and> metal_eq_n (sl_path (slot_for k v)) (snd k') (length (snd k'))
      \<longleftrightarrow> k = k'"
    using eq_n_eq [of "length (fst k')" "fst k" "fst k'"] eq_n_eq [of "length (snd k')" "snd k" "snd k'"] l
    by (auto simp: slot_for_def prod_eq_iff)
qed

section \<open>The table as a map\<close>

text \<open>
  A table represents a map when its slots hold exactly the map's entries and each entry can be
  reached from its home slot over entries of other keys.
\<close>

definition reached :: "'r jumptable \<Rightarrow> key \<Rightarrow> nat \<Rightarrow> bool" where
  "reached jt key t \<longleftrightarrow> (\<forall>t'<t. \<exists>k v. k \<noteq> key \<and> key_ok k \<and> slot_at jt key t' = slot_for k v)"

definition flat_rel :: "'r jumptable \<Rightarrow> (key \<rightharpoonup> 'r) \<Rightarrow> bool" where
  "flat_rel jt m \<longleftrightarrow> cap_ok jt \<and> card (occupied jt) = unat (jt_size jt) \<and> unat (jt_size jt) + 1 < unat (jt_cap jt)
     \<and> (\<forall>i\<in>occupied jt. \<exists>k v. key_ok k \<and> jt_slots jt ! i = slot_for k v \<and> m k = Some v)
     \<and> (\<forall>k v. m k = Some v \<longrightarrow> key_ok k \<and> (\<exists>t<unat (jt_cap jt). slot_at jt k t = slot_for k v \<and> reached jt k t))"

lemma flat_relI:
  assumes "cap_ok jt" "card (occupied jt) = unat (jt_size jt)" "unat (jt_size jt) + 1 < unat (jt_cap jt)"
    "\<And>i. i \<in> occupied jt \<Longrightarrow> \<exists>k v. key_ok k \<and> jt_slots jt ! i = slot_for k v \<and> m k = Some v"
    "\<And>k v. m k = Some v \<Longrightarrow> key_ok k \<and> (\<exists>t<unat (jt_cap jt). slot_at jt k t = slot_for k v \<and> reached jt k t)"
  shows "flat_rel jt m"
  unfolding flat_rel_def by (intro conjI assms(1-3) ballI allI impI; (rule assms(4), assumption)?; (drule assms(5), simp)?)

lemma flat_rel_cap: "flat_rel jt m \<Longrightarrow> cap_ok jt"
  by (simp only: flat_rel_def)

lemma flat_rel_slot: "flat_rel jt m \<Longrightarrow> i \<in> occupied jt \<Longrightarrow> \<exists>k v. key_ok k \<and> jt_slots jt ! i = slot_for k v \<and> m k = Some v"
  unfolding flat_rel_def by blast

lemma flat_rel_entry:
  "flat_rel jt m \<Longrightarrow> m k = Some v \<Longrightarrow> key_ok k \<and> (\<exists>t<unat (jt_cap jt). slot_at jt k t = slot_for k v \<and> reached jt k t)"
  unfolding flat_rel_def by blast

lemma probe_lt: "cap_ok jt \<Longrightarrow> unat (probe jt key t) < length (jt_slots jt)"
proof -
  assume c: "cap_ok jt"
  then have "unat (jt_cap jt) > 0" by (auto simp: cap_ok_def unat_2p)
  then show ?thesis using c probe_nat [OF c] by (simp add: cap_ok_def)
qed

lemma slot_at_occupied:
  assumes "flat_rel jt m"
  shows "sl_value (slot_at jt key t) = None \<or> (\<exists>k v. key_ok k \<and> slot_at jt key t = slot_for k v \<and> m k = Some v)"
proof (cases "sl_value (slot_at jt key t) = None")
  case False
  then have "unat (probe jt key t) \<in> occupied jt"
    using probe_lt [OF flat_rel_cap [OF assms]] by (simp add: occupied_def slot_at_def)
  from flat_rel_slot [OF assms this] show ?thesis unfolding slot_at_def by blast
qed simp

lemma free_slot:
  assumes "flat_rel jt m"
  shows "\<exists>t<unat (jt_cap jt). sl_value (slot_at jt key t) = None"
proof -
  have c: "cap_ok jt" using assms by (simp add: flat_rel_def)
  have "card (occupied jt) < card {..<length (jt_slots jt)}" using assms c by (simp add: flat_rel_def cap_ok_def)
  moreover have "finite (occupied jt)" by (simp add: occupied_def)
  ultimately have "\<not> {..<length (jt_slots jt)} \<subseteq> occupied jt" using card_mono leD by blast
  then obtain i where i: "i < length (jt_slots jt)" "sl_value (jt_slots jt ! i) = None" by (auto simp: occupied_def)
  obtain t where "t < unat (jt_cap jt)" "unat (probe jt key t) = i" using probe_onto [OF c i(1)] .
  then show ?thesis using i(2) by (auto simp: slot_at_def)
qed

text \<open>Where the probing of a key stops: at its entry or at the first free slot.\<close>

lemma stop_cases:
  assumes "flat_rel jt m" "key_ok key"
  obtains (hit) t v where "t < unat (jt_cap jt)" "m key = Some v" "slot_at jt key t = slot_for key v" "reached jt key t"
  | (miss) t where "t < unat (jt_cap jt)" "m key = None" "sl_value (slot_at jt key t) = None" "reached jt key t"
proof (cases "m key")
  case (Some v)
  from flat_rel_entry [OF assms(1) this] this show thesis using hit by blast
next
  case None
  obtain t0 where t0: "t0 < unat (jt_cap jt)" "sl_value (slot_at jt key t0) = None" using free_slot [OF assms(1)] by blast
  define t where "t = (LEAST t. sl_value (slot_at jt key t) = None)"
  have t: "sl_value (slot_at jt key t) = None" "t \<le> t0"
    unfolding t_def by (rule LeastI [of "\<lambda>t. sl_value (slot_at jt key t) = None", OF t0(2)],
      rule Least_le [of "\<lambda>t. sl_value (slot_at jt key t) = None", OF t0(2)])
  have "reached jt key t" unfolding reached_def
  proof (intro allI impI)
    fix t' assume "t' < t"
    then have "sl_value (slot_at jt key t') \<noteq> None"
      using not_less_Least [of t' "\<lambda>t. sl_value (slot_at jt key t) = None"] by (simp add: t_def)
    then obtain k v where k: "key_ok k" "slot_at jt key t' = slot_for k v" "m k = Some v"
      using slot_at_occupied [OF assms(1), of key t'] by metis
    moreover have "k \<noteq> key" using k(3) None by (intro notI) simp
    ultimately show "\<exists>k v. k \<noteq> key \<and> key_ok k \<and> slot_at jt key t' = slot_for k v" by blast
  qed
  then show thesis using miss t t0(1) None by (meson le_less_trans)
qed

section \<open>Lookup and insertion\<close>

abbreviation look :: "'r jumptable \<Rightarrow> key \<Rightarrow> u64 \<Rightarrow> 'r option option" where
  "look jt key i \<equiv> lookup_probe (jt_slots jt) (jt_mask jt) (key_hash (fst key) (snd key))
     (pack_lens (fst key) (snd key)) (fst key) (snd key) i"

abbreviation ins :: "nat \<Rightarrow> 'r jumptable \<Rightarrow> key \<Rightarrow> 'r \<Rightarrow> u64 \<Rightarrow> 'r jumptable option" where
  "ins n jt key v i \<equiv> insert_probe n jt (key_hash (fst key) (snd key)) (pack_lens (fst key) (snd key))
     (fst key) (snd key) v i"

lemma look_skip:
  assumes "cap_ok jt" "key_ok key" "slot_at jt key t = slot_for k v" "k \<noteq> key" "key_ok k"
  shows "look jt key (probe jt key t) = look jt key (probe jt key (Suc t))"
proof -
  have s: "jt_slots jt ! unat (probe jt key t) = slot_for k v" using assms(3) by (simp add: slot_at_def)
  have "\<not> (sl_hash (slot_for k v) = key_hash (fst key) (snd key) \<and> sl_lens (slot_for k v) = pack_lens (fst key) (snd key)
      \<and> metal_eq_n (sl_host (slot_for k v)) (fst key) (length (fst key)) \<and> metal_eq_n (sl_path (slot_for k v)) (snd key) (length (snd key)))"
  proof (intro notI, elim conjE)
    assume l: "sl_lens (slot_for k v) = pack_lens (fst key) (snd key)"
      and q: "metal_eq_n (sl_host (slot_for k v)) (fst key) (length (fst key))" "metal_eq_n (sl_path (slot_for k v)) (snd key) (length (snd key))"
    from slot_is_iff(2) [OF assms(5,2) l] q have "k = key" by (simp only: simp_thms)
    with assms(4) show False ..
  qed
  then show ?thesis
    apply (subst lookup_probe.simps)
    apply (simp only: s Let_def probe_Suc [OF assms(1)] if_False)
    apply (simp add: slot_for_def)
    done
qed

lemma look_reached: "cap_ok jt \<Longrightarrow> key_ok key \<Longrightarrow> reached jt key t \<Longrightarrow> look jt key (probe jt key 0) = look jt key (probe jt key t)"
proof (induction t)
  case (Suc t)
  obtain k v where "k \<noteq> key" "key_ok k" "slot_at jt key t = slot_for k v"
    using Suc.prems(3) unfolding reached_def by (metis lessI)
  then have "look jt key (probe jt key t) = look jt key (probe jt key (Suc t))" using look_skip Suc.prems(1,2) by metis
  moreover have "reached jt key t" using Suc.prems(3) by (auto simp: reached_def)
  ultimately show ?case using Suc.IH Suc.prems(1,2) by metis
qed simp

lemma flat_lookup_rel:
  assumes "flat_rel jt m" "key_ok key"
  shows "flat_lookup jt (fst key) (snd key) = Some (m key)"
proof -
  note c = flat_rel_cap [OF assms(1)]
  have "jt_cap jt \<noteq> 0" using assms(1) unfolding flat_rel_def by (metis not_less_zero unsigned_0)
  then have e: "flat_lookup jt (fst key) (snd key) = look jt key (probe jt key 0)" by (simp add: flat_lookup_def probe_def Let_def)
  show ?thesis using assms
  proof (cases rule: stop_cases)
    case (hit t v)
    have s: "jt_slots jt ! unat (probe jt key t) = slot_for key v" using hit(3) by (simp add: slot_at_def)
    have "look jt key (probe jt key t) = Some (Some v)"
      by (subst lookup_probe.simps) (simp add: s Let_def, simp add: slot_for_def eq_n_eq)
    then show ?thesis using e look_reached [OF c assms(2) hit(4)] hit(2) by simp
  next
    case (miss t)
    have s: "sl_value (jt_slots jt ! unat (probe jt key t)) = None" using miss(3) by (simp add: slot_at_def)
    have "look jt key (probe jt key t) = Some None" by (subst lookup_probe.simps) (simp add: s Let_def)
    then show ?thesis using e look_reached [OF c assms(2) miss(4)] miss(2) by simp
  qed
qed

lemma ins_skip:
  assumes "cap_ok jt" "key_ok key" "slot_at jt key t = slot_for k v" "k \<noteq> key" "key_ok k"
  shows "ins (Suc n) jt key x (probe jt key t) = ins n jt key x (probe jt key (Suc t))"
proof -
  have s: "jt_slots jt ! unat (probe jt key t) = slot_for k v" using assms(3) by (simp add: slot_at_def)
  have "\<not> slot_is (slot_for k v) key" using slot_is_iff(1) [OF assms(5,2)] assms(4) by simp
  then show ?thesis
    by (simp add: s Let_def probe_Suc [OF assms(1)] slot_is_def) (auto simp: slot_for_def)
qed

lemma ins_reached:
  "cap_ok jt \<Longrightarrow> key_ok key \<Longrightarrow> reached jt key t \<Longrightarrow> ins (n + t) jt key x (probe jt key 0) = ins n jt key x (probe jt key t)"
proof (induction t arbitrary: n)
  case (Suc t)
  obtain k v where "k \<noteq> key" "key_ok k" "slot_at jt key t = slot_for k v"
    using Suc.prems(3) unfolding reached_def by (metis lessI)
  then have "ins (Suc n) jt key x (probe jt key t) = ins n jt key x (probe jt key (Suc t))" using ins_skip Suc.prems(1,2) by metis
  moreover have "reached jt key t" using Suc.prems(3) by (auto simp: reached_def)
  ultimately show ?case using Suc.IH [of "Suc n"] Suc.prems(1,2) by simp
qed simp

lemma size_bound: "flat_rel jt m \<Longrightarrow> unat (jt_size jt + 1) = unat (jt_size jt) + 1"
proof -
  assume "flat_rel jt m"
  then have "unat (jt_size jt) + 1 < unat (jt_cap jt)" by (simp add: flat_rel_def)
  moreover have "unat (jt_cap jt) < 2 ^ 64" using unsigned_less [of "jt_cap jt", where 'a = nat] by simp
  ultimately show ?thesis by (simp add: unat_word_ariths)
qed

text \<open>Filling a free slot that the key reaches adds the entry to the map.\<close>

lemma fill_rel:
  assumes rel: "flat_rel jt m" and key: "key_ok key" and t: "t < unat (jt_cap jt)" "m key = None"
    "sl_value (slot_at jt key t) = None" "reached jt key t"
    and size: "\<not> jt_size jt + 1 + 1 \<ge> jt_cap jt"
  shows "flat_rel (jt\<lparr>jt_slots := (jt_slots jt)[unat (probe jt key t) := slot_for key v], jt_size := jt_size jt + 1\<rparr>) (m(key \<mapsto> v))"
    (is "flat_rel ?jt _")
proof -
  let ?p = "unat (probe jt key t)"
  note c = flat_rel_cap [OF rel]
  have p: "?p < length (jt_slots jt)" by (rule probe_lt [OF c])
  have c': "cap_ok ?jt" using c by (simp add: cap_ok_def)
  have pr: "probe ?jt k u = probe jt k u" for k u by (simp add: probe_def)
  have at: "slot_at ?jt k u = (if unat (probe jt k u) = ?p then slot_for key v else slot_at jt k u)" for k u
    using p by (simp add: slot_at_def pr nth_list_update)
  have free: "?p \<notin> occupied jt" using t(3) by (simp add: occupied_def slot_at_def)
  have occ: "occupied ?jt = insert ?p (occupied jt)"
    using p by (auto simp: occupied_def nth_list_update slot_for_def)
  have keep: "slot_at ?jt k u = slot_for k' v'" if "slot_at jt k u = slot_for k' v'" for k u k' v'
  proof -
    have "unat (probe jt k u) \<noteq> ?p"
    proof
      assume e: "unat (probe jt k u) = ?p"
      have "sl_value (slot_at jt k u) = None" using t(3) by (simp add: slot_at_def e)
      then show False using that by (simp add: slot_for_def)
    qed
    then show ?thesis using that by (simp add: at)
  qed
  have reach: "reached ?jt k u" if "reached jt k u" for k u
    using that keep unfolding reached_def by metis
  have sz: "unat (jt_size jt) + 1 < unat (jt_cap jt)" "card (occupied jt) = unat (jt_size jt)" "finite (occupied jt)"
    using rel by (simp_all add: flat_rel_def occupied_def)
  have lt: "unat (jt_cap jt) < 2 ^ 64" using unsigned_less [of "jt_cap jt", where 'a = nat] by simp
  have sz1: "unat (jt_size jt + 1) = unat (jt_size jt) + 1" by (rule size_bound [OF rel])
  have "unat (jt_size jt + 1 + 1) = unat (jt_size jt) + 2"
    using sz(1) lt sz1 unat_word_ariths(1) [of "jt_size jt + 1" 1] by simp
  then have sz2: "unat (jt_size jt + 1) + 1 < unat (jt_cap jt)" using size sz1 unfolding word_le_nat_alt by linarith
  have slots: "\<exists>k x. key_ok k \<and> jt_slots ?jt ! i = slot_for k x \<and> (m(key \<mapsto> v)) k = Some x" if "i \<in> occupied ?jt" for i
  proof (cases "i = ?p")
    case True
    then show ?thesis using key p by (intro exI [of _ key] exI [of _ v]) simp
  next
    case False
    then have "i \<in> occupied jt" using that occ by simp
    from flat_rel_slot [OF rel this] obtain k x where k: "key_ok k" "jt_slots jt ! i = slot_for k x" "m k = Some x" by blast
    then show ?thesis using False t(2) by (intro exI [of _ k] exI [of _ x]) auto
  qed
  have ents: "key_ok k \<and> (\<exists>u<unat (jt_cap ?jt). slot_at ?jt k u = slot_for k x \<and> reached ?jt k u)"
    if "(m(key \<mapsto> v)) k = Some x" for k x
  proof (cases "k = key")
    case True
    then have x: "x = v" using that by simp
    have "t < unat (jt_cap ?jt)" "slot_at ?jt key t = slot_for key v" using t(1) at [of key t] by simp_all
    then show ?thesis using key reach [OF t(4)] unfolding x True by blast
  next
    case False
    then have "m k = Some x" using that by simp
    from flat_rel_entry [OF rel this] obtain u where u: "key_ok k" "u < unat (jt_cap jt)" "slot_at jt k u = slot_for k x" "reached jt k u"
      by blast
    have "u < unat (jt_cap ?jt)" using u(2) by simp
    then show ?thesis using u(1) keep [OF u(3)] reach [OF u(4)] by blast
  qed
  show ?thesis
  proof (rule flat_relI [OF c'])
    show "card (occupied ?jt) = unat (jt_size ?jt)" using sz sz1 free occ by simp
    show "unat (jt_size ?jt) + 1 < unat (jt_cap ?jt)" using sz2 by simp
    show "\<exists>k x. key_ok k \<and> jt_slots ?jt ! i = slot_for k x \<and> (m(key \<mapsto> v)) k = Some x" if "i \<in> occupied ?jt" for i
      by (rule slots [OF that])
    show "key_ok k \<and> (\<exists>u<unat (jt_cap ?jt). slot_at ?jt k u = slot_for k x \<and> reached ?jt k u)" if "(m(key \<mapsto> v)) k = Some x" for k x
      by (rule ents [OF that])
  qed
qed

abbreviation filled :: "'r jumptable \<Rightarrow> key \<Rightarrow> 'r \<Rightarrow> nat \<Rightarrow> 'r jumptable" where
  "filled jt key v t \<equiv> jt\<lparr>jt_slots := (jt_slots jt)[unat (probe jt key t) := slot_for key v], jt_size := jt_size jt + 1\<rparr>"

lemma flat_insert_cases:
  assumes "flat_rel jt m" "key_ok key"
  obtains (present) "key \<in> dom m" "flat_insert jt (fst key) (snd key) v = Some jt"
  | (absent) t where "t < unat (jt_cap jt)" "m key = None" "sl_value (slot_at jt key t) = None" "reached jt key t"
      "flat_insert jt (fst key) (snd key) v = (if jt_size jt + 1 + 1 \<ge> jt_cap jt then None else Some (filled jt key v t))"
proof -
  note c = flat_rel_cap [OF assms(1)]
  have run: "flat_insert jt (fst key) (snd key) v = ins (Suc (unat (jt_cap jt) - Suc t)) jt key v (probe jt key t)"
    if "t < unat (jt_cap jt)" "reached jt key t" for t
  proof -
    have "flat_insert jt (fst key) (snd key) v = ins (unat (jt_cap jt)) jt key v (probe jt key 0)"
      using assms(2) by (simp add: flat_insert_def key_ok_def probe_def Let_def)
    also have "unat (jt_cap jt) = Suc (unat (jt_cap jt) - Suc t) + t" using that(1) by simp
    finally show ?thesis unfolding ins_reached [OF c assms(2) that(2)] .
  qed
  show thesis using assms
  proof (cases rule: stop_cases)
    case (hit t x)
    have s: "jt_slots jt ! unat (probe jt key t) = slot_for key x" using hit(3) by (simp add: slot_at_def)
    have "ins (Suc (unat (jt_cap jt) - Suc t)) jt key v (probe jt key t) = Some jt" by (simp add: s Let_def) (simp add: slot_for_def)
    then show thesis using present [OF domI [of m, OF hit(2)]] run [OF hit(1,4)] by simp
  next
    case (miss t)
    have s: "sl_value (jt_slots jt ! unat (probe jt key t)) = None" using miss(3) by (simp add: slot_at_def)
    have "ins (Suc (unat (jt_cap jt) - Suc t)) jt key v (probe jt key t)
        = (if jt_size jt + 1 + 1 \<ge> jt_cap jt then None else Some (filled jt key v t))"
      by (simp add: s Let_def slot_for_def)
    then show thesis using absent [OF miss] run [OF miss(1,4)] by simp
  qed
qed

lemma flat_insert_rel:
  assumes "flat_rel jt m" "key_ok key" "flat_insert jt (fst key) (snd key) v = Some jt'"
  shows "flat_rel jt' (if key \<in> dom m then m else m(key \<mapsto> v))"
  using assms(1,2)
proof (cases rule: flat_insert_cases [of jt m key v])
  case present
  then have "jt' = jt" using assms(3) by simp
  then show ?thesis using assms(1) present(1) by (simp only: if_True)
next
  case (absent t)
  have lt: "\<not> jt_size jt + 1 + 1 \<ge> jt_cap jt" and jt': "jt' = filled jt key v t"
    using assms(3) unfolding absent(5) by (metis option.distinct(1), metis option.distinct(1) option.inject)
  have "key \<notin> dom m" using absent(2) by (simp only: domIff not_not)
  then show ?thesis using fill_rel [OF assms(1,2) absent(1-4) lt, of v] unfolding jt' by (simp only: if_False)
qed

lemma flat_insert_room:
  assumes "flat_rel jt m" "key_ok key" "unat (jt_size jt) + 2 < unat (jt_cap jt)"
  shows "\<exists>jt'. flat_insert jt (fst key) (snd key) v = Some jt' \<and> unat (jt_size jt') \<le> unat (jt_size jt) + 1
    \<and> unat (jt_cap jt') = unat (jt_cap jt)"
  using assms(1,2)
proof (cases rule: flat_insert_cases [of jt m key v])
  case present
  then show ?thesis by simp
next
  case (absent t)
  have "unat (jt_cap jt) < 2 ^ 64" using unsigned_less [of "jt_cap jt", where 'a = nat] by simp
  then have "unat (jt_size jt + 1 + 1) = unat (jt_size jt) + 2"
    using assms(3) size_bound [OF assms(1)] unat_word_ariths(1) [of "jt_size jt + 1" 1] by simp
  then have "\<not> jt_size jt + 1 + 1 \<ge> jt_cap jt" using assms(3) unfolding word_le_nat_alt by linarith
  then show ?thesis using size_bound [OF assms(1)] unfolding absent(5) by simp
qed

interpretation flat: write_once_table flat_rel "\<lambda>jt key. flat_insert jt (fst key) (snd key)"
  "\<lambda>jt key. flat_lookup jt (fst key) (snd key)" key_ok "\<lambda>jt. unat (jt_size jt)" "\<lambda>jt. unat (jt_cap jt)"
  by unfold_locales (rule flat_insert_rel flat_insert_room flat_lookup_rel; assumption)+

section \<open>Building a table\<close>

lemma flat_init_cap:
  assumes "unat n < 2 ^ 62"
  shows "\<exists>k<64. jt_cap (flat_init jt n) = 2 ^ k" "16 \<le> unat (jt_cap (flat_init jt n))"
    "2 * unat n + 1 \<le> unat (jt_cap (flat_init jt n))"
proof -
  have need: "unat (n * 2 + 1) = 2 * unat n + 1" using assms by (simp add: unat_word_ariths)
  obtain k where k: "unat (metal_next_pow2 (n * 2 + 1)) = 2 ^ k" "unat (n * 2 + 1) \<le> 2 ^ k"
    using next_pow2_least [of "n * 2 + 1"] need assms by auto
  have "(2::nat) ^ k < 2 ^ 64" using unsigned_less [of "metal_next_pow2 (n * 2 + 1)", where 'a = nat] k(1) by simp
  then have k64: "k < 64" by (rule power_less_imp_less_exp [rotated]) simp
  then have p: "metal_next_pow2 (n * 2 + 1) = 2 ^ k" using k(1) by (intro word_eqI_unat) (simp add: unat_2p)
  have c: "jt_cap (flat_init jt n) = (if metal_next_pow2 (n * 2 + 1) < 16 then 2 ^ 4 else 2 ^ k)"
    by (simp add: flat_init_def Let_def p)
  show "\<exists>k<64. jt_cap (flat_init jt n) = 2 ^ k" unfolding c using k64 by (metis numeral_less_iff semiring_norm(76,78))
  show "16 \<le> unat (jt_cap (flat_init jt n))" "2 * unat n + 1 \<le> unat (jt_cap (flat_init jt n))"
    unfolding c using k need p by (auto simp: word_less_nat_alt)
qed

lemma flat_init_rel:
  assumes "unat n < 2 ^ 62"
  shows "flat_rel (flat_init jt n) Map.empty"
proof (rule flat_relI)
  note c = flat_init_cap [OF assms, of jt]
  show "cap_ok (flat_init jt n)" using c(1) by (simp add: cap_ok_def) (simp add: flat_init_def Let_def)
  have o: "occupied (flat_init jt n) = {}" by (simp add: occupied_def flat_init_def Let_def empty_slot_def)
  show "card (occupied (flat_init jt n)) = unat (jt_size (flat_init jt n))" unfolding o by (simp add: flat_init_def Let_def)
  show "unat (jt_size (flat_init jt n)) + 1 < unat (jt_cap (flat_init jt n))" using c(2) by (simp add: flat_init_def Let_def)
  show "\<exists>k v. key_ok k \<and> jt_slots (flat_init jt n) ! i = slot_for k v \<and> Map.empty k = Some v" if "i \<in> occupied (flat_init jt n)" for i
    using that unfolding o by simp
qed simp

text \<open>
  C5: The hash table is correct and every lookup in it returns. A table initialised for \<open>n\<close> entries
  takes any list of at most \<open>n\<close> entries without reporting that it is full, and afterwards the
  unbounded probe loop of every lookup terminates with the first value inserted under exactly that
  host and path, or with a miss if there is none.
\<close>

theorem flat_table_correct:
  assumes "length kvs \<le> unat n" "unat n < 2 ^ 62" "\<forall>kv\<in>set kvs. key_ok (fst kv)"
  shows "\<exists>t. fold_opt (\<lambda>jt key. flat_insert jt (fst key) (snd key)) (flat_init jt n) kvs = Some t
    \<and> (\<forall>host path. length host \<le> 0xffff \<and> length path \<le> 0xffff \<longrightarrow> flat_lookup t host path = Some (map_of kvs (host, path)))"
proof -
  note r = flat_init_rel [OF assms(2), of jt]
  have "unat (jt_size (flat_init jt n)) = 0" by (simp add: flat_init_def Let_def)
  then have "unat (jt_size (flat_init jt n)) + length kvs + 1 < unat (jt_cap (flat_init jt n))"
    using flat_init_cap(2,3) [OF assms(2), of jt] assms(1) by linarith
  from flat.put_all_total [OF r assms(3) this]
  obtain t where t: "fold_opt (\<lambda>jt key. flat_insert jt (fst key) (snd key)) (flat_init jt n) kvs = Some t" by blast
  moreover have "flat_lookup t host path = Some (map_of kvs (host, path))"
    if "length host \<le> 0xffff \<and> length path \<le> 0xffff" for host path
    using flat.get_put_all [OF r assms(3) t, of "(host, path)"] that by (simp add: key_ok_def)
  ultimately show ?thesis by blast
qed

definition ex_jumptable :: "nat jumptable" where
  "ex_jumptable = \<lparr>jt_slots = [], jt_cap = 0, jt_mask = 0, jt_size = 0, err_400 = 400, err_404 = 404, err_405 = 405,
     err_409 = 409, err_413 = 413, err_414 = 414, err_505 = 505, known_hosts = [str ''a'']\<rparr>"

theorem flat_table_correct_witness:
  "\<exists>t. fold_opt (\<lambda>jt key. flat_insert jt (fst key) (snd key))
      (flat_init ex_jumptable 2) [((str ''a'', str ''/''), 1), ((str ''a'', str ''/x''), 2)] = Some t
    \<and> flat_lookup t (str ''a'') (str ''/x'') = Some (Some 2) \<and> flat_lookup t (str ''b'') (str ''/x'') = Some None"
proof -
  let ?kvs = "[((str ''a'', str ''/''), 1), ((str ''a'', str ''/x''), 2 :: nat)]"
  have l: "length ?kvs \<le> unat (2 :: u64)" "unat (2 :: u64) < 2 ^ 62" by simp_all
  have k: "\<forall>kv\<in>set ?kvs. key_ok (fst kv)" by (simp add: key_ok_def str_def)
  have v: "map_of ?kvs (str ''a'', str ''/x'') = Some 2" "map_of ?kvs (str ''b'', str ''/x'') = None" by code_simp+
  obtain t where t: "fold_opt (\<lambda>jt key. flat_insert jt (fst key) (snd key)) (flat_init ex_jumptable 2) ?kvs = Some t"
    "\<And>host path. length host \<le> 0xffff \<and> length path \<le> 0xffff \<Longrightarrow> flat_lookup t host path = Some (map_of ?kvs (host, path))"
    using flat_table_correct [OF l k, of ex_jumptable] by blast
  have "flat_lookup t (str ''a'') (str ''/x'') = Some (Some 2)" "flat_lookup t (str ''b'') (str ''/x'') = Some None"
    using t(2) [of "str ''a''" "str ''/x''"] t(2) [of "str ''b''" "str ''/x''"] v by (simp_all add: str_def)
  with t(1) show ?thesis by blast
qed

end
