(* ===== verification/Http.thy ===== *)
theory Http
  imports Compress Jumptable
begin

text \<open>
  The HTTP/1.1 request parser, the choice of the response and the ETag comparison: \<open>src/http.c\<close>, with
  the \<open>Accept-Encoding\<close> test of \<open>src/brotli.c\<close>.  A pointer and length into the read buffer is the
  bytes it denotes, and a null pointer is \<open>None\<close>.  The parser writes to the buffer (it lowercases the
  host in place), so the buffer is also a result.
\<close>

section \<open>Definitions\<close>

datatype http_result = HTTP_NEED_MORE | HTTP_OK | HTTP_ERR_400 | HTTP_ERR_405 | HTTP_ERR_409 | HTTP_ERR_413
  | HTTP_ERR_414 | HTTP_ERR_505

datatype http_method = M_GET | M_HEAD | M_POST | M_PUT | M_DELETE | M_OPTIONS | M_UNKNOWN

record http_request =
  hr_method :: http_method
  hr_host :: "bytes option"
  hr_path :: "bytes option"
  client_close :: bool
  accept_pc :: bool
  accept_br :: bool
  has_leftover :: bool
  hr_consumed :: nat
  if_none_match :: "bytes option"
  cookie :: "bytes option"
  pw_auth_header :: bool
  write_token :: "bytes option"
  origin :: "bytes option"
  acr_headers :: "bytes option"
  pw_principal :: "bytes option"
  pw_tenant :: "bytes option"
  pw_partition_hop :: bool
  content_length :: u64

definition http_request_zero :: http_request where
  "http_request_zero = \<lparr>hr_method = M_GET, hr_host = None, hr_path = None, client_close = False, accept_pc = False,
     accept_br = False, has_leftover = False, hr_consumed = 0, if_none_match = None, cookie = None,
     pw_auth_header = False, write_token = None, origin = None, acr_headers = None, pw_principal = None,
     pw_tenant = None, pw_partition_hop = False, content_length = 0\<rparr>"

definition MAX_URI_LEN :: nat where "MAX_URI_LEN = 2048"

definition classify_method :: "bytes \<Rightarrow> http_method" where
  "classify_method m =
     (if m = str ''GET'' then M_GET
      else if m = str ''HEAD'' then M_HEAD
      else if m = str ''POST'' then M_POST
      else if m = str ''PUT'' then M_PUT
      else if m = str ''DELETE'' then M_DELETE
      else if m = str ''OPTIONS'' then M_OPTIONS
      else M_UNKNOWN)"

definition path_is_safe :: "bytes \<Rightarrow> bool" where
  "path_is_safe p =
     (if p = [] \<or> p ! 0 \<noteq> 0x2f then False
      else if length p > MAX_URI_LEN then False
      else if list_ex (\<lambda>c. c < 0x20 \<or> c = 0x7f) p then False
      else \<not> list_ex (\<lambda>i. p ! i = 0x2e \<and> p ! (i + 1) = 0x2e
             \<and> (i = 0 \<or> p ! (i - 1) = 0x2f) \<and> (i + 2 = length p \<or> p ! (i + 2) = 0x2f)) [0..<length p - 1])"

definition is_ows :: "byte \<Rightarrow> bool" where
  "is_ows c \<longleftrightarrow> c = 0x20 \<or> c = 0x09"

text \<open>The offset of the trimmed value and its length.\<close>

definition trim_ows :: "bytes \<Rightarrow> nat \<times> nat" where
  "trim_ows s =
     (let i = length (takeWhile is_ows s)
      in (i, length (drop i s) - length (takeWhile is_ows (rev (drop i s)))))"

definition set_principal_header :: "http_request \<Rightarrow> bytes \<Rightarrow> http_request" where
  "set_principal_header out val =
     (if pw_principal out = None \<and> length val > 0 then out\<lparr>pw_principal := Some val\<rparr> else out)"

text \<open>The \<open>br\<close> token of an \<open>Accept-Encoding\<close> value, without a quality of zero.\<close>

definition skip_ows :: "bytes \<Rightarrow> nat \<Rightarrow> nat" where
  "skip_ows ae j = j + length (takeWhile is_ows (drop j ae))"

definition br_refused :: "bytes \<Rightarrow> nat \<Rightarrow> bool" where
  "br_refused ae i =
     (let j = skip_ows ae (i + 2) in
      if j < length ae \<and> ae ! j = 0x3b then
        let j = skip_ows ae (j + 1) in
        if j + 1 < length ae \<and> ae ! j = 0x71 \<and> ae ! (j + 1) = 0x3d then
          let j = j + 2 in
          if j < length ae \<and> ae ! j = 0x30 then
            let k = j + 1 in
            if k < length ae \<and> ae ! k = 0x2e
            then list_all (\<lambda>c. c = 0x30) (takeWhile (\<lambda>c. c \<ge> 0x30 \<and> c \<le> 0x39) (drop (k + 1) ae))
            else True
          else False
        else False
      else False)"

definition brotli_accepted :: "bytes \<Rightarrow> bool" where
  "brotli_accepted ae =
     list_ex (\<lambda>i. ae ! i = 0x62 \<and> ae ! (i + 1) = 0x72
        \<and> \<not> (i > 0 \<and> ae ! (i - 1) \<noteq> 0x2c \<and> ae ! (i - 1) \<noteq> 0x20 \<and> ae ! (i - 1) \<noteq> 0x09)
        \<and> \<not> (i + 2 < length ae \<and> ae ! (i + 2) \<noteq> 0x2c \<and> ae ! (i + 2) \<noteq> 0x20 \<and> ae ! (i + 2) \<noteq> 0x09 \<and> ae ! (i + 2) \<noteq> 0x3b)
        \<and> \<not> br_refused ae i) [0..<length ae - 1]"

subsection \<open>Header values\<close>

definition is_sep :: "byte \<Rightarrow> bool" where
  "is_sep c \<longleftrightarrow> c = 0x20 \<or> c = 0x09 \<or> c = 0x2c"

text \<open>The list of connection options contains \<open>close\<close>.\<close>

function connection_close :: "bytes \<Rightarrow> bool" where
  "connection_close v =
     (if v = [] then False
      else
        let v = dropWhile is_sep v;
            tok = takeWhile (\<lambda>c. c \<noteq> 0x2c) v;
            rest = dropWhile (\<lambda>c. c \<noteq> 0x2c) v;
            tok = rev (dropWhile is_ows (rev tok))
        in if length tok = 5 \<and> metal_ieq tok (str ''close'') then True
           else connection_close rest)"
  by pat_completeness auto

lemma skip_shorter:
  "v \<noteq> [] \<Longrightarrow> length (dropWhile (\<lambda>c. c \<noteq> 0x2c) (dropWhile is_sep v)) < length v"
proof (cases v)
  case (Cons x xs)
  have l: "length (dropWhile P ys) \<le> length ys" for P and ys :: bytes by (rule length_dropWhile_le)
  show ?thesis
  proof (cases "is_sep x")
    case True
    then show ?thesis using l [of "\<lambda>c. c \<noteq> 0x2c" "dropWhile is_sep xs"] l [of is_sep xs] by (simp add: Cons)
  next
    case False
    then have "x \<noteq> 0x2c" by (auto simp: is_sep_def)
    then show ?thesis using False l [of "\<lambda>c. c \<noteq> 0x2c" xs] by (simp add: Cons less_Suc_eq_le)
  qed
qed simp

termination connection_close
  by (relation "measure length") (simp_all add: skip_shorter)

declare connection_close.simps [simp del]

text \<open>The value of \<open>Content-Length\<close>: strict digits, and an overflow check before each step.\<close>

fun content_length_loop :: "bytes \<Rightarrow> u64 \<Rightarrow> http_result + u64" where
  "content_length_loop [] cl = Inr cl"
| "content_length_loop (c # cs) cl =
     (if c < 0x30 \<or> c > 0x39 then Inl HTTP_ERR_400
      else
        let nd = ucast (c - 0x30) in
        if cl > (- 1 - nd) div 10 then Inl HTTP_ERR_413
        else content_length_loop cs (cl * 10 + nd))"

definition host_char :: "byte \<Rightarrow> bool" where
  "host_char c \<longleftrightarrow> c \<ge> 0x61 \<and> c \<le> 0x7a \<or> c \<ge> 0x30 \<and> c \<le> 0x39 \<or> c = 0x2e \<or> c = 0x2d"

text \<open>What the header loop carries: the request so far and its two flags.\<close>

record scan =
  sc_out :: http_request
  host_seen :: nat
  body_present :: bool

text \<open>
  One header of the dispatch on the name. The result is the error that ends the parse if there is one, the
  new state and the value as it stands in the buffer afterwards.
\<close>

definition host_header :: "bytes \<Rightarrow> scan \<Rightarrow> http_result option \<times> scan \<times> bytes" where
  "host_header tval st =
     (let seen = host_seen st; st = st\<lparr>host_seen := seen + 1\<rparr> in
      if seen \<noteq> 0 then (Some HTTP_ERR_400, st, tval)
      else
        let hostlen = (case first_pos 0x3a tval of Some i \<Rightarrow> i | None \<Rightarrow> length tval) in
        if hostlen = 0 \<or> hostlen > 253 then (Some HTTP_ERR_400, st, tval)
        else
          let tval = metal_lower_inplace (take hostlen tval) @ drop hostlen tval in
          if \<not> list_all host_char (take hostlen tval) then (Some HTTP_ERR_400, st, tval)
          else (None, st\<lparr>sc_out := (sc_out st)\<lparr>hr_host := Some (take hostlen tval)\<rparr>\<rparr>, tval))"

definition content_length_header :: "bytes \<Rightarrow> scan \<Rightarrow> http_result option \<times> scan" where
  "content_length_header tval st =
     (if tval = [] then (Some HTTP_ERR_400, st)
      else case content_length_loop tval 0 of
        Inl e \<Rightarrow> (Some e, st)
      | Inr cl \<Rightarrow>
          if body_present st \<and> content_length (sc_out st) \<noteq> cl then (Some HTTP_ERR_400, st)
          else (None, st\<lparr>sc_out := (sc_out st)\<lparr>content_length := cl\<rparr>,
                         body_present := (if cl > 0 then True else body_present st)\<rparr>))"

text \<open>Headers that only record something in the request.\<close>

definition note_header :: "bytes \<Rightarrow> bytes \<Rightarrow> http_request \<Rightarrow> http_request" where
  "note_header name tval out =
     (let n = length name; one = (length tval = 1 \<and> tval ! 0 = 0x31) in
      if n = 6 then
        if metal_ieq name (str ''Cookie'') then out\<lparr>cookie := Some tval\<rparr>
        else if metal_ieq name (str ''Origin'') then out\<lparr>origin := Some tval\<rparr>
        else out
      else if n = 9 then
        if metal_ieq name (str ''X-PW-Auth'') \<and> one then out\<lparr>pw_auth_header := True\<rparr> else out
      else if n = 11 then
        if metal_ieq name (str ''X-PW-Tenant'') then out\<lparr>pw_tenant := Some tval\<rparr> else out
      else if n = 10 then
        if metal_ieq name (str ''Connection'') \<and> connection_close tval then out\<lparr>client_close := True\<rparr> else out
      else if n = 13 then
        if metal_ieq name (str ''If-None-Match'') then out\<lparr>if_none_match := Some tval\<rparr> else out
      else if n = 14 then
        if metal_ieq name (str ''X-PW-Principal'') \<or> metal_ieq name (str ''X-Principal-Id'')
        then set_principal_header out tval else out
      else if n = 16 then
        if metal_ieq name (str ''X-Forwarded-User'') then set_principal_header out tval
        else if metal_ieq name (str ''X-PW-Write-Token'') then out\<lparr>write_token := Some tval\<rparr>
        else out
      else if n = 17 then
        if metal_ieq name (str ''X-Forwarded-Email'') then set_principal_header out tval else out
      else if n = 18 then
        if metal_ieq name (str ''X-PW-Partition-Hop'') \<and> one then out\<lparr>pw_partition_hop := True\<rparr> else out
      else if n = 19 then
        if metal_ieq name (str ''X-Auth-Request-User'') then set_principal_header out tval
        else if metal_ieq name (str ''X-PW-Partition-Hop'' @ [0]) \<and> one then out\<lparr>pw_partition_hop := True\<rparr>
        else out
      else if n = 20 then
        if metal_ieq name (str ''X-Auth-Request-Email'') then set_principal_header out tval else out
      else if n = 15 then
        if metal_ieq name (str ''Accept-Encoding'') then
          let out = (if metal_compress_accepted tval then out\<lparr>accept_pc := True\<rparr> else out)
          in if brotli_accepted tval then out\<lparr>accept_br := True\<rparr> else out
        else out
      else if n = 30 then
        if metal_ieq name (str ''Access-Control-Request-Headers'') then out\<lparr>acr_headers := Some tval\<rparr> else out
      else if n = 33 then
        if metal_ieq name (str ''X-Auth-Request-Preferred-Username'') then set_principal_header out tval else out
      else out)"

definition parse_header :: "bytes \<Rightarrow> bytes \<Rightarrow> scan \<Rightarrow> http_result option \<times> scan \<times> bytes" where
  "parse_header name tval st =
     (if length name = 4 \<and> metal_ieq name (str ''Host'') then host_header tval st
      else if length name = 14 \<and> metal_ieq name (str ''Content-Length'') then
        let (r, st) = content_length_header tval st in (r, st, tval)
      else if length name = 17 \<and> metal_ieq name (str ''Transfer-Encoding'') then (Some HTTP_ERR_400, st, tval)
      else (None, st\<lparr>sc_out := note_header name tval (sc_out st)\<rparr>, tval))"

subsection \<open>The parser\<close>

text \<open>Overwriting a part of the buffer.\<close>

definition put_at :: "bytes \<Rightarrow> nat \<Rightarrow> bytes \<Rightarrow> bytes" where
  "put_at xs i ys = take i xs @ ys @ drop (i + length ys) xs"

text \<open>
  The header loop on the rest of the head, whose last two bytes are the CRLF of the empty line. The third
  component is what the buffer holds there afterwards.
\<close>

function scan_headers :: "bytes \<Rightarrow> scan \<Rightarrow> http_result option \<times> scan \<times> bytes" where
  "scan_headers p st =
     (if length p \<le> 2 then (None, st, p)
      else
        (case first_pos 0x0d (take (length p - 2) p) of
          None \<Rightarrow> (Some HTTP_ERR_400, st, p)
        | Some hl \<Rightarrow>
            if p ! (hl + 1) \<noteq> 0x0a then (Some HTTP_ERR_400, st, p)
            else
              (case first_pos 0x3a (take hl p) of
                None \<Rightarrow> (Some HTTP_ERR_400, st, p)
              | Some name_len \<Rightarrow>
                  let val = take (hl - name_len - 1) (drop (name_len + 1) p);
                      (off, tlen) = trim_ows val;
                      (r, st, tval) = parse_header (take name_len p) (take tlen (drop off val)) st;
                      p = put_at p (name_len + 1 + off) tval
                  in (case r of
                       Some e \<Rightarrow> (Some e, st, p)
                     | None \<Rightarrow>
                         let (r, st, rest) = scan_headers (drop (hl + 2) p) st
                         in (r, st, take (hl + 2) p @ rest)))))"
  by pat_completeness auto

lemma lower_inplace_map: "metal_lower_inplace p = map lower_scalar p"
  by (simp add: metal_lower_inplace_def lower_simd_map)

lemma parse_header_length:
  assumes "parse_header name tval st = (r, st', tval')"
  shows "length tval' = length tval"
proof -
  have h: "length (snd (snd (host_header tval st))) = length tval"
    by (auto simp: host_header_def Let_def lower_inplace_map split: option.splits)
  have "length (snd (snd (parse_header name tval st))) = length tval"
    unfolding parse_header_def using h by (auto split: prod.splits)
  then show ?thesis using assms by simp
qed

lemma trim_ows_le: "trim_ows s = (off, tlen) \<Longrightarrow> off + tlen \<le> length s"
  using length_takeWhile_le [of is_ows s] by (auto simp: trim_ows_def Let_def)

lemma first_pos_None: "first_pos c xs = None \<longleftrightarrow> c \<notin> set xs"
  by (induction xs) auto

lemma first_pos_Some: "first_pos c xs = Some i \<longleftrightarrow> i < length xs \<and> xs ! i = c \<and> c \<notin> set (take i xs)"
proof (induction xs arbitrary: i)
  case (Cons x xs)
  then show ?case by (cases i) auto
qed simp

lemma put_at_length [simp]: "i + length ys \<le> length xs \<Longrightarrow> length (put_at xs i ys) = length xs"
  by (simp add: put_at_def)

lemma header_fits:
  assumes "hl < length p" "name_len < hl" "trim_ows (take (hl - name_len - 1) (drop (name_len + 1) p)) = (off, tlen)"
  shows "name_len + 1 + off + tlen \<le> hl"
  using trim_ows_le [OF assms(3)] assms(1,2) by simp

lemma scan_step_length:
  assumes "first_pos 0x0d (take (length p - 2) p) = Some hl" "first_pos 0x3a (take hl p) = Some name_len"
    "trim_ows (take (hl - name_len - 1) (drop (name_len + 1) p)) = (off, tlen)"
    "parse_header name (take tlen (drop off (take (hl - name_len - 1) (drop (name_len + 1) p)))) st = (r, st', tval)"
  shows "length tval = tlen" "name_len + 1 + off + tlen \<le> hl" "hl < length p" "length (put_at p (name_len + 1 + off) tval) = length p"
proof -
  show hl: "hl < length p" using assms(1) by (auto simp: first_pos_Some)
  have n: "name_len < hl" using assms(2) by (auto simp: first_pos_Some)
  show b: "name_len + 1 + off + tlen \<le> hl" by (rule header_fits [OF hl n assms(3)])
  show t: "length tval = tlen" using parse_header_length [OF assms(4)] b hl by simp
  show "length (put_at p (name_len + 1 + off) tval) = length p" using b hl t by simp
qed

lemma scan_dec:
  assumes "\<not> length p \<le> 2" "first_pos 0x0d (take (length p - 2) p) = Some hl" "first_pos 0x3a (take hl p) = Some name_len"
    "(off, tlen) = trim_ows (take (hl - name_len - 1) (drop (name_len + 1) p))"
    "(r, st', tval) = parse_header name (take tlen (drop off (take (hl - name_len - 1) (drop (name_len + 1) p)))) st"
  shows "length (drop (hl + 2) (put_at p (name_len + 1 + off) tval)) < length p"
  using scan_step_length(4) [OF assms(2,3) sym [OF assms(4)] sym [OF assms(5)]] assms(1) by simp

termination scan_headers
  apply (relation "measure (\<lambda>(p, st). length p)")
   apply simp
  apply clarify
  apply (simp only: in_measure split_conv)
  apply (erule (5) notE [OF _ scan_dec])
  done

declare scan_headers.simps [simp del]

primrec memmem_from :: "bytes \<Rightarrow> bytes \<Rightarrow> nat option" where
  "memmem_from pat [] = (if pat = [] then Some 0 else None)"
| "memmem_from pat (x # xs) = (if take (length pat) (x # xs) = pat then Some 0 else map_option Suc (memmem_from pat xs))"

definition CRLF :: bytes where "CRLF = [0x0d, 0x0a]"

text \<open>The request line, on the bytes up to the first CR: the method and the path.\<close>

definition parse_target :: "bytes \<Rightarrow> bytes \<Rightarrow> bytes \<Rightarrow> http_request \<Rightarrow> http_result option \<times> http_request" where
  "parse_target meth path version out =
     (if version \<noteq> str ''HTTP/1.1'' then (Some HTTP_ERR_505, out)
      else
        let out = out\<lparr>hr_method := classify_method meth\<rparr> in
        if hr_method out = M_UNKNOWN then (Some HTTP_ERR_405, out)
        else if \<not> path_is_safe path then
          (Some (if length path > MAX_URI_LEN then HTTP_ERR_414 else HTTP_ERR_400), out)
        else
          let path_len = (case first_pos 0x3f path of Some q \<Rightarrow> q | None \<Rightarrow> length path)
          in (None, out\<lparr>hr_path := Some (take path_len path)\<rparr>))"

definition parse_request_line :: "bytes \<Rightarrow> http_request \<Rightarrow> http_result option \<times> http_request" where
  "parse_request_line line out =
     (if line = [] \<or> length line > MAX_URI_LEN + 32 then (Some HTTP_ERR_414, out)
      else
        (case first_pos 0x20 line of
          None \<Rightarrow> (Some HTTP_ERR_400, out)
        | Some method_len \<Rightarrow>
            let path_start = drop (method_len + 1) line in
            (case first_pos 0x20 path_start of
              None \<Rightarrow> (Some HTTP_ERR_400, out)
            | Some path_len \<Rightarrow>
                parse_target (take method_len line) (take path_len path_start) (drop (path_len + 1) path_start) out)))"

text \<open>The parse of a complete head, which ends with the empty line.\<close>

definition parse_head :: "bytes \<Rightarrow> http_request \<Rightarrow> http_result \<times> http_request \<times> bytes" where
  "parse_head buf out =
     (case first_pos 0x0d buf of
        None \<Rightarrow> (HTTP_ERR_400, out, buf)
      | Some line_len \<Rightarrow>
          if buf ! (line_len + 1) \<noteq> 0x0a then (HTTP_ERR_400, out, buf)
          else
            let (r, out) = parse_request_line (take line_len buf) out in
            (case r of
              Some err \<Rightarrow> (err, out, buf)
            | None \<Rightarrow>
                let (r, st, p) = scan_headers (drop (line_len + 2) buf) \<lparr>sc_out = out, host_seen = 0, body_present = False\<rparr>;
                    buf = take (line_len + 2) buf @ p;
                    out = sc_out st
                in (case r of
                     Some err \<Rightarrow> (err, out, buf)
                   | None \<Rightarrow>
                       if host_seen st = 0 then (HTTP_ERR_409, out, buf)
                       else (HTTP_OK, if body_present st then out\<lparr>client_close := True\<rparr> else out, buf))))"

definition http_parse :: "bytes \<Rightarrow> http_result \<times> http_request \<times> bytes" where
  "http_parse buf =
     (let out = http_request_zero in
      if length buf < 4 then (HTTP_NEED_MORE, out, buf)
      else
        (case memmem_from (CRLF @ CRLF) buf of
          None \<Rightarrow> (if length buf \<ge> 8192 then HTTP_ERR_413 else HTTP_NEED_MORE, out, buf)
        | Some e \<Rightarrow>
            let headers_len = e + 4;
                out = out\<lparr>hr_consumed := headers_len, has_leftover := headers_len < length buf\<rparr>;
                (r, out, head) = parse_head (take headers_len buf) out
            in (r, out, head @ drop headers_len buf)))"

subsection \<open>Response selection and ETags\<close>

text \<open>
  The chosen response, whether to close after it and whether to send the head only. \<open>None\<close> stands for a
  table lookup that does not return.
\<close>

definition slice :: "bytes option \<Rightarrow> bytes" where
  "slice v = (case v of None \<Rightarrow> [] | Some bs \<Rightarrow> bs)"

definition http_select :: "'r jumptable \<Rightarrow> http_result \<Rightarrow> http_request \<Rightarrow> ('r \<times> bool \<times> bool) option" where
  "http_select jt pr req =
     (case pr of
        HTTP_ERR_400 \<Rightarrow> Some (err_400 jt, True, False)
      | HTTP_ERR_409 \<Rightarrow> Some (err_409 jt, True, False)
      | HTTP_ERR_413 \<Rightarrow> Some (err_413 jt, True, False)
      | HTTP_ERR_414 \<Rightarrow> Some (err_414 jt, True, False)
      | HTTP_ERR_505 \<Rightarrow> Some (err_505 jt, True, False)
      | HTTP_ERR_405 \<Rightarrow> Some (err_405 jt, True, False)
      | _ \<Rightarrow>
          let close_after = client_close req in
          if hr_method req = M_POST \<or> hr_method req = M_PUT \<or> hr_method req = M_DELETE \<or> hr_method req = M_OPTIONS
          then Some (err_405 jt, close_after, False)
          else if hr_method req \<noteq> M_GET \<and> hr_method req \<noteq> M_HEAD then Some (err_405 jt, True, False)
          else
            let head_only = (hr_method req = M_HEAD) in
            (case jumptable_lookup jt (slice (hr_host req)) (slice (hr_path req)) of
              None \<Rightarrow> None
            | Some (Some r) \<Rightarrow> Some (r, close_after, head_only)
            | Some None \<Rightarrow>
                if \<not> jumptable_host_exists jt (slice (hr_host req)) then Some (err_409 jt, True, head_only)
                else Some (err_404 jt, close_after, head_only)))"

text \<open>A tag without the mark of a weak one.\<close>

definition unweak :: "bytes \<Rightarrow> bytes" where
  "unweak t = (if length t \<ge> 2 \<and> t ! 0 = 0x57 \<and> t ! 1 = 0x2f then drop 2 t else t)"

text \<open>The scan over the entity tags of \<open>If-None-Match\<close>, on the rest of the value.\<close>

function etag_loop :: "bytes \<Rightarrow> bytes \<Rightarrow> bool" where
  "etag_loop our inm =
     (let inm = dropWhile is_sep inm in
      if inm = [] then False
      else
        let t = unweak inm in
        if t = [] \<or> t ! 0 \<noteq> 0x22 then etag_loop our (dropWhile (\<lambda>c. c \<noteq> 0x2c) t)
        else
          let body = takeWhile (\<lambda>c. c \<noteq> 0x22) (tl t);
              i = 1 + length body;
              i = (if i < length t then i + 1 else i)
          in if take i t = our then True else etag_loop our (drop i t))"
  by pat_completeness auto

termination etag_loop
proof (relation "measure (\<lambda>(our, inm). length inm)")
  fix our inm x xa :: bytes
  assume a: "x = dropWhile is_sep inm" "x \<noteq> []" "xa = unweak x"
  have le: "length x \<le> length inm" using length_dropWhile_le [of is_sep inm] a(1) by simp
  have "\<not> is_sep (hd x)" using hd_dropWhile [of is_sep inm] a(1,2) by simp
  then have hd: "hd x \<noteq> 0x2c" by (auto simp: is_sep_def)
  have "length (dropWhile (\<lambda>c. c \<noteq> 0x2c) xa) < length x"
  proof (cases "xa = x")
    case True
    then show ?thesis using hd a(2) length_dropWhile_le [of "\<lambda>c. c \<noteq> 0x2c" "tl x"] by (cases x) (simp_all add: less_Suc_eq_le)
  next
    case False
    then have "length xa < length x" using a(2,3) by (auto simp: unweak_def split: if_splits)
    then show ?thesis using length_dropWhile_le [of "\<lambda>c. c \<noteq> 0x2c" xa] by simp
  qed
  then show "((our, dropWhile (\<lambda>c. c \<noteq> 0x2c) xa), our, inm) \<in> measure (\<lambda>(our, inm). length inm)" using le by simp
next
  fix our inm x xa xb :: bytes and xc xd :: nat
  assume a: "x = dropWhile is_sep inm" "x \<noteq> []" "xa = unweak x" "\<not> (xa = [] \<or> xa ! 0 \<noteq> 0x22)"
    "xc = 1 + length xb" "xd = (if xc < length xa then xc + 1 else xc)"
  have "length x \<le> length inm" "length xa \<le> length x"
    using length_dropWhile_le [of is_sep inm] a(1,3) by (auto simp: unweak_def)
  moreover have "length (drop xd xa) < length xa" using a(4,5,6) by (cases xa) (simp_all split: if_splits)
  ultimately show "((our, drop xd xa), our, inm) \<in> measure (\<lambda>(our, inm). length inm)" by simp
qed simp

declare etag_loop.simps [simp del]

definition etag_matches :: "bytes option \<Rightarrow> bytes \<Rightarrow> bool" where
  "etag_matches inm etag =
     (case inm of
        None \<Rightarrow> False
      | Some inm \<Rightarrow>
          if inm = [] \<or> etag = [] then False
          else if inm = [0x2a] then True
          else etag_loop (unweak etag) inm)"

section \<open>Bytes up to case\<close>

definition recased :: "bytes \<Rightarrow> bytes \<Rightarrow> bool" where
  "recased xs ys \<longleftrightarrow> list_all2 (\<lambda>x y. lower_scalar x = lower_scalar y) xs ys"

lemma lower_low: "lower_scalar x < 0x41 \<longleftrightarrow> x < 0x41"
proof (cases "x \<ge> 0x41 \<and> x \<le> 0x5a")
  case True
  then have "\<not> lower_scalar x < 0x41"
    by (intro byte_range_exhaust [of "\<lambda>x. \<not> lower_scalar x < 0x41" "0x41" "0x5a"]) (code_simp, auto)
  moreover have "\<not> x < 0x41" using True by (simp only: not_less simp_thms)
  ultimately show ?thesis by blast
qed (simp add: lower_scalar_same)

lemma lower_low_eq:
  assumes "c < 0x41" "lower_scalar x = lower_scalar y"
  shows "x = c \<longleftrightarrow> y = c"
proof -
  have "lower_scalar z = z" if "z < 0x41" for z using that by (intro lower_scalar_same) (auto simp: not_le)
  then show ?thesis using assms lower_low [of x] lower_low [of y] by metis
qed

lemma lower_idem [simp]: "lower_scalar (lower_scalar x) = lower_scalar x"
proof (cases "x \<ge> 0x41 \<and> x \<le> 0x5a")
  case True
  then show ?thesis
    by (intro byte_range_exhaust [of "\<lambda>x. lower_scalar (lower_scalar x) = lower_scalar x" "0x41" "0x5a"]) (code_simp, auto)
qed (simp add: lower_scalar_same)

lemma recased_refl [simp]: "recased xs xs"
  by (simp add: recased_def list_all2_refl)

lemma recased_length: "recased xs ys \<Longrightarrow> length xs = length ys"
  unfolding recased_def by (rule list_all2_lengthD)

lemma recased_trans: "recased xs ys \<Longrightarrow> recased ys zs \<Longrightarrow> recased xs zs"
  unfolding recased_def by (rule list_all2_trans [of "\<lambda>x y. lower_scalar x = lower_scalar y"]) simp_all

lemma recased_append: "recased xs ys \<Longrightarrow> recased xs' ys' \<Longrightarrow> recased (xs @ xs') (ys @ ys')"
  unfolding recased_def by (rule list_all2_appendI)

lemma recased_take: "recased xs ys \<Longrightarrow> recased (take n xs) (take n ys)"
  unfolding recased_def by (rule list_all2_takeI)

lemma recased_drop: "recased xs ys \<Longrightarrow> recased (drop n xs) (drop n ys)"
  unfolding recased_def by (rule list_all2_dropI)

lemma recased_lower: "recased xs (map lower_scalar xs)"
  unfolding recased_def by (simp add: list_all2_conv_all_nth)

lemma recased_nth: "recased xs ys \<Longrightarrow> i < length xs \<Longrightarrow> c < 0x41 \<Longrightarrow> xs ! i = c \<longleftrightarrow> ys ! i = c"
  unfolding recased_def using list_all2_nthD lower_low_eq by blast

lemma first_pos_recased:
  assumes "c < 0x41" "recased xs ys"
  shows "first_pos c xs = first_pos c ys"
  using assms(2) unfolding recased_def
proof (induction rule: list_all2_induct)
  case (Cons x xs y ys)
  then show ?case using lower_low_eq [OF assms(1) Cons.hyps(1)] by simp
qed simp

lemma is_ows_recased: "lower_scalar x = lower_scalar y \<Longrightarrow> is_ows x = is_ows y"
  using lower_low_eq [of "0x20" x y] lower_low_eq [of "0x09" x y] by (simp add: is_ows_def)

lemma ows_recased: "recased xs ys \<Longrightarrow> length (takeWhile is_ows xs) = length (takeWhile is_ows ys)"
  unfolding recased_def
proof (induction rule: list_all2_induct)
  case (Cons x xs y ys)
  then show ?case using is_ows_recased [OF Cons.hyps(1)] by simp
qed simp

lemma trim_ows_recased:
  assumes "recased xs ys"
  shows "trim_ows xs = trim_ows ys"
proof -
  let ?i = "length (takeWhile is_ows xs)"
  note i = ows_recased [OF assms]
  have d: "recased (drop ?i xs) (drop ?i ys)" by (rule recased_drop [OF assms])
  then have "recased (rev (drop ?i xs)) (rev (drop ?i ys))" by (simp add: recased_def)
  from ows_recased [OF this] recased_length [OF assms] show ?thesis by (simp add: trim_ows_def Let_def i [symmetric])
qed

lemma take_recased:
  assumes "recased xs ys" "list_all (\<lambda>c. c < 0x41) pat"
  shows "take (length pat) xs = pat \<longleftrightarrow> take (length pat) ys = pat"
  using assms(2,1)
proof (induction pat arbitrary: xs ys)
  case (Cons c pat)
  show ?case
  proof (cases xs)
    case Nil
    then show ?thesis using Cons.prems by (simp add: recased_def)
  next
    case (Cons x xs')
    then obtain y ys' where ys: "ys = y # ys'" "lower_scalar x = lower_scalar y" "recased xs' ys'"
      using Cons.prems(2) by (auto simp: recased_def list_all2_Cons1)
    have "c < 0x41" "list_all (\<lambda>c. c < 0x41) pat" using Cons.prems(1) by simp_all
    then show ?thesis using Cons ys lower_low_eq [of c x y] Cons.IH [of xs' ys'] by simp
  qed
qed simp

lemma memmem_recased:
  assumes "list_all (\<lambda>c. c < 0x41) pat" "recased xs ys"
  shows "memmem_from pat xs = memmem_from pat ys"
  using assms(2)
proof (induction xs arbitrary: ys)
  case Nil
  then show ?case by (simp add: recased_def)
next
  case (Cons x xs)
  then obtain y ys' where ys: "ys = y # ys'" "recased xs ys'" by (auto simp: recased_def list_all2_Cons1)
  show ?case unfolding ys using Cons.IH [OF ys(2)] take_recased [OF Cons.prems assms(1)] ys(1) by simp
qed

section \<open>Parsing the rewritten buffer again\<close>

lemma host_header_again:
  assumes "host_header tval st = (r, st', tval')"
  shows "recased tval tval' \<and> host_header tval' st = (r, st', tval')"
proof -
  let ?h = "\<lambda>v. case first_pos 0x3a v of Some i \<Rightarrow> i | None \<Rightarrow> length v"
  let ?l = "map lower_scalar (take (?h tval) tval) @ drop (?h tval) tval"
  have le: "?h tval \<le> length tval" using first_pos_Some [of "0x3a" tval] by (auto split: option.split)
  have r: "recased tval ?l" using recased_append [OF recased_lower recased_refl] append_take_drop_id by metis
  have h: "?h ?l = ?h tval" unfolding first_pos_recased [OF _ r, of "0x3a", simplified, symmetric] recased_length [OF r, symmetric] ..
  have t: "take (?h tval) ?l = map lower_scalar (take (?h tval) tval)" "drop (?h tval) ?l = drop (?h tval) tval" using le by simp_all
  have i: "map lower_scalar (map lower_scalar xs) = map lower_scalar xs" for xs by simp
  consider "tval' = tval" | "tval' = ?l" "host_seen st = 0" "\<not> (?h tval = 0 \<or> ?h tval > 253)"
    using assms unfolding host_header_def Let_def lower_inplace_map by (auto split: if_splits)
  then show ?thesis
  proof cases
    case 1
    then show ?thesis using assms by simp
  next
    case 2
    have "host_header ?l st = host_header tval st"
      using 2(2,3) unfolding host_header_def Let_def lower_inplace_map h t i by (simp only: if_False simp_thms not_not)
    then show ?thesis using assms r 2(1) by simp
  qed
qed

lemma parse_header_again:
  assumes "parse_header name tval st = (r, st', tval')"
  shows "recased tval tval' \<and> parse_header name tval' st = (r, st', tval')"
proof (cases "length name = 4 \<and> metal_ieq name (str ''Host'')")
  case True
  then have e: "parse_header name v st = host_header v st" for v by (simp add: parse_header_def)
  show ?thesis using assms host_header_again unfolding e by blast
next
  case False
  then have "snd (snd (parse_header name tval st)) = tval" by (auto simp: parse_header_def split: prod.splits)
  then show ?thesis using assms by simp
qed

definition hval :: "bytes \<Rightarrow> nat \<Rightarrow> nat \<Rightarrow> bytes" where
  "hval p hl n = take (hl - n - 1) (drop (n + 1) p)"

definition line_at :: "bytes \<Rightarrow> nat \<Rightarrow> nat \<Rightarrow> nat \<Rightarrow> nat \<Rightarrow> bool" where
  "line_at p hl n off tlen \<longleftrightarrow> \<not> length p \<le> 2 \<and> first_pos 0x0d (take (length p - 2) p) = Some hl \<and> p ! (hl + 1) = 0x0a
     \<and> first_pos 0x3a (take hl p) = Some n \<and> trim_ows (hval p hl n) = (off, tlen)"

lemma scan_cases:
  obtains (fin) "length p \<le> 2" "\<forall>st. scan_headers p st = (None, st, p)"
  | (bad) "\<not> length p \<le> 2" "\<forall>st. scan_headers p st = (Some HTTP_ERR_400, st, p)"
  | (line) hl n off tlen where "line_at p hl n off tlen"
proof (cases "length p \<le> 2")
  case True
  then have "\<forall>st. scan_headers p st = (None, st, p)" by (intro allI, subst scan_headers.simps) simp
  then show thesis using fin True by blast
next
  case len: False
  show thesis
  proof (cases "\<exists>hl n. first_pos 0x0d (take (length p - 2) p) = Some hl \<and> p ! (hl + 1) = 0x0a \<and> first_pos 0x3a (take hl p) = Some n")
    case True
    then show thesis using line len unfolding line_at_def by (metis prod.collapse)
  next
    case False
    then have "scan_headers p st = (Some HTTP_ERR_400, st, p)" for st
      using len by (subst scan_headers.simps) (auto split: option.split)
    then show thesis using bad len by blast
  qed
qed

lemma scan_step:
  assumes "line_at p hl n off tlen" "parse_header (take n p) (take tlen (drop off (hval p hl n))) st = (r1, st1, tval)"
    "p1 = put_at p (n + 1 + off) tval"
  shows "scan_headers p st = (case r1 of Some e \<Rightarrow> (Some e, st1, p1)
     | None \<Rightarrow> let (r, st, rest) = scan_headers (drop (hl + 2) p1) st1 in (r, st, take (hl + 2) p1 @ rest))"
  using assms(1,2) unfolding assms(3) by (subst scan_headers.simps) (cases r1; simp add: line_at_def hval_def Let_def)

lemma line_at_recased:
  assumes "line_at p hl n off tlen" "recased p p'"
  shows "line_at p' hl n off tlen"
proof -
  have l: "length p' = length p" using recased_length [OF assms(2)] by simp
  have hl: "hl < length p - 2" "\<not> length p \<le> 2" using assms(1) by (auto simp: line_at_def first_pos_Some)
  have "first_pos 0x0d (take (length p - 2) p) = first_pos 0x0d (take (length p - 2) p')"
    "first_pos 0x3a (take hl p) = first_pos 0x3a (take hl p')"
    using first_pos_recased recased_take [OF assms(2)] by simp_all
  moreover have "p ! (hl + 1) = 0x0a \<longleftrightarrow> p' ! (hl + 1) = 0x0a" using recased_nth [OF assms(2), of "hl + 1" "0x0a"] hl by simp
  moreover have "trim_ows (hval p hl n) = trim_ows (hval p' hl n)"
    unfolding hval_def by (rule trim_ows_recased [OF recased_take [OF recased_drop [OF assms(2)]]])
  ultimately show ?thesis using assms(1) unfolding line_at_def l by simp
qed

text \<open>The line that a header leaves in the buffer is read as the same header.\<close>

lemma put_at_recased:
  assumes "recased (take n (drop i p)) v" "i + n \<le> length p"
  shows "recased p (put_at p i v)" "take n (drop i (put_at p i v)) = v" "j \<le> i \<Longrightarrow> take j (put_at p i v) = take j p"
    "length v = n"
proof -
  show l: "length v = n" using recased_length [OF assms(1)] assms(2) by simp
  have "p = take i p @ take n (drop i p) @ drop (i + n) p"
    by (metis append_take_drop_id drop_drop add.commute)
  then show "recased p (put_at p i v)"
    using recased_append [OF recased_refl [of "take i p"] recased_append [OF assms(1) recased_refl [of "drop (i + n) p"]]]
    unfolding put_at_def l by simp
  show "take n (drop i (put_at p i v)) = v" using l assms(2) by (simp add: put_at_def)
  show "j \<le> i \<Longrightarrow> take j (put_at p i v) = take j p" using assms(2) by (simp add: put_at_def min_def)
qed

lemma put_at_same: "i + n \<le> length p \<Longrightarrow> put_at p i (take n (drop i p)) = p"
  unfolding put_at_def by (simp add: min_def) (metis append_take_drop_id drop_drop add.commute)

lemma hval_slice:
  assumes "n + 1 + off + tlen \<le> hl"
  shows "take tlen (drop off (hval p hl n)) = take tlen (drop (n + 1 + off) p)"
  using assms by (simp add: hval_def drop_take min_def add.commute)

lemma line_at_bounds:
  assumes "line_at p hl n off tlen"
  shows "n < hl" "n + 1 + off + tlen \<le> hl" "hl + 2 < length p" "hl + 2 \<le> length p - 1"
proof -
  show hl: "hl + 2 < length p" using assms by (auto simp: line_at_def first_pos_Some)
  then show "hl + 2 \<le> length p - 1" by simp
  show n: "n < hl" using assms by (auto simp: line_at_def first_pos_Some)
  show "n + 1 + off + tlen \<le> hl"
    using header_fits [OF _ n, of p off tlen] hl assms by (simp add: line_at_def hval_def)
qed

lemma scan_step_again:
  assumes line: "line_at p hl n off tlen" and h: "parse_header (take n p) (take tlen (drop off (hval p hl n))) st = (r1, st1, tval)"
    and p1: "p1 = put_at p (n + 1 + off) tval" and q: "recased p1 q" "take (hl + 2) q = take (hl + 2) p1"
  shows "recased p p1" "scan_headers q st = (case r1 of Some e \<Rightarrow> (Some e, st1, q)
     | None \<Rightarrow> let (r, st, rest) = scan_headers (drop (hl + 2) q) st1 in (r, st, take (hl + 2) q @ rest))"
proof -
  let ?k = "n + 1 + off"
  note b = line_at_bounds [OF line]
  note again = parse_header_again [OF h]
  have rv: "recased (take tlen (drop ?k p)) tval" using again hval_slice [OF b(2)] by simp
  have kt: "?k + tlen \<le> length p" using b(2,3) by simp
  note put = put_at_recased [OF rv kt, folded p1]
  show "recased p p1" by (rule put(1))
  have ln: "line_at q hl n off tlen" by (rule line_at_recased [OF line recased_trans [OF put(1) q(1)]])
  have low: "take j q = take j p1" if "j \<le> hl + 2" for j using q(2) that by (metis min.absorb1 take_take)
  have nm: "take n q = take n p" using low [of n] put(3) [of n] b(1) by simp
  have "take (?k + tlen) q = take (?k + tlen) p1" by (rule low) (use b(2) in simp)
  then have tv: "take tlen (drop ?k q) = tval" using put(2) unfolding take_drop by (simp add: add.commute)
  then have v: "take tlen (drop off (hval q hl n)) = tval" using hval_slice [OF b(2)] by simp
  have "put_at q ?k tval = q" using put_at_same [of ?k tlen q] tv kt recased_length [OF put(1)] recased_length [OF q(1)] by simp
  then show "scan_headers q st = (case r1 of Some e \<Rightarrow> (Some e, st1, q)
     | None \<Rightarrow> let (r, st, rest) = scan_headers (drop (hl + 2) q) st1 in (r, st, take (hl + 2) q @ rest))"
    using scan_step [OF ln, of st r1 st1 tval q] again unfolding nm v by simp
qed

lemma scan_again: "scan_headers p st = (r, st', p') \<Longrightarrow> recased p p' \<and> scan_headers p' st = (r, st', p')"
proof (induction "length p" arbitrary: p st r st' p' rule: less_induct)
  case less
  show ?case
  proof (cases rule: scan_cases [of p])
    case (line hl n off tlen)
    obtain r1 st1 tval where h: "parse_header (take n p) (take tlen (drop off (hval p hl n))) st = (r1, st1, tval)"
      using prod_cases3 by blast
    define p1 where "p1 = put_at p (n + 1 + off) tval"
    note step = scan_step [OF line h p1_def] and again = scan_step_again [OF line h p1_def]
    note p1 = again(1) [OF recased_refl refl]
    show ?thesis
    proof (cases r1)
      case (Some e)
      then show ?thesis using step less.prems again(2) [of p1] p1 by simp
    next
      case None
      obtain rest where r: "scan_headers (drop (hl + 2) p1) st1 = (r, st', rest)" "p' = take (hl + 2) p1 @ rest"
        using step less.prems None by (auto split: prod.splits)
      have l: "length p1 = length p" "hl + 2 < length p" using recased_length [OF p1] line_at_bounds(3) [OF line] by simp_all
      have IH: "recased (drop (hl + 2) p1) rest \<and> scan_headers rest st1 = (r, st', rest)"
        by (rule less.hyps [OF _ r(1)]) (use l in simp)
      have "recased (take (hl + 2) p1 @ drop (hl + 2) p1) p'" unfolding r(2) by (rule recased_append) (use IH in simp_all)
      then have q: "recased p1 p'" by simp
      have t: "take (hl + 2) p' = take (hl + 2) p1" "drop (hl + 2) p' = rest" using r(2) l by simp_all
      show ?thesis using recased_trans [OF p1 q] again(2) [OF q t(1)] None IH r(2) l unfolding t by simp
    qed
  qed (use less.prems in simp_all)
qed

lemma parse_head_again:
  assumes "parse_head buf out = (r, out', buf')"
  shows "recased buf buf' \<and> parse_head buf' out = (r, out', buf')"
proof (cases "buf' = buf")
  case True
  then show ?thesis using assms by simp
next
  case False
  obtain n where n: "first_pos 0x0d buf = Some n" "buf ! (n + 1) = 0x0a"
    using assms False by (auto simp: parse_head_def split: option.splits if_splits)
  obtain r1 out1 where l: "parse_request_line (take n buf) out = (r1, out1)" by fastforce
  have r1: "r1 = None" using assms False n l by (auto simp: parse_head_def split: option.splits)
  let ?st = "\<lparr>sc_out = out1, host_seen = 0, body_present = False\<rparr>"
  obtain r2 st p where s: "scan_headers (drop (n + 2) buf) ?st = (r2, st, p)" using prod_cases3 by blast
  have b: "buf' = take (n + 2) buf @ p" using assms n l r1 s by (auto simp: parse_head_def Let_def split: option.splits if_splits)
  note again = scan_again [OF s]
  have le: "n < length buf" using n(1) by (simp add: first_pos_Some)
  have le2: "n + 2 \<le> length buf"
  proof (rule ccontr)
    assume "\<not> n + 2 \<le> length buf"
    then have "drop (n + 2) buf = []" by simp
    then have "p = []" using s by (simp add: scan_headers.simps)
    then show False using b False \<open>\<not> n + 2 \<le> length buf\<close> by simp
  qed
  have rb: "recased buf buf'" using recased_append [OF recased_refl [of "take (n + 2) buf"], of "drop (n + 2) buf" p] again b by simp
  have "first_pos 0x0d buf' = Some n" using first_pos_recased [OF _ rb, of "0x0d"] n(1) by simp
  moreover have "buf' ! (n + 1) = 0x0a" "take n buf' = take n buf" "drop (n + 2) buf' = p" "take (n + 2) buf' = take (n + 2) buf"
    using b le2 n(2) by (simp_all add: nth_append min_def)
  ultimately have "parse_head buf' out = parse_head buf out"
    using again l r1 s n unfolding parse_head_def by simp
  then show ?thesis using rb assms by simp
qed

text \<open>The parse carries the two fields that describe the buffer along unchanged.\<close>

definition frame :: "nat \<Rightarrow> bool \<Rightarrow> http_request \<Rightarrow> http_request" where
  "frame c b out = out\<lparr>hr_consumed := c, has_leftover := b\<rparr>"

definition frame_sc :: "nat \<Rightarrow> bool \<Rightarrow> scan \<Rightarrow> scan" where
  "frame_sc c b st = st\<lparr>sc_out := frame c b (sc_out st)\<rparr>"

lemma frame_updates:
  "frame c b (out\<lparr>cookie := v\<rparr>) = (frame c b out)\<lparr>cookie := v\<rparr>" "frame c b (out\<lparr>origin := v\<rparr>) = (frame c b out)\<lparr>origin := v\<rparr>"
  "frame c b (out\<lparr>pw_auth_header := x\<rparr>) = (frame c b out)\<lparr>pw_auth_header := x\<rparr>"
  "frame c b (out\<lparr>pw_tenant := v\<rparr>) = (frame c b out)\<lparr>pw_tenant := v\<rparr>"
  "frame c b (out\<lparr>client_close := x\<rparr>) = (frame c b out)\<lparr>client_close := x\<rparr>"
  "frame c b (out\<lparr>if_none_match := v\<rparr>) = (frame c b out)\<lparr>if_none_match := v\<rparr>"
  "frame c b (out\<lparr>write_token := v\<rparr>) = (frame c b out)\<lparr>write_token := v\<rparr>"
  "frame c b (out\<lparr>pw_partition_hop := x\<rparr>) = (frame c b out)\<lparr>pw_partition_hop := x\<rparr>"
  "frame c b (out\<lparr>accept_pc := x\<rparr>) = (frame c b out)\<lparr>accept_pc := x\<rparr>"
  "frame c b (out\<lparr>accept_br := x\<rparr>) = (frame c b out)\<lparr>accept_br := x\<rparr>"
  "frame c b (out\<lparr>acr_headers := v\<rparr>) = (frame c b out)\<lparr>acr_headers := v\<rparr>"
  "frame c b (set_principal_header out val) = set_principal_header (frame c b out) val"
  by (simp_all add: frame_def set_principal_header_def)

lemma note_header_frame: "note_header name tval (frame c b out) = frame c b (note_header name tval out)"
  unfolding note_header_def Let_def if_distrib [of "frame c b"] frame_updates ..

lemma note_header_keeps:
  "hr_host (note_header name tval out) = hr_host out" "content_length (note_header name tval out) = content_length out"
  "hr_path (note_header name tval out) = hr_path out" "hr_method (note_header name tval out) = hr_method out"
  unfolding note_header_def Let_def set_principal_header_def
  by (simp_all add: if_distrib [of hr_host] if_distrib [of content_length] if_distrib [of hr_path] if_distrib [of hr_method]
      split del: if_split cong: if_cong)

lemma parse_header_frame:
  "parse_header name tval (frame_sc c b st) = map_prod id (map_prod (frame_sc c b) id) (parse_header name tval st)"
proof -
  have "host_header tval (frame_sc c b st) = map_prod id (map_prod (frame_sc c b) id) (host_header tval st)"
    unfolding host_header_def Let_def frame_sc_def frame_def by simp
  moreover have "content_length_header tval (frame_sc c b st) = map_prod id (frame_sc c b) (content_length_header tval st)"
    unfolding content_length_header_def frame_sc_def frame_def by (simp split: sum.split)
  ultimately show ?thesis
    unfolding parse_header_def by (auto simp: frame_sc_def note_header_frame split: prod.splits)
qed

lemma scan_frame:
  "scan_headers p st = (r, st', p') \<Longrightarrow> scan_headers p (frame_sc c b st) = (r, frame_sc c b st', p')"
proof (induction "length p" arbitrary: p st r st' p' rule: less_induct)
  case less
  show ?case
  proof (cases rule: scan_cases [of p])
    case (line hl n off tlen)
    obtain r1 st1 tval where h: "parse_header (take n p) (take tlen (drop off (hval p hl n))) st = (r1, st1, tval)"
      using prod_cases3 by blast
    define p1 where "p1 = put_at p (n + 1 + off) tval"
    note step = scan_step [OF line h p1_def]
    have h': "parse_header (take n p) (take tlen (drop off (hval p hl n))) (frame_sc c b st) = (r1, frame_sc c b st1, tval)"
      using parse_header_frame h by simp
    note step' = scan_step [OF line h' p1_def]
    show ?thesis
    proof (cases r1)
      case (Some e)
      then show ?thesis using step step' less.prems by simp
    next
      case None
      obtain rest where r: "scan_headers (drop (hl + 2) p1) st1 = (r, st', rest)" "p' = take (hl + 2) p1 @ rest"
        using step less.prems None by (auto split: prod.splits)
      have "length (drop (hl + 2) p1) < length p"
        using line_at_bounds(3) [OF line] recased_length [OF scan_step_again(1) [OF line h p1_def recased_refl refl]] by simp
      from less.hyps [OF this r(1)] show ?thesis using step' None r(2) by simp
    qed
  qed (use less.prems in simp_all)
qed

lemma request_line_frame:
  assumes "parse_request_line line out = (r, out')"
  shows "parse_request_line line (frame c b out) = (r, frame c b out')"
proof -
  have "parse_target m t v (frame c b out) = map_prod id (frame c b) (parse_target m t v out)" for m t v
    by (simp add: parse_target_def Let_def frame_def)
  then have "parse_request_line line (frame c b out) = map_prod id (frame c b) (parse_request_line line out)"
    by (simp add: parse_request_line_def Let_def split: option.split)
  then show ?thesis using assms by simp
qed

lemma parse_head_frame:
  assumes "parse_head buf out = (r, out', buf')"
  shows "parse_head buf (frame c b out) = (r, frame c b out', buf')"
proof (cases "\<exists>n. first_pos 0x0d buf = Some n \<and> buf ! (n + 1) = 0x0a")
  case False
  then show ?thesis using assms by (auto simp: parse_head_def split: option.splits)
next
  case True
  then obtain n where n: "first_pos 0x0d buf = Some n" "buf ! (n + 1) = 0x0a" by blast
  obtain r1 out1 where l: "parse_request_line (take n buf) out = (r1, out1)" by fastforce
  note l' = request_line_frame [OF l, of c b]
  let ?st = "\<lambda>o1. \<lparr>sc_out = o1, host_seen = 0, body_present = False\<rparr>"
  obtain r2 st p where s: "scan_headers (drop (n + 2) buf) (?st out1) = (r2, st, p)" using prod_cases3 by blast
  have s': "scan_headers (drop (n + 2) buf) (?st (frame c b out1)) = (r2, frame_sc c b st, p)"
    using scan_frame [OF s, of c b] by (simp add: frame_sc_def)
  have f: "sc_out (frame_sc c b st) = frame c b (sc_out st)" "host_seen (frame_sc c b st) = host_seen st"
    "body_present (frame_sc c b st) = body_present st" by (simp_all add: frame_sc_def)
  show ?thesis
  proof (cases r1)
    case (Some e)
    then show ?thesis using assms n l l' by (simp add: parse_head_def)
  next
    case None
    show ?thesis using assms n l l' s s' None unfolding parse_head_def
      by (cases r2) (auto simp: f frame_updates(5) Let_def split: if_splits)
  qed
qed

lemma memmem_append:
  assumes "memmem_from pat xs = Some e" "pat \<noteq> []"
  shows "e + length pat \<le> length xs" "memmem_from pat (xs @ ys) = Some e" "take (length pat) (drop e xs) = pat"
proof -
  have "e + length pat \<le> length xs \<and> memmem_from pat (xs @ ys) = Some e \<and> take (length pat) (drop e xs) = pat"
    using assms(1)
  proof (induction xs arbitrary: e)
    case Nil
    then show ?case using assms(2) by simp
  next
    case (Cons x xs)
    show ?case
    proof (cases "take (length pat) (x # xs) = pat")
      case True
      then have l: "length pat \<le> length (x # xs)" by (metis length_take min.cobounded1)
      then have "take (length pat) ((x # xs) @ ys) = pat" using True by (simp only: take_append) simp
      then show ?thesis using True l Cons.prems by simp
    next
      case False
      then obtain e' where e: "memmem_from pat xs = Some e'" "e = Suc e'" using Cons.prems by auto
      note IH = Cons.IH [OF e(1)]
      then have "take (length pat) ((x # xs) @ ys) = take (length pat) (x # xs)" by (simp only: take_append) simp
      then show ?thesis using IH e(2) False by simp
    qed
  qed
  then show "e + length pat \<le> length xs" "memmem_from pat (xs @ ys) = Some e" "take (length pat) (drop e xs) = pat" by simp_all
qed

lemma http_parse_head:
  assumes "memmem_from (CRLF @ CRLF) buf = Some e" "parse_head (take (e + 4) buf) http_request_zero = (r, req0, head)"
  shows "http_parse buf = (r, frame (e + 4) (e + 4 < length buf) req0, head @ drop (e + 4) buf)"
proof -
  have "\<not> length buf < 4" using memmem_append(1) [OF assms(1)] by (simp add: CRLF_def)
  then show ?thesis
    using parse_head_frame [OF assms(2), of "e + 4" "e + 4 < length buf"] assms(1)
    unfolding http_parse_def frame_def Let_def by simp
qed

lemma http_parse_found:
  assumes "http_parse buf = (HTTP_OK, req, buf')"
  obtains e head req0 where "memmem_from (CRLF @ CRLF) buf = Some e" "length buf \<ge> e + 4"
    "parse_head (take (e + 4) buf) http_request_zero = (HTTP_OK, req0, head)"
    "req = frame (e + 4) (e + 4 < length buf) req0" "buf' = head @ drop (e + 4) buf"
proof -
  obtain e where e: "memmem_from (CRLF @ CRLF) buf = Some e"
    using assms by (auto simp: http_parse_def Let_def split: if_splits option.splits)
  have l: "length buf \<ge> e + 4" using memmem_append(1) [OF e] by (simp add: CRLF_def)
  obtain r req0 head where h: "parse_head (take (e + 4) buf) http_request_zero = (r, req0, head)" using prod_cases3 by blast
  from http_parse_head [OF e h] show thesis using that [OF e l] h assms by simp
qed

text \<open>
  C3: Parsing is stable. When the parser accepts a request, the buffer it leaves differs from the one it was
  given only in the case of letters, and parsing that buffer again with any further bytes after it accepts the
  same request and leaves the buffer alone. So a caller that keeps the bytes until the body has arrived, or
  that reads more bytes before it looks at the request, sees one and the same request.
\<close>

theorem http_parse_stable:
  assumes "http_parse buf = (HTTP_OK, req, buf')"
  shows "map lower_scalar buf' = map lower_scalar buf
    \<and> http_parse (buf' @ rest) = (HTTP_OK, req\<lparr>has_leftover := hr_consumed req < length (buf' @ rest)\<rparr>, buf' @ rest)"
proof -
  obtain e head req0 where e: "memmem_from (CRLF @ CRLF) buf = Some e" "length buf \<ge> e + 4"
    "parse_head (take (e + 4) buf) http_request_zero = (HTTP_OK, req0, head)"
    "req = frame (e + 4) (e + 4 < length buf) req0" "buf' = head @ drop (e + 4) buf" using http_parse_found [OF assms] by blast
  note again = parse_head_again [OF e(3)]
  have r: "recased buf buf'" using recased_append [of "take (e + 4) buf" head "drop (e + 4) buf", OF _ recased_refl] again e(5) by simp
  have l: "length head = e + 4" using recased_length [of "take (e + 4) buf" head] again e(2) by simp
  have "list_all (\<lambda>c. c < 0x41) (CRLF @ CRLF)" by (simp add: CRLF_def)
  from memmem_recased [OF this r] e(1) have "memmem_from (CRLF @ CRLF) buf' = Some e" by simp
  from memmem_append(2) [OF this, of rest] have m: "memmem_from (CRLF @ CRLF) (buf' @ rest) = Some e" by (simp add: CRLF_def)
  have t: "take (e + 4) (buf' @ rest) = head" "head @ drop (e + 4) (buf' @ rest) = buf' @ rest" using l e(5) by simp_all
  have "parse_head (take (e + 4) (buf' @ rest)) http_request_zero = (HTTP_OK, req0, head)" using again unfolding t by simp
  from http_parse_head [OF m this]
  have "http_parse (buf' @ rest) = (HTTP_OK, frame (e + 4) (e + 4 < length (buf' @ rest)) req0, buf' @ rest)" unfolding t .
  moreover have "map lower_scalar buf' = map lower_scalar buf"
    using r by (simp add: recased_def list_all2_conv_all_nth list_eq_iff_nth_eq)
  ultimately show ?thesis using e(4) by (simp add: frame_def)
qed

definition ex_request :: bytes where
  "ex_request = str ''GET /a HTTP/1.1'' @ CRLF @ str ''HOST: Ex.Org:80'' @ CRLF @ str ''Content-Length: 3'' @ CRLF @ CRLF @ str ''xyz''"

theorem http_parse_stable_witness:
  "http_parse (snd (snd (http_parse ex_request)) @ [1]) =
     (HTTP_OK, (fst (snd (http_parse ex_request)))\<lparr>has_leftover := True\<rparr>, snd (snd (http_parse ex_request)) @ [1])"
proof -
  have ok: "fst (http_parse ex_request) = HTTP_OK" by code_simp
  have c: "hr_consumed (fst (snd (http_parse ex_request))) < length (snd (snd (http_parse ex_request)) @ [1])" by code_simp
  have "http_parse ex_request = (HTTP_OK, fst (snd (http_parse ex_request)), snd (snd (http_parse ex_request)))"
    using ok by (metis prod.collapse)
  from http_parse_stable [OF this, of "[1]"] c show ?thesis by simp
qed

end
