(* ===== verification/Http_Spec.thy ===== *)
theory Http_Spec
  imports Http
begin

text \<open>
  What the HTTP front end promises: the shape of every accepted request, acceptance of well-formed ones, the
  meaning of the path check, of \<open>Content-Length\<close> and of \<open>If-None-Match\<close>, and the answer chosen from the table.
\<close>

section \<open>The lines of an accepted head\<close>

definition crlf_lines :: "bytes list \<Rightarrow> bytes" where
  "crlf_lines hs = concat (map (\<lambda>h. h @ CRLF) hs)"

definition named :: "string \<Rightarrow> bytes \<Rightarrow> bool" where
  "named nm h \<longleftrightarrow> map lower_scalar (takeWhile (\<lambda>c. c \<noteq> 0x3a) h) = str nm"

text \<open>The value of a header line, without the white space around it, and the host that a Host line names: without its port, in lower case.\<close>

definition field_value :: "bytes \<Rightarrow> bytes" where
  "field_value h = rev (dropWhile is_ows (rev (dropWhile is_ows (tl (dropWhile (\<lambda>c. c \<noteq> 0x3a) h)))))"

definition host_name :: "bytes \<Rightarrow> bytes" where
  "host_name h = map lower_scalar (takeWhile (\<lambda>c. c \<noteq> 0x3a) (field_value h))"

definition host_ok :: "bytes \<Rightarrow> bool" where
  "host_ok h \<longleftrightarrow> 1 \<le> length h \<and> length h \<le> 253 \<and> list_all host_char h"

definition scan_inv :: "scan \<Rightarrow> bool" where
  "scan_inv st \<longleftrightarrow> (host_seen st = 0 \<or> host_seen st = 1 \<and> (\<exists>h. hr_host (sc_out st) = Some h \<and> host_ok h))
     \<and> (body_present st \<longleftrightarrow> content_length (sc_out st) > 0)"

lemma ieq_names:
  assumes "0x0d \<notin> set name"
  shows "length name = 4 \<and> metal_ieq name (str ''Host'') \<longleftrightarrow> map lower_scalar name = str ''host''"
    "length name = 14 \<and> metal_ieq name (str ''Content-Length'') \<longleftrightarrow> map lower_scalar name = str ''content-length''"
    "length name = 17 \<and> metal_ieq name (str ''Transfer-Encoding'') \<longleftrightarrow> map lower_scalar name = str ''transfer-encoding''"
proof -
  have n: "list_all name_char (str ''Host'')" "list_all name_char (str ''Content-Length'')"
    "list_all name_char (str ''Transfer-Encoding'')" by code_simp+
  have l: "map lower_scalar (str ''Host'') = str ''host''" "map lower_scalar (str ''Content-Length'') = str ''content-length''"
    "map lower_scalar (str ''Transfer-Encoding'') = str ''transfer-encoding''" by code_simp+
  have len: "length (str ''host'') = 4" "length (str ''content-length'') = 14" "length (str ''transfer-encoding'') = 17"
    by (simp_all add: str_def)
  show "length name = 4 \<and> metal_ieq name (str ''Host'') \<longleftrightarrow> map lower_scalar name = str ''host''"
    unfolding metal_ieq_lower [OF n(1) assms] l using len(1) by (metis length_map)
  show "length name = 14 \<and> metal_ieq name (str ''Content-Length'') \<longleftrightarrow> map lower_scalar name = str ''content-length''"
    unfolding metal_ieq_lower [OF n(2) assms] l using len(2) by (metis length_map)
  show "length name = 17 \<and> metal_ieq name (str ''Transfer-Encoding'') \<longleftrightarrow> map lower_scalar name = str ''transfer-encoding''"
    unfolding metal_ieq_lower [OF n(3) assms] l using len(3) by (metis length_map)
qed

lemma split_at_pos:
  assumes "first_pos c xs = Some i"
  shows "xs = take i xs @ c # drop (i + 1) xs" "c \<notin> set (take i xs)"
  using assms id_take_nth_drop [of i xs] by (auto simp: first_pos_Some)

lemma cut_at_pos: "take (case first_pos c t of Some q \<Rightarrow> q | None \<Rightarrow> length t) t = takeWhile (\<lambda>x. x \<noteq> c) t"
proof (cases "first_pos c t")
  case None
  then have "takeWhile (\<lambda>x. x \<noteq> c) t = t" unfolding first_pos_None by (auto simp: takeWhile_eq_all_conv)
  then show ?thesis unfolding None option.case take_all [OF order_refl] by (rule sym)
next
  case (Some q)
  note sp = split_at_pos [OF Some]
  have "takeWhile (\<lambda>x. x \<noteq> c) (take q t @ c # drop (q + 1) t) = take q t"
    using sp(2) by (subst takeWhile_append2) auto
  then show ?thesis using sp(1) Some by simp
qed

lemma trimmed_value:
  assumes "trim_ows s = (off, tlen)"
  shows "take tlen (drop off s) = rev (dropWhile is_ows (rev (dropWhile is_ows s)))"
proof -
  have "rev (dropWhile P (rev v)) = take (length v - length (takeWhile P (rev v))) v" for P and v :: bytes
    by (simp add: dropWhile_eq_drop rev_drop)
  moreover have "drop off s = dropWhile is_ows s" "tlen = length (drop off s) - length (takeWhile is_ows (rev (drop off s)))"
    using assms by (auto simp: trim_ows_def Let_def dropWhile_eq_drop)
  ultimately show ?thesis by simp
qed

lemma host_header_ok:
  assumes "host_header tval st = (None, st', tval')" "scan_inv st"
  shows "host_seen st' = host_seen st + 1" "scan_inv st'" "hr_path (sc_out st') = hr_path (sc_out st)"
    "hr_method (sc_out st') = hr_method (sc_out st)" "hr_host (sc_out st') = Some (map lower_scalar (takeWhile (\<lambda>c. c \<noteq> 0x3a) tval))"
proof -
  define h where "h = (case first_pos 0x3a tval of Some i \<Rightarrow> i | None \<Rightarrow> length tval)"
  have hl: "h \<le> length tval" using first_pos_Some [of "0x3a" tval] by (auto simp: h_def split: option.split)
  have "host_seen st = 0" "h \<noteq> 0" "h \<le> 253" "list_all host_char (map lower_scalar (take h tval))"
    "st' = st\<lparr>host_seen := 1, sc_out := (sc_out st)\<lparr>hr_host := Some (map lower_scalar (take h tval))\<rparr>\<rparr>"
    using assms(1) hl unfolding host_header_def Let_def lower_inplace_map h_def [symmetric] by (auto split: if_splits)
  moreover have "takeWhile (\<lambda>c. c \<noteq> 0x3a) tval = take h tval" unfolding h_def by (rule cut_at_pos [symmetric])
  ultimately show "host_seen st' = host_seen st + 1" "scan_inv st'" "hr_path (sc_out st') = hr_path (sc_out st)"
    "hr_method (sc_out st') = hr_method (sc_out st)" "hr_host (sc_out st') = Some (map lower_scalar (takeWhile (\<lambda>c. c \<noteq> 0x3a) tval))"
    using assms(2) hl by (simp_all add: scan_inv_def host_ok_def)
qed

lemma content_length_ok:
  assumes "content_length_header tval st = (None, st')" "scan_inv st"
  shows "host_seen st' = host_seen st" "scan_inv st'" "hr_path (sc_out st') = hr_path (sc_out st)"
    "hr_method (sc_out st') = hr_method (sc_out st)" "hr_host (sc_out st') = hr_host (sc_out st)"
proof -
  obtain cl where cl: "content_length_loop tval 0 = Inr cl" "\<not> (body_present st \<and> content_length (sc_out st) \<noteq> cl)"
    "st' = st\<lparr>sc_out := (sc_out st)\<lparr>content_length := cl\<rparr>, body_present := (if cl > 0 then True else body_present st)\<rparr>"
    using assms(1) by (auto simp: content_length_header_def split: if_splits sum.splits)
  show "host_seen st' = host_seen st" "hr_path (sc_out st') = hr_path (sc_out st)" "hr_method (sc_out st') = hr_method (sc_out st)"
    "hr_host (sc_out st') = hr_host (sc_out st)"
    using cl(3) by simp_all
  show "scan_inv st'" using cl(2) assms(2) unfolding cl(3) scan_inv_def by auto
qed

lemma parse_header_ok:
  assumes "0x0d \<notin> set name" "parse_header name tval st = (None, st', tval')" "scan_inv st"
  shows "map lower_scalar name \<noteq> str ''transfer-encoding''"
    "host_seen st' = host_seen st + (if map lower_scalar name = str ''host'' then 1 else 0)" "scan_inv st'"
    "hr_path (sc_out st') = hr_path (sc_out st)" "hr_method (sc_out st') = hr_method (sc_out st)"
    "hr_host (sc_out st') = (if map lower_scalar name = str ''host'' then Some (map lower_scalar (takeWhile (\<lambda>c. c \<noteq> 0x3a) tval)) else hr_host (sc_out st))"
proof -
  note e = parse_header_def [of name tval st, unfolded ieq_names [OF assms(1)]]
  have d: "str ''host'' \<noteq> str ''content-length''" "str ''host'' \<noteq> str ''transfer-encoding''"
    "str ''content-length'' \<noteq> str ''transfer-encoding''" by (simp_all add: str_def)
  consider (host) "map lower_scalar name = str ''host''" "host_header tval st = (None, st', tval')"
    | (len) "map lower_scalar name = str ''content-length''" "content_length_header tval st = (None, st')"
    | (other) "map lower_scalar name \<noteq> str ''host''" "map lower_scalar name \<noteq> str ''transfer-encoding''"
      "st' = st\<lparr>sc_out := note_header name tval (sc_out st)\<rparr>"
    using assms(2) unfolding e by (auto split: if_splits prod.splits)
  then have "map lower_scalar name \<noteq> str ''transfer-encoding''
    \<and> host_seen st' = host_seen st + (if map lower_scalar name = str ''host'' then 1 else 0) \<and> scan_inv st'
    \<and> hr_path (sc_out st') = hr_path (sc_out st) \<and> hr_method (sc_out st') = hr_method (sc_out st)
    \<and> hr_host (sc_out st') = (if map lower_scalar name = str ''host'' then Some (map lower_scalar (takeWhile (\<lambda>c. c \<noteq> 0x3a) tval)) else hr_host (sc_out st))"
  proof cases
    case host
    then show ?thesis using host_header_ok [OF host(2) assms(3)] d by simp
  next
    case len
    then show ?thesis using content_length_ok [OF len(2) assms(3)] d by simp
  next
    case other
    then show ?thesis using assms(3) by (simp add: scan_inv_def note_header_keeps)
  qed
  then show "map lower_scalar name \<noteq> str ''transfer-encoding''"
    "host_seen st' = host_seen st + (if map lower_scalar name = str ''host'' then 1 else 0)" "scan_inv st'"
    "hr_path (sc_out st') = hr_path (sc_out st)" "hr_method (sc_out st') = hr_method (sc_out st)"
    "hr_host (sc_out st') = (if map lower_scalar name = str ''host'' then Some (map lower_scalar (takeWhile (\<lambda>c. c \<noteq> 0x3a) tval)) else hr_host (sc_out st))" by simp_all
qed

lemma line_split:
  assumes "line_at p hl n off tlen" "drop (length p - 2) p = CRLF"
  shows "p = take hl p @ CRLF @ drop (hl + 2) p" "hl + 2 \<le> length p - 2" "drop (length (drop (hl + 2) p) - 2) (drop (hl + 2) p) = CRLF"
    "0x0d \<notin> set (take hl p)" "0x3a \<in> set (take hl p)" "takeWhile (\<lambda>c. c \<noteq> 0x3a) (take hl p) = take n p"
    "take tlen (drop off (hval p hl n)) = field_value (take hl p)"
proof -
  have f: "first_pos 0x0d (take (length p - 2) p) = Some hl" "p ! (hl + 1) = 0x0a" "first_pos 0x3a (take hl p) = Some n"
    using assms(1) by (simp_all add: line_at_def)
  have hl: "hl < length p - 2" "p ! hl = 0x0d" "0x0d \<notin> set (take hl p)" using f(1) by (auto simp: first_pos_Some)
  have "p ! (length p - 2) = 0x0d"
    using arg_cong [OF assms(2), of "\<lambda>xs. xs ! 0"] hl(1) by (simp add: CRLF_def)
  then have "hl + 1 \<noteq> length p - 2" using f(2) by auto
  then show b: "hl + 2 \<le> length p - 2" using hl(1) by simp
  then have "drop hl p = p ! hl # p ! (hl + 1) # drop (hl + 2) p"
    using Cons_nth_drop_Suc [of hl p] Cons_nth_drop_Suc [of "hl + 1" p] by simp
  then show "p = take hl p @ CRLF @ drop (hl + 2) p"
    using append_take_drop_id [of hl p] hl(2) f(2) by (simp add: CRLF_def)
  show "0x0d \<notin> set (take hl p)" by (rule hl(3))
  show "0x3a \<in> set (take hl p)" using f(3) first_pos_None [of "0x3a" "take hl p"] by auto
  have n: "n < hl" by (rule line_at_bounds(1) [OF assms(1)])
  have c: "take hl p ! n = 0x3a" "0x3a \<notin> set (take n (take hl p))" using f(3) unfolding first_pos_Some by blast+
  have "take hl p = take n (take hl p) @ 0x3a # drop (Suc n) (take hl p)"
    using id_take_nth_drop [of n "take hl p"] n b c(1) by simp
  moreover have "takeWhile (\<lambda>c. c \<noteq> 0x3a) (a @ 0x3a # b) = a" if "0x3a \<notin> set a" for a and b :: bytes
    using that by (subst takeWhile_append2) auto
  ultimately have "takeWhile (\<lambda>c. c \<noteq> 0x3a) (take hl p) = take n (take hl p)" using c(2) by metis
  then show tw: "takeWhile (\<lambda>c. c \<noteq> 0x3a) (take hl p) = take n p" using n by (simp add: min_def)
  have "tl (dropWhile (\<lambda>c. c \<noteq> 0x3a) (take hl p)) = hval p hl n"
    unfolding dropWhile_eq_drop tw using n b by (simp add: hval_def min_def tl_drop drop_take tl_take flip: drop_Suc)
  then show "take tlen (drop off (hval p hl n)) = field_value (take hl p)"
    using assms(1) trimmed_value by (simp add: line_at_def field_value_def)
  have "length (drop (hl + 2) p) - 2 + (hl + 2) = length p - 2" using b by simp
  then show "drop (length (drop (hl + 2) p) - 2) (drop (hl + 2) p) = CRLF" using assms(2) by (simp only: drop_drop)
qed

lemma scan_lines:
  "scan_headers p st = (None, st', p') \<Longrightarrow> drop (length p - 2) p = CRLF \<Longrightarrow> scan_inv st \<Longrightarrow>
     (\<exists>hs. p = crlf_lines hs @ CRLF \<and> (\<forall>h\<in>set hs. 0x0d \<notin> set h \<and> 0x3a \<in> set h \<and> \<not> named ''transfer-encoding'' h)
       \<and> host_seen st' = host_seen st + length (filter (named ''host'') hs)
       \<and> hr_host (sc_out st') = (if filter (named ''host'') hs = [] then hr_host (sc_out st)
                               else Some (host_name (last (filter (named ''host'') hs)))))
     \<and> scan_inv st' \<and> hr_path (sc_out st') = hr_path (sc_out st) \<and> hr_method (sc_out st') = hr_method (sc_out st)"
proof (induction "length p" arbitrary: p st st' p' rule: less_induct)
  case less
  show ?case
  proof (cases rule: scan_cases [of p])
    case fin
    then have "p = CRLF" "st' = st" using less.prems(1,2) by (auto simp: CRLF_def)
    then show ?thesis using less.prems(3) by (intro conjI exI [of _ "[]"]) (simp_all add: crlf_lines_def)
  next
    case bad
    then show ?thesis using less.prems(1) by simp
  next
    case (line hl n off tlen)
    note sp = line_split [OF line less.prems(2)]
    obtain r1 st1 tval where h: "parse_header (take n p) (take tlen (drop off (hval p hl n))) st = (r1, st1, tval)"
      using prod_cases3 by blast
    define p1 where "p1 = put_at p (n + 1 + off) tval"
    note step = scan_step [OF line h p1_def]
    have r1: "r1 = None" using step less.prems(1) by (cases r1) simp_all
    obtain q where q: "scan_headers (drop (hl + 2) p1) st1 = (None, st', q)"
      using step less.prems(1) r1 by (auto split: prod.splits)
    note b = line_at_bounds [OF line]
    have "length tval = tlen" using parse_header_length [OF h] hval_slice [OF b(2), of p] b(2,3) by simp
    then have d: "drop (hl + 2) p1 = drop (hl + 2) p" using b(2,3) by (simp add: p1_def put_at_def)
    have nm: "0x0d \<notin> set (take n p)" using sp(4) line_at_bounds(1) [OF line] by (meson less_imp_le set_take_subset_set_take subsetD)
    note ok = parse_header_ok [OF nm h [unfolded r1] less.prems(3)]
    have "length (drop (hl + 2) p1) < length p" unfolding d using sp(2) by simp
    from less.hyps [OF this q _ ok(3), unfolded d, OF sp(3)] obtain hs where
      hs: "drop (hl + 2) p = crlf_lines hs @ CRLF" "\<forall>h\<in>set hs. 0x0d \<notin> set h \<and> 0x3a \<in> set h \<and> \<not> named ''transfer-encoding'' h"
        "host_seen st' = host_seen st1 + length (filter (named ''host'') hs)"
        "hr_host (sc_out st') = (if filter (named ''host'') hs = [] then hr_host (sc_out st1)
                               else Some (host_name (last (filter (named ''host'') hs))))"
      and i: "scan_inv st'" "hr_path (sc_out st') = hr_path (sc_out st1)" "hr_method (sc_out st') = hr_method (sc_out st1)" by blast
    have "p = crlf_lines (take hl p # hs) @ CRLF" using sp(1) hs(1) by (simp add: crlf_lines_def)
    moreover have "named nm (take hl p) \<longleftrightarrow> map lower_scalar (take n p) = str nm" for nm by (simp add: named_def sp(6))
    moreover have "hr_host (sc_out st1) = (if named ''host'' (take hl p) then Some (host_name (take hl p)) else hr_host (sc_out st))"
      using ok(6) sp(7) by (simp add: named_def sp(6) host_name_def)
    ultimately show ?thesis using hs(2,3,4) i ok(1-5) sp(4,5) by (intro conjI exI [of _ "take hl p # hs"]) simp_all
  qed
qed

lemma request_line_ok:
  assumes "parse_request_line line out = (None, out')"
  obtains meth target where "line = meth @ str '' '' @ target @ str '' HTTP/1.1''" "hr_method out' = classify_method meth"
    "hr_method out' \<noteq> M_UNKNOWN" "path_is_safe target" "hr_path out' = Some (takeWhile (\<lambda>c. c \<noteq> 0x3f) target)"
    "hr_host out' = hr_host out" "content_length out' = content_length out"
proof -
  obtain i where i: "first_pos 0x20 line = Some i"
    using assms by (auto simp: parse_request_line_def split: if_splits option.splits)
  obtain j where j: "first_pos 0x20 (drop (i + 1) line) = Some j"
    using assms i by (auto simp: parse_request_line_def Let_def split: if_splits option.splits)
  let ?m = "take i line" and ?t = "take j (drop (i + 1) line)" and ?v = "drop (j + 1) (drop (i + 1) line)"
  have t: "parse_target ?m ?t ?v out = (None, out')"
    using assms i j by (auto simp: parse_request_line_def Let_def split: if_splits)
  then have v: "?v = str ''HTTP/1.1''" by (auto simp: parse_target_def split: if_splits)
  have "line = ?m @ 0x20 # ?t @ 0x20 # ?v" using split_at_pos(1) [OF i] split_at_pos(1) [OF j] by simp
  then have "line = ?m @ str '' '' @ ?t @ str '' HTTP/1.1''" unfolding v by (simp add: str_def)
  moreover have "classify_method ?m \<noteq> M_UNKNOWN" "path_is_safe ?t"
    "out' = out\<lparr>hr_method := classify_method ?m, hr_path := Some (takeWhile (\<lambda>c. c \<noteq> 0x3f) ?t)\<rparr>"
    using t unfolding parse_target_def Let_def cut_at_pos by (auto split: if_splits)
  ultimately show thesis using that [of ?m ?t] by simp
qed

lemma head_split:
  assumes "memmem_from (CRLF @ CRLF) buf = Some e" "first_pos 0x0d (take (e + 4) buf) = Some n" "take (e + 4) buf ! (n + 1) = 0x0a"
  shows "buf = take n buf @ CRLF @ drop (n + 2) (take (e + 4) buf) @ drop (e + 4) buf" "n \<le> e"
    "drop (length (drop (n + 2) (take (e + 4) buf)) - 2) (drop (n + 2) (take (e + 4) buf)) = CRLF"
proof -
  let ?h = "take (e + 4) buf"
  have m: "e + 4 \<le> length buf" "take 4 (drop e buf) = CRLF @ CRLF" using memmem_append(1,3) [OF assms(1)] by (simp_all add: CRLF_def numeral_eq_Suc)
  have n: "n < length ?h" "?h ! n = 0x0d" "0x0d \<notin> set (take n ?h)" using assms(2) unfolding first_pos_Some by blast+
  have e0: "?h ! e = 0x0d" using arg_cong [OF m(2), of "\<lambda>xs. xs ! 0"] m(1) by (simp add: CRLF_def)
  show ne: "n \<le> e"
  proof (rule ccontr)
    assume "\<not> n \<le> e"
    then have "?h ! e \<in> set (take n ?h)" using n(1) m(1) in_set_conv_nth [of "?h ! e" "take n ?h"] by (metis nth_take length_take min.absorb4 less_imp_le not_le)
    then show False using n(3) e0 by simp
  qed
  have "drop n ?h = ?h ! n # ?h ! (n + 1) # drop (n + 2) ?h"
    using Cons_nth_drop_Suc [of n ?h] Cons_nth_drop_Suc [of "n + 1" ?h] ne m(1) by simp
  then have "?h = take n ?h @ CRLF @ drop (n + 2) ?h"
    using append_take_drop_id [of n ?h] n(2) assms(3) by (simp add: CRLF_def)
  then have "buf = (take n ?h @ CRLF @ drop (n + 2) ?h) @ drop (e + 4) buf" using append_take_drop_id [of "e + 4" buf] by simp
  then show "buf = take n buf @ CRLF @ drop (n + 2) ?h @ drop (e + 4) buf" using ne by (simp add: min_def)
  have "length (drop (n + 2) ?h) - 2 + (n + 2) = e + 2" using ne m(1) by simp
  moreover have "drop (e + 2) ?h = CRLF" using m by (simp add: drop_take CRLF_def numeral_eq_Suc take_Suc drop_Suc tl_drop)
  ultimately show "drop (length (drop (n + 2) ?h) - 2) (drop (n + 2) ?h) = CRLF" by (simp only: drop_drop)
qed

lemma parse_header_not_ok: "parse_header name tval st \<noteq> (Some HTTP_OK, st', tval')"
proof -
  have c: "content_length_loop v cl \<noteq> Inl HTTP_OK" for v cl
    by (induction v cl rule: content_length_loop.induct) (auto simp: Let_def)
  have "fst (host_header tval st) \<noteq> Some HTTP_OK" by (simp add: host_header_def Let_def)
  moreover have "fst (content_length_header tval st) \<noteq> Some HTTP_OK"
    using c [of tval 0] by (auto simp: content_length_header_def split: sum.splits)
  ultimately have "fst (parse_header name tval st) \<noteq> Some HTTP_OK" by (auto simp: parse_header_def split: prod.splits)
  then show ?thesis by auto
qed

lemma scan_not_ok: "scan_headers p st \<noteq> (Some HTTP_OK, st', p')"
proof (induction "length p" arbitrary: p st p' rule: less_induct)
  case less
  show ?case
  proof (cases rule: scan_cases [of p])
    case (line hl n off tlen)
    obtain r1 st1 tval where h: "parse_header (take n p) (take tlen (drop off (hval p hl n))) st = (r1, st1, tval)"
      using prod_cases3 by blast
    define p1 where "p1 = put_at p (n + 1 + off) tval"
    note step = scan_step [OF line h p1_def]
    have l: "length (drop (hl + 2) p1) < length p"
      using line_at_bounds(3) [OF line] recased_length [OF scan_step_again(1) [OF line h p1_def recased_refl refl]] by simp
    have "r1 \<noteq> Some HTTP_OK" using parse_header_not_ok h by blast
    then show ?thesis using step less.hyps [OF l, of st1] by (cases r1) (auto split: prod.splits)
  qed simp_all
qed

lemma parse_head_ok:
  assumes "parse_head h out = (HTTP_OK, req, head)"
  obtains n out1 st p where "first_pos 0x0d h = Some n" "h ! (n + 1) = 0x0a" "parse_request_line (take n h) out = (None, out1)"
    "scan_headers (drop (n + 2) h) \<lparr>sc_out = out1, host_seen = 0, body_present = False\<rparr> = (None, st, p)"
    "host_seen st \<noteq> 0" "req = (if body_present st then (sc_out st)\<lparr>client_close := True\<rparr> else sc_out st)"
proof -
  obtain n where n: "first_pos 0x0d h = Some n" "h ! (n + 1) = 0x0a"
    using assms by (auto simp: parse_head_def split: option.splits if_splits)
  obtain r1 out1 where l: "parse_request_line (take n h) out = (r1, out1)" by fastforce
  have not_ok: "e \<noteq> HTTP_OK" if "parse_request_line (take n h) out = (Some e, out1)" for e
    using that by (auto simp: parse_request_line_def parse_target_def Let_def split: if_splits option.splits)
  have r1: "r1 = None"
  proof (cases r1)
    case (Some e)
    then show ?thesis using assms n l not_ok [of e] by (simp add: parse_head_def)
  qed simp
  let ?st = "\<lparr>sc_out = out1, host_seen = 0, body_present = False\<rparr>"
  obtain r2 st p where s: "scan_headers (drop (n + 2) h) ?st = (r2, st, p)" using prod_cases3 by blast
  have r2: "r2 = None"
  proof (cases r2)
    case (Some e)
    then have "e = HTTP_OK" using assms n l r1 s by (simp add: parse_head_def Let_def)
    then show ?thesis using scan_not_ok s Some by blast
  qed simp
  have "host_seen st \<noteq> 0" "req = (if body_present st then (sc_out st)\<lparr>client_close := True\<rparr> else sc_out st)"
    using assms n l r1 s r2 by (simp_all add: parse_head_def Let_def split: if_splits)
  then show thesis using that [OF n l [unfolded r1] s [unfolded r2]] by blast
qed

lemma accepted_parts:
  assumes "http_parse buf = (HTTP_OK, req, buf')"
  obtains meth target hs rest host hl where
    "buf = meth @ str '' '' @ target @ str '' HTTP/1.1'' @ CRLF @ crlf_lines hs @ CRLF @ rest"
    "hr_consumed req + length rest = length buf"
    "\<forall>h\<in>set hs. 0x0d \<notin> set h \<and> 0x3a \<in> set h \<and> \<not> named ''transfer-encoding'' h"
    "filter (named ''host'') hs = [hl]" "host = host_name hl"
    "hr_method req = classify_method meth" "hr_method req \<noteq> M_UNKNOWN"
    "path_is_safe target" "hr_path req = Some (takeWhile (\<lambda>c. c \<noteq> 0x3f) target)"
    "hr_host req = Some host" "host_ok host" "content_length req > 0 \<longrightarrow> client_close req"
proof -
  obtain e head req0 where e: "memmem_from (CRLF @ CRLF) buf = Some e" "length buf \<ge> e + 4"
    "parse_head (take (e + 4) buf) http_request_zero = (HTTP_OK, req0, head)"
    "req = frame (e + 4) (e + 4 < length buf) req0" "buf' = head @ drop (e + 4) buf" by (rule http_parse_found [OF assms])
  let ?h = "take (e + 4) buf"
  obtain n out1 st p where n: "first_pos 0x0d ?h = Some n" "?h ! (n + 1) = 0x0a"
    and l: "parse_request_line (take n ?h) http_request_zero = (None, out1)"
    and s: "scan_headers (drop (n + 2) ?h) \<lparr>sc_out = out1, host_seen = 0, body_present = False\<rparr> = (None, st, p)"
    and fin: "host_seen st \<noteq> 0" "req0 = (if body_present st then (sc_out st)\<lparr>client_close := True\<rparr> else sc_out st)"
    by (rule parse_head_ok [OF e(3)])
  note sp = head_split [OF e(1) n]
  have tk: "take n ?h = take n buf" using sp(2) by (simp add: min_def)
  obtain meth target where rl: "take n buf = meth @ str '' '' @ target @ str '' HTTP/1.1''" "hr_method out1 = classify_method meth"
    "hr_method out1 \<noteq> M_UNKNOWN" "path_is_safe target" "hr_path out1 = Some (takeWhile (\<lambda>c. c \<noteq> 0x3f) target)"
    "hr_host out1 = hr_host http_request_zero" "content_length out1 = content_length http_request_zero"
    by (rule request_line_ok [OF l [unfolded tk]])
  have "scan_inv \<lparr>sc_out = out1, host_seen = 0, body_present = False\<rparr>" using rl(7) by (simp add: scan_inv_def http_request_zero_def)
  from scan_lines [OF s sp(3) this] obtain hs where
    hs: "drop (n + 2) ?h = crlf_lines hs @ CRLF" "\<forall>h\<in>set hs. 0x0d \<notin> set h \<and> 0x3a \<in> set h \<and> \<not> named ''transfer-encoding'' h"
      "host_seen st = length (filter (named ''host'') hs)"
      "filter (named ''host'') hs \<noteq> [] \<Longrightarrow> hr_host (sc_out st) = Some (host_name (last (filter (named ''host'') hs)))"
    and i: "scan_inv st" "hr_path (sc_out st) = hr_path out1" "hr_method (sc_out st) = hr_method out1" by auto
  obtain host where host: "host_seen st = 1" "hr_host (sc_out st) = Some host" "host_ok host"
    using i(1) fin(1) by (auto simp: scan_inv_def)
  obtain hl where hl: "filter (named ''host'') hs = [hl]" using host(1) hs(3) by (metis length_0_conv length_Suc_conv One_nat_def)
  then have hn: "host = host_name hl" using hs(4) host(2) by simp
  have b: "buf = meth @ str '' '' @ target @ str '' HTTP/1.1'' @ CRLF @ crlf_lines hs @ CRLF @ drop (e + 4) buf"
    using sp(1) unfolding rl(1) hs(1) by simp
  have f: "hr_path req = hr_path out1" "hr_method req = hr_method out1" "hr_host req = Some host" "hr_consumed req = e + 4"
    "content_length req > 0 \<longrightarrow> client_close req"
    using i host(2) fin(2) e(4) by (auto simp: frame_def scan_inv_def)
  show thesis
    by (rule that [OF b _ hs(2) hl hn _ _ rl(4) _ f(3) host(3) f(5)]) (use f rl e(2) in simp_all)
qed

text \<open>
  C2: What an accepted request looks like on the wire. The consumed bytes are a request line with a known
  method, a safe target and the version, then header lines that each contain a colon and no CR, then the empty
  line. Exactly one of the header lines is a Host header and none is a Transfer-Encoding header, whatever the
  case of their names, so the end of the request cannot be read in two ways. The host is the value of that Host
  line without the white space around it, up to its port and in lower case, and is a valid name; the method and the
  path are those of the request line, the path being the target up to its query. A request with a body closes the
  connection.
\<close>

theorem accepted_request:
  assumes "http_parse buf = (HTTP_OK, req, buf')"
  shows "\<exists>meth target hs rest hl.
    buf = meth @ str '' '' @ target @ str '' HTTP/1.1'' @ CRLF @ crlf_lines hs @ CRLF @ rest
    \<and> hr_consumed req + length rest = length buf
    \<and> (\<forall>h\<in>set hs. 0x0d \<notin> set h \<and> 0x3a \<in> set h \<and> \<not> named ''transfer-encoding'' h)
    \<and> filter (named ''host'') hs = [hl] \<and> hr_host req = Some (host_name hl) \<and> host_ok (host_name hl)
    \<and> hr_method req = classify_method meth \<and> hr_method req \<noteq> M_UNKNOWN
    \<and> path_is_safe target \<and> hr_path req = Some (takeWhile (\<lambda>c. c \<noteq> 0x3f) target)
    \<and> (content_length req > 0 \<longrightarrow> client_close req)"
  using accepted_parts [OF assms] by metis

theorem accepted_request_witness:
  "\<exists>meth target hs rest hl.
    ex_request = meth @ str '' '' @ target @ str '' HTTP/1.1'' @ CRLF @ crlf_lines hs @ CRLF @ rest
    \<and> filter (named ''host'') hs = [hl] \<and> hr_host (fst (snd (http_parse ex_request))) = Some (host_name hl)
    \<and> host_ok (host_name hl)"
proof -
  have "fst (http_parse ex_request) = HTTP_OK" by code_simp
  then have "http_parse ex_request = (HTTP_OK, fst (snd (http_parse ex_request)), snd (snd (http_parse ex_request)))"
    by (metis prod.collapse)
  from accepted_request [OF this] show ?thesis by blast
qed

section \<open>Path segments\<close>

fun segments :: "bytes \<Rightarrow> bytes list" where
  "segments [] = [[]]"
| "segments (c # cs) = (if c = 0x2f then [] # segments cs else (c # hd (segments cs)) # tl (segments cs))"

lemma segments_ne [simp]: "segments p \<noteq> []"
  by (cases p) auto

lemma segments_append: "segments (a @ 0x2f # b) = segments a @ segments b"
  by (induction a) auto

lemma segments_single: "0x2f \<notin> set s \<Longrightarrow> segments s = [s]"
  by (induction s) auto

lemma segments_hd: "\<exists>b. p = hd (segments p) @ b \<and> (b = [] \<or> hd b = 0x2f)"
proof (induction p)
  case (Cons c cs)
  then obtain b where "cs = hd (segments cs) @ b" "b = [] \<or> hd b = 0x2f" by blast
  then show ?case by (cases "c = 0x2f") auto
qed simp

lemma segments_tl: "s \<in> set (tl (segments p)) \<Longrightarrow> \<exists>a b. p = a @ 0x2f # s @ b \<and> (b = [] \<or> hd b = 0x2f)"
proof (induction p)
  case (Cons c cs)
  show ?case
  proof (cases "c = 0x2f \<and> s = hd (segments cs)")
    case True
    obtain b where "cs = hd (segments cs) @ b" "b = [] \<or> hd b = 0x2f" using segments_hd [of cs] by blast
    then show ?thesis using True by (intro exI [of _ "[]"] exI [of _ b]) simp
  next
    case False
    then have "s \<in> set (tl (segments cs))" using Cons.prems by (cases "segments cs") (auto split: if_splits)
    then obtain a b where "cs = a @ 0x2f # s @ b" "b = [] \<or> hd b = 0x2f" using Cons.IH by blast
    then show ?thesis by (intro exI [of _ "c # a"] exI [of _ b]) simp
  qed
qed simp

lemma segment_iff:
  assumes "0x2f \<notin> set s"
  shows "s \<in> set (segments p) \<longleftrightarrow> (\<exists>a b. p = a @ s @ b \<and> (a = [] \<or> last a = 0x2f) \<and> (b = [] \<or> hd b = 0x2f))"
proof
  assume "s \<in> set (segments p)"
  then have "s = hd (segments p) \<or> s \<in> set (tl (segments p))" by (cases "segments p") auto
  then show "\<exists>a b. p = a @ s @ b \<and> (a = [] \<or> last a = 0x2f) \<and> (b = [] \<or> hd b = 0x2f)"
  proof
    assume "s = hd (segments p)"
    moreover obtain b where "p = hd (segments p) @ b" "b = [] \<or> hd b = 0x2f" using segments_hd [of p] by blast
    ultimately show ?thesis by (intro exI [of _ "[]"] exI [of _ b]) simp
  next
    assume "s \<in> set (tl (segments p))"
    then obtain a b where "p = a @ 0x2f # s @ b" "b = [] \<or> hd b = 0x2f" using segments_tl by blast
    then show ?thesis by (intro exI [of _ "a @ [0x2f]"] exI [of _ b]) simp
  qed
next
  assume "\<exists>a b. p = a @ s @ b \<and> (a = [] \<or> last a = 0x2f) \<and> (b = [] \<or> hd b = 0x2f)"
  then obtain a b where p: "p = a @ s @ b" "a = [] \<or> last a = 0x2f" "b = [] \<or> hd b = 0x2f" by blast
  have sb: "segments (s @ b) = [s] @ (if b = [] then [] else segments (tl b))"
    using p(3) segments_append [of s "tl b"] segments_single [OF assms] by (cases b) auto
  show "s \<in> set (segments p)"
  proof (cases "a = []")
    case True
    then show ?thesis using p(1) sb by simp
  next
    case False
    then have "a = butlast a @ [0x2f]" using p(2) append_butlast_last_id [of a] by simp
    then have "p = butlast a @ 0x2f # s @ b" using p(1) by (metis append.assoc append_Cons append_Nil)
    then show ?thesis using segments_append [of "butlast a" "s @ b"] sb by simp
  qed
qed

lemma dotdot_iff:
  "list_ex (\<lambda>i. p ! i = 0x2e \<and> p ! (i + 1) = 0x2e \<and> (i = 0 \<or> p ! (i - 1) = 0x2f) \<and> (i + 2 = length p \<or> p ! (i + 2) = 0x2f))
     [0..<length p - 1] \<longleftrightarrow> str ''..'' \<in> set (segments p)" (is "?L \<longleftrightarrow> ?R")
proof -
  have d: "str ''..'' = [0x2e, 0x2e]" by (simp add: str_def)
  have sl: "0x2f \<notin> set (str ''..'')" by (simp add: d)
  show ?thesis unfolding segment_iff [OF sl]
  proof
    assume ?L
    then obtain i where i: "i < length p - 1" "p ! i = 0x2e" "p ! (i + 1) = 0x2e" "i = 0 \<or> p ! (i - 1) = 0x2f"
      "i + 2 = length p \<or> p ! (i + 2) = 0x2f" unfolding list_ex_iff set_upt by fastforce
    have "drop i p = 0x2e # 0x2e # drop (i + 2) p"
      using Cons_nth_drop_Suc [of i p] Cons_nth_drop_Suc [of "i + 1" p] i(1,2,3) by simp
    then have "p = take i p @ str ''..'' @ drop (i + 2) p" using append_take_drop_id [of i p] by (simp add: d)
    moreover have "take i p = [] \<or> last (take i p) = 0x2f" using i(1,4) by (cases i) (simp_all add: take_Suc_conv_app_nth)
    moreover have "drop (i + 2) p = [] \<or> hd (drop (i + 2) p) = 0x2f" using i(5) by (cases "i + 2 < length p") (auto simp: hd_drop_conv_nth)
    ultimately show "\<exists>a b. p = a @ str ''..'' @ b \<and> (a = [] \<or> last a = 0x2f) \<and> (b = [] \<or> hd b = 0x2f)" by blast
  next
    assume "\<exists>a b. p = a @ str ''..'' @ b \<and> (a = [] \<or> last a = 0x2f) \<and> (b = [] \<or> hd b = 0x2f)"
    then obtain a b where p: "p = a @ 0x2e # 0x2e # b" "a = [] \<or> last a = 0x2f" "b = [] \<or> hd b = 0x2f" by (auto simp: d)
    have "length a = 0 \<or> p ! (length a - 1) = 0x2f"
      using p(2) unfolding p(1) by (cases "a = []") (simp_all add: nth_append last_conv_nth)
    moreover have "length a + 2 = length p \<or> p ! (length a + 2) = 0x2f" using p(3) unfolding p(1) by (cases b) (simp_all add: nth_append)
    ultimately show ?L unfolding list_ex_iff by (intro bexI [of _ "length a"]) (simp_all add: p(1) nth_append)
  qed
qed

text \<open>
  C37: The path check is what it is meant to be: it accepts exactly the targets that start with a slash, have at
  most 2048 bytes, contain no control byte, and have no segment equal to dot-dot between slashes.
\<close>

theorem path_is_safe_iff:
  "path_is_safe p \<longleftrightarrow> (\<exists>q. p = 0x2f # q) \<and> length p \<le> 2048 \<and> list_all (\<lambda>c. c \<ge> 0x20 \<and> c \<noteq> 0x7f) p
     \<and> str ''..'' \<notin> set (segments p)"
proof -
  have "p = [] \<or> p ! 0 \<noteq> 0x2f \<longleftrightarrow> \<not> (\<exists>q. p = 0x2f # q)" by (cases p) auto
  moreover have "list_ex (\<lambda>c. c < 0x20 \<or> c = 0x7f) p \<longleftrightarrow> \<not> list_all (\<lambda>c. c \<ge> 0x20 \<and> c \<noteq> 0x7f) p"
    by (auto simp: list_ex_iff list_all_iff not_le)
  ultimately show ?thesis unfolding path_is_safe_def dotdot_iff MAX_URI_LEN_def by auto
qed

section \<open>Content-Length\<close>

definition is_digit :: "byte \<Rightarrow> bool" where
  "is_digit c \<longleftrightarrow> c \<ge> 0x30 \<and> c \<le> 0x39"

definition decimal :: "nat \<Rightarrow> bytes \<Rightarrow> nat" where
  "decimal n v = foldl (\<lambda>n c. n * 10 + unat (c - 0x30)) n v"

lemma decimal_Cons [simp]: "decimal n (c # cs) = decimal (n * 10 + unat (c - 0x30)) cs" "decimal n [] = n"
  by (simp_all add: decimal_def)

lemma decimal_ge: "n \<le> decimal n v"
proof (induction v arbitrary: n)
  case (Cons c v)
  have "n \<le> n * 10 + unat (c - 0x30)" by simp
  also have "\<dots> \<le> decimal n (c # v)" using Cons.IH by simp
  finally show ?case .
qed simp

lemma digit_step:
  fixes cl :: u64
  assumes "is_digit c"
  shows "cl > (- 1 - ucast (c - 0x30)) div 10 \<longleftrightarrow> 2 ^ 64 \<le> unat cl * 10 + unat (c - 0x30)"
    "unat cl * 10 + unat (c - 0x30) < 2 ^ 64 \<Longrightarrow> unat (cl * 10 + ucast (c - 0x30)) = unat cl * 10 + unat (c - 0x30)"
proof -
  let ?nd = "ucast (c - 0x30) :: u64"
  have nd: "unat ?nd = unat (c - 0x30)" by (rule ucast_byte_nat)
  have "unat (c - 0x30) < 256" by (rule unat_byte_lt)
  then have "unat ?nd \<le> 18446744073709551615" using nd by linarith
  have m: "unat (- 1 :: u64) = 18446744073709551615" by (simp add: unsigned_minus_1_eq_mask mask_eq_exp_minus_1)
  have "?nd \<le> - 1" by simp
  from unat_sub [OF this] have "unat (- 1 - ?nd) = 18446744073709551615 - unat ?nd" unfolding m .
  then have "unat ((- 1 - ?nd) div 10) = (18446744073709551615 - unat ?nd) div 10" by (simp add: unat_div)
  then show "cl > (- 1 - ?nd) div 10 \<longleftrightarrow> 2 ^ 64 \<le> unat cl * 10 + unat (c - 0x30)"
    using \<open>unat ?nd \<le> 18446744073709551615\<close> unfolding word_less_nat_alt nd by (simp add: div_less_iff_less_mult) arith
  show "unat cl * 10 + unat (c - 0x30) < 2 ^ 64 \<Longrightarrow> unat (cl * 10 + ?nd) = unat cl * 10 + unat (c - 0x30)"
    by (simp add: unat_word_ariths nd mod_simps)
qed

lemma content_length_decimal:
  "list_all is_digit v \<Longrightarrow> content_length_loop v cl =
     (if decimal (unat cl) v < 2 ^ 64 then Inr (word_of_nat (decimal (unat cl) v)) else Inl HTTP_ERR_413)"
proof (induction v cl rule: content_length_loop.induct)
  case (1 cl)
  have "unat cl < 2 ^ 64" using unsigned_less [of cl, where 'a = nat] by simp
  then show ?case by simp
next
  case (2 c cs cl)
  have d: "is_digit c" "\<not> (c < 0x30 \<or> c > 0x39)" using "2.prems" by (auto simp: is_digit_def not_less)
  show ?case
  proof (cases "2 ^ 64 \<le> unat cl * 10 + unat (c - 0x30)")
    case True
    then have "\<not> decimal (unat cl) (c # cs) < 2 ^ 64" using decimal_ge [of "unat cl * 10 + unat (c - 0x30)" cs] by simp
    then show ?thesis using True d digit_step(1) [OF d(1), of cl] by (simp only: content_length_loop.simps Let_def if_True if_False)
  next
    case False
    then have "unat (cl * 10 + ucast (c - 0x30)) = unat cl * 10 + unat (c - 0x30)" using digit_step(2) [OF d(1), of cl] by simp
    then show ?thesis using "2.IH" [OF d(2) refl] False d digit_step(1) [OF d(1), of cl] "2.prems" by simp
  qed
qed

text \<open>
  A \<open>Content-Length\<close> made of digits is read exactly or refused: the result is the decimal value when it fits
  into 64 bits, and status 413 otherwise. No value is ever truncated.
\<close>

lemma content_length_exact:
  assumes "list_all is_digit v"
  shows "content_length_loop v 0 = (if decimal 0 v < 2 ^ 64 then Inr (word_of_nat (decimal 0 v)) else Inl HTTP_ERR_413)"
  using content_length_decimal [OF assms, of 0] by simp

section \<open>If-None-Match\<close>

type_synonym etag = "bool \<times> bytes"

definition quoted :: "bytes \<Rightarrow> bytes" where
  "quoted v = 0x22 # v @ [0x22]"

definition entity_tag :: "etag \<Rightarrow> bytes" where
  "entity_tag t = (if fst t then str ''W/'' else []) @ quoted (snd t)"

fun tag_list :: "etag list \<Rightarrow> bytes" where
  "tag_list [] = []"
| "tag_list [t] = entity_tag t"
| "tag_list (t # ts) = entity_tag t @ str '', '' @ tag_list ts"

lemma unweak_tag: "unweak (entity_tag t @ xs) = quoted (snd t) @ xs"
  by (simp add: unweak_def entity_tag_def quoted_def str_def)

lemma etag_loop_tag:
  assumes "0x22 \<notin> set (snd t)"
  shows "etag_loop our (entity_tag t @ xs) \<longleftrightarrow> our = quoted (snd t) \<or> etag_loop our xs"
proof -
  have d: "dropWhile is_sep (entity_tag t @ xs) = entity_tag t @ xs" "entity_tag t @ xs \<noteq> []"
    by (simp_all add: entity_tag_def quoted_def str_def is_sep_def)
  have w: "takeWhile (\<lambda>c. c \<noteq> 0x22) (tl (quoted (snd t) @ xs)) = snd t"
    using assms by (simp add: quoted_def) (subst takeWhile_append2, auto)
  have q: "quoted (snd t) @ xs \<noteq> []" "(quoted (snd t) @ xs) ! 0 = 0x22" "1 + length (snd t) < length (quoted (snd t) @ xs)"
    "take (1 + length (snd t) + 1) (quoted (snd t) @ xs) = quoted (snd t)" "drop (1 + length (snd t) + 1) (quoted (snd t) @ xs) = xs"
    by (simp_all add: quoted_def)
  show ?thesis
    by (subst etag_loop.simps) (simp only: d w q unweak_tag Let_def if_True if_False simp_thms, auto)
qed

lemma etag_loop_sep: "etag_loop our (str '', '' @ xs) = etag_loop our xs"
  by (subst (1 2) etag_loop.simps) (simp add: str_def is_sep_def)

lemma etag_loop_Nil: "\<not> etag_loop our []"
  by (subst etag_loop.simps) simp

lemma etag_loop_list: "\<forall>t\<in>set ts. 0x22 \<notin> set (snd t) \<Longrightarrow> etag_loop our (tag_list ts) \<longleftrightarrow> our \<in> quoted ` snd ` set ts"
proof (induction ts rule: tag_list.induct)
  case 1
  then show ?case by (simp add: etag_loop_Nil)
next
  case (2 t)
  then show ?case using etag_loop_tag [of t our "[]"] by (simp add: etag_loop_Nil)
next
  case (3 t t' ts)
  then show ?case using etag_loop_tag [of t our "str '', '' @ tag_list (t' # ts)"] by (auto simp: etag_loop_sep)
qed

text \<open>
  A conditional request is answered by the weak comparison of RFC 7232: for a list of entity tags, weak or
  strong, the header matches the resource's own tag, weak or strong, exactly when the opaque value occurs in
  the list.
\<close>

lemma etag_matches_list:
  assumes "\<forall>t\<in>set ts. 0x22 \<notin> set (snd t)"
  shows "etag_matches (Some (tag_list ts)) (entity_tag own) \<longleftrightarrow> snd own \<in> snd ` set ts"
proof (cases "ts = []")
  case True
  then show ?thesis by (simp add: etag_matches_def)
next
  case False
  have "\<exists>xs. tag_list ts = entity_tag (hd ts) @ xs" using False by (cases ts rule: tag_list.cases) simp_all
  then obtain t xs where t: "tag_list ts = entity_tag t @ xs" by blast
  have n: "tag_list ts \<noteq> []" "tag_list ts \<noteq> [0x2a]" "entity_tag own \<noteq> []"
    unfolding t by (simp_all add: entity_tag_def quoted_def str_def)
  have i: "quoted v = quoted w \<longleftrightarrow> v = w" for v w by (simp add: quoted_def)
  have "etag_matches (Some (tag_list ts)) (entity_tag own) \<longleftrightarrow> quoted (snd own) \<in> quoted ` snd ` set ts"
    using n etag_loop_list [OF assms] unweak_tag [of own "[]"] by (simp add: etag_matches_def)
  then show ?thesis by (auto simp: i image_iff)
qed

section \<open>Well-formed requests are accepted\<close>

lemma memmem_skip: "c \<noteq> 0x0d \<Longrightarrow> memmem_from (CRLF @ CRLF) (c # xs) = map_option Suc (memmem_from (CRLF @ CRLF) xs)"
  by (simp add: CRLF_def)

lemma memmem_line: "0x0d \<notin> set a \<Longrightarrow> memmem_from (CRLF @ CRLF) (a @ xs) = map_option ((+) (length a)) (memmem_from (CRLF @ CRLF) xs)"
proof (induction a)
  case (Cons c a)
  then show ?case using memmem_skip [of c "a @ xs"] by (simp add: option.map_comp comp_def)
qed (cases "memmem_from (CRLF @ CRLF) xs"; simp)

lemma memmem_crlf:
  assumes "xs \<noteq> []" "hd xs \<noteq> 0x0d"
  shows "memmem_from (CRLF @ CRLF) (CRLF @ xs) = map_option ((+) 2) (memmem_from (CRLF @ CRLF) xs)"
  using memmem_skip [of "0x0a" xs] assms by (cases xs) (simp_all add: CRLF_def option.map_comp comp_def)

lemma memmem_here: "memmem_from (CRLF @ CRLF) (CRLF @ CRLF @ xs) = Some 0"
  by (simp add: CRLF_def)

lemma host_char_plain:
  assumes "host_char c"
  shows "\<not> is_ows c" "c \<noteq> 0x0d" "c \<noteq> 0x3a" "lower_scalar c = c"
proof -
  have "c \<ge> 0x61 \<and> c \<le> 0x7a \<or> c \<ge> 0x30 \<and> c \<le> 0x39 \<or> c = 0x2e \<or> c = 0x2d" using assms by (simp add: host_char_def)
  then show "\<not> is_ows c" "c \<noteq> 0x0d" "c \<noteq> 0x3a" by (auto simp: is_ows_def)
  have "\<not> (c \<ge> 0x41 \<and> c \<le> 0x5a)" using assms unfolding host_char_def word_le_nat_alt by auto
  then show "lower_scalar c = c" by (rule lower_scalar_same)
qed

lemma host_ok_plain:
  assumes "host_ok h"
  shows "0x0d \<notin> set h" "0x3a \<notin> set h" "map lower_scalar h = h" "\<forall>c\<in>set h. \<not> is_ows c" "h \<noteq> []"
proof -
  have c: "\<forall>c\<in>set h. host_char c" "h \<noteq> []" using assms by (auto simp: host_ok_def list_all_iff)
  then show "0x0d \<notin> set h" "0x3a \<notin> set h" "map lower_scalar h = h" "\<forall>c\<in>set h. \<not> is_ows c" "h \<noteq> []"
    using host_char_plain(2) [of "0x0d"] host_char_plain(3) [of "0x3a"] by (auto simp: host_char_plain(1,4) intro!: map_idI)
qed

lemma trim_plain:
  assumes "\<forall>c\<in>set h. \<not> is_ows c"
  shows "trim_ows (0x20 # h) = (1, length h)"
proof -
  have "takeWhile is_ows xs = []" if "\<forall>c\<in>set xs. \<not> is_ows c" for xs using that by (cases xs) auto
  then have "takeWhile is_ows h = []" "takeWhile is_ows (rev h) = []" using assms by auto
  then show ?thesis by (simp add: trim_ows_def is_ows_def)
qed

lemma first_pos_append: "c \<notin> set a \<Longrightarrow> first_pos c (a @ c # b) = Some (length a)"
  by (induction a) auto

lemma scan_host:
  assumes "host_ok h"
  shows "scan_headers (str ''Host: '' @ h @ CRLF @ CRLF) \<lparr>sc_out = out, host_seen = 0, body_present = False\<rparr>
    = (None, \<lparr>sc_out = out\<lparr>hr_host := Some h\<rparr>, host_seen = 1, body_present = False\<rparr>, str ''Host: '' @ h @ CRLF @ CRLF)"
proof -
  let ?p = "str ''Host: '' @ h @ CRLF @ CRLF" and ?st = "\<lparr>sc_out = out, host_seen = 0, body_present = False\<rparr>"
  let ?st1 = "\<lparr>sc_out = out\<lparr>hr_host := Some h\<rparr>, host_seen = 1, body_present = False\<rparr>"
  note h = host_ok_plain [OF assms]
  have p: "?p = 0x48 # 0x6f # 0x73 # 0x74 # 0x3a # 0x20 # h @ [0x0d, 0x0a, 0x0d, 0x0a]" by (simp add: str_def CRLF_def)
  have v: "hval ?p (length h + 6) 4 = 0x20 # h" by (simp add: hval_def p)
  have "take (length ?p - 2) ?p = (str ''Host: '' @ h) @ 0x0d # [0x0a]" by (simp add: str_def CRLF_def)
  moreover have "0x0d \<notin> set (str ''Host: '' @ h)" using h(1) by (simp add: str_def)
  ultimately have "first_pos 0x0d (take (length ?p - 2) ?p) = Some (length (str ''Host: '' @ h))" by (metis first_pos_append)
  then have "first_pos 0x0d (take (length ?p - 2) ?p) = Some (length h + 6)" by (simp add: str_def)
  moreover have "take (length h + 6) ?p = str ''Host'' @ 0x3a # 0x20 # h" by (simp add: str_def numeral_eq_Suc)
  then have "first_pos 0x3a (take (length h + 6) ?p) = Some 4"
    using first_pos_append [of "0x3a" "str ''Host''" "0x20 # h"] by (simp add: str_def)
  ultimately have l: "line_at ?p (length h + 6) 4 1 (length h)"
    unfolding line_at_def v using trim_plain [OF h(4)] by (simp add: p nth_append nth_Cons')
  have "metal_ieq (str ''Host'') (str ''Host'')" by code_simp
  then have n: "parse_header (str ''Host'') h ?st = host_header h ?st" by (simp add: parse_header_def str_def)
  have "first_pos 0x3a h = None" using h(2) by (simp add: first_pos_None)
  then have hh: "host_header h ?st = (None, ?st1, h)" using assms h(3,5) by (simp add: host_header_def lower_inplace_map host_ok_def Let_def)
  have "take 4 ?p = str ''Host''" by (simp add: p str_def)
  then have hd: "parse_header (take 4 ?p) (take (length h) (drop 1 (hval ?p (length h + 6) 4))) ?st = (None, ?st1, h)"
    using n hh unfolding v by simp
  have "put_at ?p (4 + 1 + 1) h = ?p" by (simp add: put_at_def p numeral_eq_Suc)
  note step = scan_step [OF l hd this [symmetric]]
  have d: "drop (length h + 6 + 2) ?p = CRLF" unfolding p by (simp add: numeral_eq_Suc CRLF_def)
  then have d2: "take (length h + 6 + 2) ?p @ CRLF = ?p" by (metis append_take_drop_id)
  have f: "scan_headers CRLF st = (None, st, CRLF)" for st by (subst scan_headers.simps) (simp add: CRLF_def)
  show ?thesis using step by (simp only: d d2 f option.case Let_def prod.case)
qed

lemma method_text:
  assumes "classify_method m \<noteq> M_UNKNOWN"
  shows "0x20 \<notin> set m" "0x0d \<notin> set m" "length m \<le> 7"
proof -
  have "m \<in> {str ''GET'', str ''HEAD'', str ''POST'', str ''PUT'', str ''DELETE'', str ''OPTIONS''}"
    using assms by (auto simp: classify_method_def split: if_splits)
  then show "0x20 \<notin> set m" "0x0d \<notin> set m" "length m \<le> 7" by (auto simp: str_def)
qed

lemma request_line_accepts:
  assumes "classify_method m \<noteq> M_UNKNOWN" "path_is_safe t" "0x20 \<notin> set t"
  shows "parse_request_line (m @ str '' '' @ t @ str '' HTTP/1.1'') out =
    (None, out\<lparr>hr_method := classify_method m, hr_path := Some (takeWhile (\<lambda>c. c \<noteq> 0x3f) t)\<rparr>)"
proof -
  have l: "m @ str '' '' @ t @ str '' HTTP/1.1'' = m @ 0x20 # t @ 0x20 # str ''HTTP/1.1''" by (simp add: str_def)
  note m = method_text [OF assms(1)]
  have t: "length t \<le> 2048" using assms(2) by (auto simp: path_is_safe_def MAX_URI_LEN_def split: if_splits)
  have "parse_target m t (str ''HTTP/1.1'') out =
    (None, out\<lparr>hr_method := classify_method m, hr_path := Some (takeWhile (\<lambda>c. c \<noteq> 0x3f) t)\<rparr>)"
    using assms(1,2) unfolding parse_target_def cut_at_pos Let_def by simp
  then show ?thesis
    unfolding parse_request_line_def l using first_pos_append [OF m(1)] first_pos_append [OF assms(3)] m(3) t
    by (simp add: MAX_URI_LEN_def str_def)
qed

text \<open>
  C4: Every well-formed request is accepted. A request line with a known method and a safe target without
  spaces, followed by a Host header with a valid name and the empty line, is parsed to exactly that method, path
  and host, whatever bytes follow, and the buffer is left as it was.
\<close>

theorem http_accepts:
  assumes "classify_method m \<noteq> M_UNKNOWN" "path_is_safe t" "0x20 \<notin> set t" "host_ok h"
  shows "http_parse (m @ str '' '' @ t @ str '' HTTP/1.1'' @ CRLF @ str ''Host: '' @ h @ CRLF @ CRLF @ rest) =
    (HTTP_OK, http_request_zero\<lparr>hr_method := classify_method m, hr_path := Some (takeWhile (\<lambda>c. c \<noteq> 0x3f) t),
       hr_host := Some h, hr_consumed := length m + length t + length h + 22, has_leftover := rest \<noteq> []\<rparr>,
     m @ str '' '' @ t @ str '' HTTP/1.1'' @ CRLF @ str ''Host: '' @ h @ CRLF @ CRLF @ rest)"
proof -
  let ?l = "m @ str '' '' @ t @ str '' HTTP/1.1''"
  let ?p = "str ''Host: '' @ h @ CRLF @ CRLF"
  let ?buf = "(?l @ CRLF @ ?p) @ rest"
  let ?req = "http_request_zero\<lparr>hr_method := classify_method m, hr_path := Some (takeWhile (\<lambda>c. c \<noteq> 0x3f) t), hr_host := Some h\<rparr>"
  have "0x0d \<notin> set t" using assms(2) by (auto simp: path_is_safe_def list_ex_iff split: if_splits)
  then have l: "0x0d \<notin> set ?l" using method_text(2) [OF assms(1)] by (simp add: str_def)
  have p: "0x0d \<notin> set (str ''Host: '' @ h)" using host_ok_plain(1) [OF assms(4)] by (simp add: str_def)
  have "memmem_from (CRLF @ CRLF) (?p @ rest) = Some (length (str ''Host: '' @ h))"
    using memmem_line [OF p, of "CRLF @ CRLF @ rest"] memmem_here [of rest] by simp
  moreover have "?p @ rest \<noteq> []" "hd (?p @ rest) \<noteq> 0x0d" by (simp_all add: str_def)
  ultimately have "memmem_from (CRLF @ CRLF) (CRLF @ ?p @ rest) = Some (2 + length (str ''Host: '' @ h))"
    using memmem_crlf [of "?p @ rest"] by (simp only: option.map simp_thms)
  then have e: "memmem_from (CRLF @ CRLF) ?buf = Some (length ?l + (2 + length (str ''Host: '' @ h)))"
    using memmem_line [OF l, of "CRLF @ ?p @ rest"] by simp
  let ?e = "length ?l + (2 + length (str ''Host: '' @ h))"
  have tk: "n = length a \<Longrightarrow> take n (a @ rest) = a \<and> drop n (a @ rest) = rest" for n a by simp
  have "?e + 4 = length (?l @ CRLF @ ?p)" by (simp add: CRLF_def)
  from tk [OF this] have h: "take (?e + 4) ?buf = ?l @ CRLF @ ?p" "drop (?e + 4) ?buf = rest" by blast+
  have "first_pos 0x0d (?l @ CRLF @ ?p) = Some (length ?l)" using first_pos_append [OF l, of "0x0a # ?p"] by (simp add: CRLF_def)
  moreover have "(?l @ CRLF @ ?p) ! (length ?l + 1) = 0x0a" "take (length ?l) (?l @ CRLF @ ?p) = ?l"
    "drop (length ?l + 2) (?l @ CRLF @ ?p) = ?p" "take (length ?l + 2) (?l @ CRLF @ ?p) = ?l @ CRLF"
    by (simp_all add: CRLF_def nth_append)
  ultimately have "parse_head (?l @ CRLF @ ?p) http_request_zero = (HTTP_OK, ?req, ?l @ CRLF @ ?p)"
    using request_line_accepts [OF assms(1-3)] scan_host [OF assms(4)] unfolding parse_head_def by simp
  then have "parse_head (take (?e + 4) ?buf) http_request_zero = (HTTP_OK, ?req, ?l @ CRLF @ ?p)" unfolding h .
  from http_parse_head [OF e this] have "http_parse ?buf = (HTTP_OK, frame (?e + 4) (?e + 4 < length ?buf) ?req, (?l @ CRLF @ ?p) @ rest)"
    unfolding h .
  moreover have "?e + 4 = length m + length t + length h + 22" "(?e + 4 < length ?buf) = (rest \<noteq> [])"
    by (simp_all add: str_def CRLF_def)
  ultimately show ?thesis by (simp add: frame_def)
qed

theorem http_accepts_witness:
  "fst (http_parse (str ''HEAD'' @ str '' '' @ str ''/x?q'' @ str '' HTTP/1.1'' @ CRLF @ str ''Host: '' @ str ''a.org'' @ CRLF @ CRLF @ [7])) = HTTP_OK"
proof -
  have a: "classify_method (str ''HEAD'') \<noteq> M_UNKNOWN" by code_simp
  have b: "path_is_safe (str ''/x?q'')" by (simp add: path_is_safe_def MAX_URI_LEN_def str_def upt_rec)
  have c: "0x20 \<notin> set (str ''/x?q'')" by code_simp
  have d: "host_ok (str ''a.org'')" by code_simp
  show ?thesis unfolding http_accepts [OF a b c d] by simp
qed

section \<open>The answer to a request\<close>

lemma insert_probe_keeps:
  "insert_probe n jt h lens host path v i = Some jt' \<Longrightarrow> known_hosts jt' = known_hosts jt \<and> err_404 jt' = err_404 jt
     \<and> err_405 jt' = err_405 jt \<and> err_409 jt' = err_409 jt"
  by (induction n arbitrary: i) (auto simp: Let_def split: if_splits)

lemma fold_insert_keeps:
  "fold_opt (\<lambda>jt key. flat_insert jt (fst key) (snd key)) jt kvs = Some t \<Longrightarrow> known_hosts t = known_hosts jt
     \<and> err_404 t = err_404 jt \<and> err_405 t = err_405 jt \<and> err_409 t = err_409 jt"
proof (induction kvs arbitrary: jt)
  case (Cons kv kvs)
  then obtain j where "flat_insert jt (fst (fst kv)) (snd (fst kv)) (snd kv) = Some j"
    "fold_opt (\<lambda>jt key. flat_insert jt (fst key) (snd key)) j kvs = Some t" by (auto simp: bind_eq_Some_conv)
  then show ?case using Cons.IH [of j] insert_probe_keeps by (fastforce simp: flat_insert_def Let_def split: if_splits)
qed simp

lemma host_exists_iff: "jumptable_host_exists jt host \<longleftrightarrow> host \<in> set (known_hosts jt)"
  by (auto simp: jumptable_host_exists_def list_ex_iff)

text \<open>
  C1: The front end answers every accepted request, and with the right resource. For a table built from a list
  of entries and any accepted request, the choice of the response always returns. For GET and HEAD it is the
  first entry for the request's host and path if there is one, the 404 page if the host is known, and otherwise
  the 409 page with the connection closed; every other known method gets the 405 page. The head-only mark is set
  exactly for HEAD, and the connection is kept unless the client asked to close. This is what the code does: an
  unknown host gets the 409 page although the README names a fallback host \<open>_default\<close> and the 404 page, and OPTIONS
  gets the 405 page although the README lists POST, PUT and DELETE only.
\<close>

theorem http_serve:
  assumes "length kvs \<le> unat n" "unat n < 2 ^ 62" "\<forall>kv\<in>set kvs. key_ok (fst kv)" "http_parse buf = (HTTP_OK, req, buf')"
  shows "\<exists>t host path. fold_opt (\<lambda>jt key. flat_insert jt (fst key) (snd key)) (flat_init jt n) kvs = Some t
    \<and> hr_host req = Some host \<and> hr_path req = Some path
    \<and> http_select t HTTP_OK req = Some (
        if hr_method req = M_GET \<or> hr_method req = M_HEAD then
          (case map_of kvs (host, path) of
             Some r \<Rightarrow> (r, client_close req, hr_method req = M_HEAD)
           | None \<Rightarrow> if host \<in> set (known_hosts jt) then (err_404 jt, client_close req, hr_method req = M_HEAD)
                     else (err_409 jt, True, hr_method req = M_HEAD))
        else (err_405 jt, client_close req, False))"
proof -
  note r = flat_init_rel [OF assms(2), of jt]
  have "unat (jt_size (flat_init jt n)) = 0" by (simp add: flat_init_def Let_def)
  then have "unat (jt_size (flat_init jt n)) + length kvs + 1 < unat (jt_cap (flat_init jt n))"
    using flat_init_cap(2,3) [OF assms(2), of jt] assms(1) by linarith
  from flat.put_all_total [OF r assms(3) this]
  obtain t where t: "fold_opt (\<lambda>jt key. flat_insert jt (fst key) (snd key)) (flat_init jt n) kvs = Some t" by blast
  have k: "known_hosts t = known_hosts jt" "err_404 t = err_404 jt" "err_405 t = err_405 jt" "err_409 t = err_409 jt"
    using fold_insert_keeps [OF t] by (simp_all add: flat_init_def Let_def)
  obtain target host where a: "hr_method req \<noteq> M_UNKNOWN" "path_is_safe target" "hr_host req = Some host" "host_ok host"
    "hr_path req = Some (takeWhile (\<lambda>c. c \<noteq> 0x3f) target)" by (rule accepted_parts [OF assms(4)])
  define path where "path = takeWhile (\<lambda>c. c \<noteq> 0x3f) target"
  have tg: "target \<noteq> []" "target ! 0 = 0x2f" "length target \<le> 2048"
    using a(2) by (auto simp: path_is_safe_def MAX_URI_LEN_def split: if_splits)
  then have p: "path \<noteq> []" "path ! 0 = 0x2f" by (cases target; simp add: path_def)+
  have "length path \<le> 2048" using tg(3) length_takeWhile_le [of "\<lambda>c. c \<noteq> 0x3f" target] by (simp add: path_def)
  then have "key_ok (host, path)" using a(4) by (simp add: key_ok_def host_ok_def)
  from flat.get_put_all [OF r assms(3) t this] have "jumptable_lookup t host path = Some (map_of kvs (host, path))"
    using p by (simp add: jumptable_lookup_def)
  then have "http_select t HTTP_OK req = Some (
        if hr_method req = M_GET \<or> hr_method req = M_HEAD then
          (case map_of kvs (host, path) of
             Some r \<Rightarrow> (r, client_close req, hr_method req = M_HEAD)
           | None \<Rightarrow> if host \<in> set (known_hosts jt) then (err_404 jt, client_close req, hr_method req = M_HEAD)
                     else (err_409 jt, True, hr_method req = M_HEAD))
        else (err_405 jt, client_close req, False))"
    using a(1) unfolding http_select_def a(3,5) slice_def path_def [symmetric] host_exists_iff k Let_def
    by (cases "hr_method req") (simp_all split: option.split)
  then show ?thesis using t a(3,5) path_def by blast
qed

theorem http_serve_witness:
  "\<exists>t. fold_opt (\<lambda>jt key. flat_insert jt (fst key) (snd key)) (flat_init ex_jumptable 2) [((str ''ex.org'', str ''/a''), 7)] = Some t
    \<and> http_select t HTTP_OK (fst (snd (http_parse ex_request))) = Some (7, True, False)"
proof -
  let ?kvs = "[((str ''ex.org'', str ''/a''), 7 :: nat)]" and ?req = "fst (snd (http_parse ex_request))"
  have l: "length ?kvs \<le> unat (2 :: u64)" "unat (2 :: u64) < 2 ^ 62" "\<forall>kv\<in>set ?kvs. key_ok (fst kv)"
    by (simp_all add: key_ok_def str_def)
  have "fst (http_parse ex_request) = HTTP_OK" by code_simp
  then have ok: "http_parse ex_request = (HTTP_OK, ?req, snd (snd (http_parse ex_request)))" by (metis prod.collapse)
  have v: "hr_method ?req = M_GET" "hr_host ?req = Some (str ''ex.org'')" "hr_path ?req = Some (str ''/a'')" "client_close ?req"
    by code_simp+
  from http_serve [OF l ok, of ex_jumptable] v show ?thesis by auto
qed

section \<open>Corner cases\<close>

text \<open>
  The target is checked before the query is cut off, so the path handed to the router can end in a dot-dot
  segment. A zero \<open>Content-Length\<close> does not count as a first one, so a second, different value is taken. And the
  19-byte comparison with the 18-character name \<open>X-PW-Partition-Hop\<close> takes a name that ends in a NUL byte.
\<close>

definition ex_dotdot :: bytes where
  "ex_dotdot = str ''GET /a/..?x HTTP/1.1'' @ CRLF @ str ''Host: a'' @ CRLF @ CRLF"

definition ex_lengths :: bytes where
  "ex_lengths = str ''GET / HTTP/1.1'' @ CRLF @ str ''Host: a'' @ CRLF @ str ''Content-Length: 0'' @ CRLF
     @ str ''Content-Length: 5'' @ CRLF @ CRLF"

definition ex_hop :: bytes where
  "ex_hop = str ''GET / HTTP/1.1'' @ CRLF @ str ''Host: a'' @ CRLF @ str ''X-PW-Partition-Hop'' @ [0] @ str '': 1'' @ CRLF @ CRLF"

lemma dotdot_before_query:
  "fst (http_parse ex_dotdot) = HTTP_OK \<and> hr_path (fst (snd (http_parse ex_dotdot))) = Some (str ''/a/..'')"
  by code_simp

lemma zero_length_overridden:
  "fst (http_parse ex_lengths) = HTTP_OK \<and> content_length (fst (snd (http_parse ex_lengths))) = 5"
  by code_simp

lemma hop_with_nul: "fst (http_parse ex_hop) = HTTP_OK \<and> pw_partition_hop (fst (snd (http_parse ex_hop)))"
  by code_simp

end
