(* ===== verification/Chacha20.thy ===== *)
theory Chacha20
  imports Prelude
begin

text \<open>
  The ChaCha20 stream cipher of \<open>userspace/crypto/chacha20.c\<close>: the block function, the one-shot scalar path
  and the streaming interface, and the proof that a stream taken in any fragments is the one-shot encryption of
  their concatenation.  The SSE2 path of \<open>chacha20_sse2.c\<close> is not modelled; the dispatched function is the scalar
  one.
\<close>

unbundle bit_operations_syntax

section \<open>The block function\<close>

definition rotl32 :: "u32 \<Rightarrow> nat \<Rightarrow> u32" where
  "rotl32 x n = push_bit n x OR drop_bit (32 - n) x"

definition load_le32 :: "bytes \<Rightarrow> u32" where
  "load_le32 p = ucast (p ! 0) OR push_bit 8 (ucast (p ! 1)) OR push_bit 16 (ucast (p ! 2)) OR push_bit 24 (ucast (p ! 3))"

definition store_le32 :: "u32 \<Rightarrow> bytes" where
  "store_le32 v = [ucast v, ucast (drop_bit 8 v), ucast (drop_bit 16 v), ucast (drop_bit 24 v)]"

definition QR :: "u32 list \<Rightarrow> nat \<Rightarrow> nat \<Rightarrow> nat \<Rightarrow> nat \<Rightarrow> u32 list" where
  "QR x i j k l =
     (let a = x ! i; b = x ! j; c = x ! k; d = x ! l;
          a = a + b; d = d XOR a; d = rotl32 d 16;
          c = c + d; b = b XOR c; b = rotl32 b 12;
          a = a + b; d = d XOR a; d = rotl32 d 8;
          c = c + d; b = b XOR c; b = rotl32 b 7
      in x[i := a, j := b, k := c, l := d])"

definition double_round :: "u32 list \<Rightarrow> u32 list" where
  "double_round x =
     (let x = QR x 0 4 8 12; x = QR x 1 5 9 13; x = QR x 2 6 10 14; x = QR x 3 7 11 15;
          x = QR x 0 5 10 15; x = QR x 1 6 11 12; x = QR x 2 7 8 13; x = QR x 3 4 9 14
      in x)"

definition chacha20_block :: "bytes \<Rightarrow> u32 \<Rightarrow> bytes \<Rightarrow> bytes" where
  "chacha20_block key counter nonce =
     (let s = [0x61707865, 0x3320646e, 0x79622d32, 0x6b206574]
              @ map (\<lambda>i. load_le32 (drop (i * 4) key)) [0..<8]
              @ [counter, load_le32 nonce, load_le32 (drop 4 nonce), load_le32 (drop 8 nonce)];
          x = (double_round ^^ 10) s
      in concat (map (\<lambda>i. store_le32 (x ! i + s ! i)) [0..<16]))"

section \<open>The cipher\<close>

definition CHACHA20_BLOCK_LEN :: nat where "CHACHA20_BLOCK_LEN = 64"

function chacha20_xor_scalar :: "bytes \<Rightarrow> u32 \<Rightarrow> bytes \<Rightarrow> bytes \<Rightarrow> bytes" where
  "chacha20_xor_scalar key counter nonce inp =
     (if length inp > 0 then
        let ks = chacha20_block key counter nonce;
            n = (if length inp < CHACHA20_BLOCK_LEN then length inp else CHACHA20_BLOCK_LEN)
        in map (\<lambda>i. inp ! i XOR ks ! i) [0..<n] @ chacha20_xor_scalar key (counter + 1) nonce (drop n inp)
      else [])"
  by pat_completeness auto
termination
  by (relation "measure (\<lambda>(key, counter, nonce, inp). length inp)") (auto simp: CHACHA20_BLOCK_LEN_def)

declare chacha20_xor_scalar.simps [simp del]

definition chacha20_xor :: "bytes \<Rightarrow> u32 \<Rightarrow> bytes \<Rightarrow> bytes \<Rightarrow> bytes" where
  "chacha20_xor key counter nonce inp = chacha20_xor_scalar key counter nonce inp"

section \<open>The streaming interface\<close>

record chacha20_stream =
  cs_key :: bytes
  cs_nonce :: bytes
  cs_counter :: u32
  ks_carry :: bytes
  carry_off :: nat

text \<open>The carry buffer is left as it was; it is read only after a refill.\<close>

definition chacha20_stream_init :: "chacha20_stream \<Rightarrow> bytes \<Rightarrow> bytes \<Rightarrow> u32 \<Rightarrow> chacha20_stream" where
  "chacha20_stream_init cs key nonce initial_counter =
     cs\<lparr>cs_key := key, cs_nonce := nonce, cs_counter := initial_counter, carry_off := CHACHA20_BLOCK_LEN\<rparr>"

text \<open>The three phases of a call: the leftover keystream, whole blocks, and the tail.\<close>

definition stream_drain :: "chacha20_stream \<Rightarrow> bytes \<Rightarrow> chacha20_stream \<times> bytes \<times> bytes" where
  "stream_drain cs inp =
     (if carry_off cs < CHACHA20_BLOCK_LEN \<and> length inp > 0 then
        let avail = CHACHA20_BLOCK_LEN - carry_off cs;
            n = (if length inp < avail then length inp else avail)
        in (cs\<lparr>carry_off := carry_off cs + n\<rparr>, map (\<lambda>i. inp ! i XOR ks_carry cs ! (carry_off cs + i)) [0..<n], drop n inp)
      else (cs, [], inp))"

definition stream_bulk :: "chacha20_stream \<Rightarrow> bytes \<Rightarrow> chacha20_stream \<times> bytes \<times> bytes" where
  "stream_bulk cs inp =
     (if length inp \<ge> CHACHA20_BLOCK_LEN then
        let full_bytes = length inp div CHACHA20_BLOCK_LEN * CHACHA20_BLOCK_LEN
        in (cs\<lparr>cs_counter := cs_counter cs + word_of_nat (full_bytes div CHACHA20_BLOCK_LEN)\<rparr>,
            chacha20_xor_scalar (cs_key cs) (cs_counter cs) (cs_nonce cs) (take full_bytes inp), drop full_bytes inp)
      else (cs, [], inp))"

definition stream_tail :: "chacha20_stream \<Rightarrow> bytes \<Rightarrow> chacha20_stream \<times> bytes" where
  "stream_tail cs inp =
     (if length inp > 0 then
        let ks = chacha20_block (cs_key cs) (cs_counter cs) (cs_nonce cs)
        in (cs\<lparr>ks_carry := ks, cs_counter := cs_counter cs + 1, carry_off := length inp\<rparr>,
            map (\<lambda>i. inp ! i XOR ks ! i) [0..<length inp])
      else (cs, []))"

definition chacha20_stream_xor :: "chacha20_stream \<Rightarrow> bytes \<Rightarrow> chacha20_stream \<times> bytes" where
  "chacha20_stream_xor cs inp =
     (let (cs, out1, inp) = stream_drain cs inp;
          (cs, out2, inp) = stream_bulk cs inp;
          (cs, out3) = stream_tail cs inp
      in (cs, out1 @ out2 @ out3))"

section \<open>The keystream\<close>

text \<open>Byte \<open>i\<close> of the keystream that starts at a block counter, and the encryption of data from a position on.\<close>

definition keystream :: "bytes \<Rightarrow> bytes \<Rightarrow> u32 \<Rightarrow> nat \<Rightarrow> byte" where
  "keystream key nonce c0 i = chacha20_block key (c0 + word_of_nat (i div 64)) nonce ! (i mod 64)"

definition xor_at :: "bytes \<Rightarrow> bytes \<Rightarrow> u32 \<Rightarrow> nat \<Rightarrow> bytes \<Rightarrow> bytes" where
  "xor_at key nonce c0 pos inp = map (\<lambda>i. inp ! i XOR keystream key nonce c0 (pos + i)) [0..<length inp]"

lemma xor_at_length [simp]: "length (xor_at key nonce c0 pos inp) = length inp"
  by (simp add: xor_at_def)

lemma xor_at_Nil [simp]: "xor_at key nonce c0 pos [] = []"
  by (simp add: xor_at_def)

lemma xor_at_append: "xor_at key nonce c0 pos (a @ b) = xor_at key nonce c0 pos a @ xor_at key nonce c0 (pos + length a) b"
  by (rule nth_equalityI) (auto simp: xor_at_def nth_append add.assoc)

lemma xor_at_split: "xor_at key nonce c0 pos inp = xor_at key nonce c0 pos (take n inp) @ xor_at key nonce c0 (pos + min n (length inp)) (drop n inp)"
  using xor_at_append [of key nonce c0 pos "take n inp" "drop n inp"] by (simp add: min.commute)

lemma xor_at_involution: "xor_at key nonce c0 pos (xor_at key nonce c0 pos inp) = inp"
  by (rule nth_equalityI) (simp_all add: xor_at_def xor.assoc)

lemma keystream_block: "i < 64 \<Longrightarrow> pos mod 64 = 0 \<Longrightarrow> keystream key nonce c0 (pos + i) = chacha20_block key (c0 + word_of_nat (pos div 64)) nonce ! i"
  by (simp add: keystream_def div_add1_eq mod_add_left_eq [symmetric])

lemma xor_at_block:
  assumes "length inp \<le> 64" "pos mod 64 = 0"
  shows "xor_at key nonce c0 pos inp
    = map (\<lambda>i. inp ! i XOR chacha20_block key (c0 + word_of_nat (pos div 64)) nonce ! i) [0..<length inp]"
  using assms by (simp add: xor_at_def keystream_block)

lemma keystream_shift: "keystream key nonce (c0 + word_of_nat k) i = keystream key nonce c0 (k * 64 + i)"
  by (simp add: keystream_def add.assoc)

lemma xor_at_shift: "xor_at key nonce (c0 + word_of_nat k) pos inp = xor_at key nonce c0 (k * 64 + pos) inp"
  by (simp add: xor_at_def keystream_shift add.assoc)

lemma chacha20_xor_scalar_at: "chacha20_xor_scalar key c nonce inp = xor_at key nonce c 0 inp"
proof (induction key c nonce inp rule: chacha20_xor_scalar.induct)
  case (1 key c nonce inp)
  show ?case
  proof (cases "inp = []")
    case False
    let ?n = "if length inp < 64 then length inp else 64"
    have "chacha20_xor_scalar key c nonce inp =
      map (\<lambda>i. inp ! i XOR chacha20_block key c nonce ! i) [0..<?n] @ chacha20_xor_scalar key (c + 1) nonce (drop ?n inp)"
      using False by (subst chacha20_xor_scalar.simps) (simp add: CHACHA20_BLOCK_LEN_def Let_def)
    also have "chacha20_xor_scalar key (c + 1) nonce (drop ?n inp) = xor_at key nonce (c + 1) 0 (drop ?n inp)"
      using "1.IH" [OF _ refl refl] False unfolding CHACHA20_BLOCK_LEN_def by simp
    also have "\<dots> = xor_at key nonce c ?n (drop ?n inp)" using xor_at_shift [of key nonce c 1 0] by simp
    also have "map (\<lambda>i. inp ! i XOR chacha20_block key c nonce ! i) [0..<?n] = xor_at key nonce c 0 (take ?n inp)"
      by (simp add: xor_at_block min_def)
    finally show ?thesis using xor_at_split [of key nonce c 0 inp ?n] by (simp split: if_splits)
  qed (simp add: chacha20_xor_scalar.simps)
qed

section \<open>Fragments\<close>

text \<open>A stream at a position: the counter of the next block, and the keystream left of the current one.\<close>

definition stream_at :: "bytes \<Rightarrow> bytes \<Rightarrow> u32 \<Rightarrow> nat \<Rightarrow> chacha20_stream \<Rightarrow> bool" where
  "stream_at key nonce c0 pos cs \<longleftrightarrow> cs_key cs = key \<and> cs_nonce cs = nonce
     \<and> cs_counter cs = c0 + word_of_nat ((pos + 63) div 64)
     \<and> (if pos mod 64 = 0 then carry_off cs = 64
        else carry_off cs = pos mod 64 \<and> ks_carry cs = chacha20_block key (c0 + word_of_nat (pos div 64)) nonce)"

lemma stream_init_at: "stream_at key nonce c0 0 (chacha20_stream_init cs key nonce c0)"
  by (simp add: stream_at_def chacha20_stream_init_def CHACHA20_BLOCK_LEN_def)

lemma same_block:
  assumes "pos mod 64 \<noteq> 0" "n \<le> 64 - pos mod 64"
  shows "(pos + n + 63) div 64 = (pos + 63) div (64 :: nat)"
    and "pos mod 64 + n < 64 \<Longrightarrow> (pos + n) mod 64 = pos mod 64 + n \<and> (pos + n) div 64 = pos div 64"
    and "pos mod 64 + n = 64 \<Longrightarrow> (pos + n) mod 64 = 0"
proof -
  define q r where "q = pos div 64" and "r = pos mod 64"
  have p: "pos = q * 64 + r" "r < 64" "0 < r" "n \<le> 64 - r" using assms by (simp_all add: q_def r_def)
  have "(q * 64 + (r + n + 63)) div 64 = q + 1" "(q * 64 + (r + 63)) div 64 = q + 1"
    using p by (simp_all add: div_nat_eqI)
  then show "(pos + n + 63) div 64 = (pos + 63) div 64" by (simp add: p(1) add.assoc)
  show "(pos + n) mod 64 = pos mod 64 + n \<and> (pos + n) div 64 = pos div 64" if "pos mod 64 + n < 64"
    using that p(2) unfolding r_def [symmetric] p(1) by (simp add: add.assoc)
  show "(pos + n) mod 64 = 0" if "pos mod 64 + n = 64"
    using that by (metis mod_add_left_eq mod_self)
qed

lemma stream_drain_at:
  assumes "stream_at key nonce c0 pos cs" "stream_drain cs inp = (cs', out, rest)"
  shows "\<exists>n. stream_at key nonce c0 (pos + n) cs' \<and> out = xor_at key nonce c0 pos (take n inp) \<and> rest = drop n inp
    \<and> n \<le> length inp \<and> (rest \<noteq> [] \<longrightarrow> (pos + n) mod 64 = 0)"
proof (cases "pos mod 64 = 0 \<or> inp = []")
  case True
  then have "stream_drain cs inp = (cs, [], inp)"
    using assms(1) by (auto simp: stream_drain_def stream_at_def CHACHA20_BLOCK_LEN_def)
  then show ?thesis using assms True by (intro exI [of _ 0]) auto
next
  case False
  define n where "n = (if length inp < 64 - pos mod 64 then length inp else 64 - pos mod 64)"
  have n: "n \<le> 64 - pos mod 64" "n \<le> length inp" "drop n inp \<noteq> [] \<longrightarrow> n = 64 - pos mod 64" by (auto simp: n_def)
  have r: "pos mod 64 < 64" "pos mod 64 \<noteq> 0" using False by simp_all
  have c: "carry_off cs = pos mod 64" "ks_carry cs = chacha20_block key (c0 + word_of_nat (pos div 64)) nonce"
    using assms(1) False by (auto simp: stream_at_def)
  have "stream_drain cs inp = (cs\<lparr>carry_off := carry_off cs + n\<rparr>, map (\<lambda>i. inp ! i XOR ks_carry cs ! (carry_off cs + i)) [0..<n], drop n inp)"
    using False r unfolding stream_drain_def n_def CHACHA20_BLOCK_LEN_def Let_def c(1) by simp
  then have d: "cs' = cs\<lparr>carry_off := pos mod 64 + n\<rparr>" "rest = drop n inp"
    "out = map (\<lambda>i. inp ! i XOR ks_carry cs ! (pos mod 64 + i)) [0..<n]"
    using assms(2) c(1) by simp_all
  have k: "keystream key nonce c0 (pos + i) = ks_carry cs ! (pos mod 64 + i)" if "i < n" for i
  proof -
    have "pos mod 64 + i < 64" "i \<le> 64 - pos mod 64" using that n(1) by linarith+
    then show ?thesis using same_block(2) [of pos i] r c(2) by (simp add: keystream_def)
  qed
  have "out = xor_at key nonce c0 pos (take n inp)" using n(2) by (simp add: d(3) xor_at_def k min_absorb2)
  moreover have "stream_at key nonce c0 (pos + n) cs'"
  proof (cases "pos mod 64 + n = 64")
    case True
    then show ?thesis using assms(1) same_block(1,3) [OF r(2) n(1)] by (simp add: stream_at_def d(1))
  next
    case f: False
    then have "pos mod 64 + n < 64" using n(1) r(1) by linarith
    then show ?thesis using assms(1) same_block(1,2) [OF r(2) n(1)] r(2) c by (simp add: stream_at_def d(1))
  qed
  moreover have "rest \<noteq> [] \<longrightarrow> (pos + n) mod 64 = 0" 
  proof
    assume "rest \<noteq> []"
    then have "pos mod 64 + n = 64" using n(3) r(1) d(2) by simp
    then show "(pos + n) mod 64 = 0" by (rule same_block(3) [OF r(2) n(1)])
  qed
  ultimately show ?thesis using n(2) d(2) by (intro exI [of _ n] conjI)
qed

lemma stream_bulk_at:
  assumes "stream_at key nonce c0 pos cs" "stream_bulk cs inp = (cs', out, rest)" "inp \<noteq> [] \<longrightarrow> pos mod 64 = 0"
  shows "\<exists>n. stream_at key nonce c0 (pos + n) cs' \<and> out = xor_at key nonce c0 pos (take n inp) \<and> rest = drop n inp
    \<and> n \<le> length inp \<and> length rest < 64 \<and> (rest \<noteq> [] \<longrightarrow> (pos + n) mod 64 = 0)"
proof (cases "length inp < 64")
  case True
  then have "stream_bulk cs inp = (cs, [], inp)" by (simp add: stream_bulk_def CHACHA20_BLOCK_LEN_def)
  then have "cs' = cs" "out = []" "rest = inp" using assms(2) by simp_all
  then show ?thesis using assms(1,3) True by (intro exI [of _ 0] conjI) simp_all
next
  case False
  then have "inp \<noteq> []" by auto
  then have p: "pos mod 64 = 0" using assms(3) by simp
  obtain q where q: "pos = q * 64" using div_mult_mod_eq [of pos 64] p by (metis add_0_right)
  let ?k = "length inp div 64"
  have c: "cs_counter cs = c0 + word_of_nat q" using assms(1) by (simp add: stream_at_def q)
  have d: "cs' = cs\<lparr>cs_counter := cs_counter cs + word_of_nat ?k\<rparr>" "rest = drop (?k * 64) inp"
    "out = chacha20_xor_scalar (cs_key cs) (cs_counter cs) (cs_nonce cs) (take (?k * 64) inp)"
    using assms(2) False by (auto simp: stream_bulk_def CHACHA20_BLOCK_LEN_def Let_def)
  have "out = xor_at key nonce c0 pos (take (?k * 64) inp)"
    using assms(1) xor_at_shift [of key nonce c0 q 0] by (simp add: d(3) stream_at_def chacha20_xor_scalar_at c q)
  moreover have "stream_at key nonce c0 (pos + ?k * 64) cs'"
  proof -
    have "(q * 64 + ?k * 64 + 63) div 64 = q + ?k" "(q * 64 + ?k * 64) mod 64 = 0" by simp_all
    then show ?thesis using assms(1) p unfolding stream_at_def d(1) by (simp add: c q add.assoc)
  qed
  moreover have "length rest < 64" "?k * 64 \<le> length inp" by (simp_all add: d(2) minus_div_mult_eq_mod)
  ultimately show ?thesis using d(2) p by (intro exI [of _ "?k * 64"]) simp
qed

lemma stream_tail_at:
  assumes "stream_at key nonce c0 pos cs" "stream_tail cs inp = (cs', out)" "inp \<noteq> [] \<longrightarrow> pos mod 64 = 0" "length inp < 64"
  shows "stream_at key nonce c0 (pos + length inp) cs' \<and> out = xor_at key nonce c0 pos inp"
proof (cases "inp = []")
  case True
  then show ?thesis using assms by (simp add: stream_tail_def)
next
  case False
  then have p: "pos mod 64 = 0" using assms(3) by simp
  obtain q where q: "pos = q * 64" using div_mult_mod_eq [of pos 64] p by (metis add_0_right)
  have c: "cs_counter cs = c0 + word_of_nat q" using assms(1) by (simp add: stream_at_def q)
  have a: "0 < length inp" "(q * 64 + length inp) mod 64 = length inp" "(q * 64 + length inp) div 64 = q"
    using False assms(4) by simp_all
  have a': "(q * 64 + length inp + 63) div 64 = q + 1" using a(1) assms(4) by (intro div_nat_eqI) (simp_all add: Suc_le_eq)
  have "out = xor_at key nonce c0 pos inp"
    using assms(1,2,4) False by (auto simp: stream_tail_def stream_at_def Let_def xor_at_block q)
  moreover have "stream_at key nonce c0 (pos + length inp) cs'"
    using assms(1,2) a a' c by (auto simp: stream_tail_def stream_at_def Let_def q)
  ultimately show ?thesis by simp
qed

lemma stream_xor_at:
  assumes "stream_at key nonce c0 pos cs"
  shows "stream_at key nonce c0 (pos + length inp) (fst (chacha20_stream_xor cs inp))
    \<and> snd (chacha20_stream_xor cs inp) = xor_at key nonce c0 pos inp"
proof -
  obtain cs1 o1 i1 where e1: "stream_drain cs inp = (cs1, o1, i1)" by (cases "stream_drain cs inp") auto
  obtain cs2 o2 i2 where e2: "stream_bulk cs1 i1 = (cs2, o2, i2)" by (cases "stream_bulk cs1 i1") auto
  obtain cs3 o3 where e3: "stream_tail cs2 i2 = (cs3, o3)" by (cases "stream_tail cs2 i2") auto
  from stream_drain_at [OF assms e1] obtain m where
    m: "stream_at key nonce c0 (pos + m) cs1" "o1 = xor_at key nonce c0 pos (take m inp)" "i1 = drop m inp" "m \<le> length inp"
      "i1 \<noteq> [] \<longrightarrow> (pos + m) mod 64 = 0" by (elim exE conjE) (rule that, assumption+)
  from stream_bulk_at [OF m(1) e2 m(5)] obtain n where
    n: "stream_at key nonce c0 (pos + m + n) cs2" "o2 = xor_at key nonce c0 (pos + m) (take n i1)" "i2 = drop n i1" "n \<le> length i1"
      "length i2 < 64" "i2 \<noteq> [] \<longrightarrow> (pos + m + n) mod 64 = 0" by (elim exE conjE) (rule that, assumption+)
  note t = stream_tail_at [OF n(1) e3 n(6,5)]
  have "chacha20_stream_xor cs inp = (cs3, o1 @ o2 @ o3)" by (simp add: chacha20_stream_xor_def e1 e2 e3)
  moreover have "o1 @ o2 @ o3 = xor_at key nonce c0 pos inp"
    using xor_at_split [of key nonce c0 pos inp m] xor_at_split [of key nonce c0 "pos + m" i1 n] m n t by (simp add: min_absorb1)
  moreover have "stream_at key nonce c0 (pos + length inp) cs3"
  proof -
    have "pos + m + n + length i2 = pos + length inp" using m n by simp
    then show ?thesis using t by (simp only:)
  qed
  ultimately show ?thesis by simp
qed

text \<open>Encrypting a list of fragments through one stream.\<close>

primrec stream_all :: "chacha20_stream \<Rightarrow> bytes list \<Rightarrow> bytes list" where
  "stream_all cs [] = []"
| "stream_all cs (f # fs) = (let (cs, out) = chacha20_stream_xor cs f in out # stream_all cs fs)"

lemma stream_all_at: "stream_at key nonce c0 pos cs \<Longrightarrow> concat (stream_all cs fs) = xor_at key nonce c0 pos (concat fs)"
proof (induction fs arbitrary: cs pos)
  case (Cons f fs)
  from stream_xor_at [OF Cons.prems, of f] Cons.IH [of "pos + length f" "fst (chacha20_stream_xor cs f)"]
  show ?case by (simp add: Let_def split_beta xor_at_append)
qed simp

text \<open>
  Encrypting fragments one after another through the streaming interface gives, concatenated, exactly the
  one-shot encryption of the concatenated fragments, whatever their lengths and whatever the carry buffer held; and
  the one-shot operation undoes itself.
\<close>

lemma chacha20_fragments:
  "concat (stream_all (chacha20_stream_init cs key nonce c) fs) = chacha20_xor key c nonce (concat fs)
   \<and> chacha20_xor key c nonce (chacha20_xor key c nonce pt) = pt"
  using stream_all_at [OF stream_init_at] by (simp add: chacha20_xor_def chacha20_xor_scalar_at xor_at_involution)

end
