(* ===== verification/Block_Stream.thy ===== *)
theory Block_Stream
  imports Prelude
begin

text \<open>
  Block-wise processing of a byte stream through a buffer, as the hash and the authenticator do it: the
  reference function that cuts off whole blocks, and the contract of an update operation that takes the stream
  in pieces.
\<close>

section \<open>Whole blocks of a byte string\<close>

function absorb :: "nat \<Rightarrow> ('s \<Rightarrow> bytes \<Rightarrow> 's) \<Rightarrow> 's \<Rightarrow> bytes \<Rightarrow> 's \<times> bytes" where
  "absorb n f s xs = (if n = 0 \<or> length xs < n then (s, xs) else absorb n f (f s (take n xs)) (drop n xs))"
  by pat_completeness auto
termination by (relation "measure (\<lambda>(n, f, s, xs). length xs)") auto

declare absorb.simps [simp del]

lemma absorb_short: "length xs < n \<Longrightarrow> absorb n f s xs = (s, xs)"
  by (simp add: absorb.simps)

lemma absorb_block: "0 < n \<Longrightarrow> length b = n \<Longrightarrow> absorb n f s (b @ xs) = absorb n f (f s b) xs"
  by (subst absorb.simps) simp

lemma absorb_rest: "0 < n \<Longrightarrow> length (snd (absorb n f s xs)) < n"
proof (induction n f s xs rule: absorb.induct)
  case (1 n f s xs)
  then show ?case by (cases "length xs < n") (simp_all add: absorb.simps [of n f s xs])
qed

lemma absorb_append: "0 < n \<Longrightarrow> absorb n f s (xs @ ys) = (case absorb n f s xs of (s', r) \<Rightarrow> absorb n f s' (r @ ys))"
proof (induction n f s xs rule: absorb.induct)
  case (1 n f s xs)
  show ?case
  proof (cases "length xs < n")
    case True
    then show ?thesis by (simp add: absorb_short)
  next
    case False
    then have "absorb n f s (xs @ ys) = absorb n f (f s (take n xs)) (drop n xs @ ys)"
      using "1.prems" by (subst absorb.simps) simp
    also have "\<dots> = (case absorb n f (f s (take n xs)) (drop n xs) of (s', r) \<Rightarrow> absorb n f s' (r @ ys))"
      using "1.IH" False "1.prems" by simp
    also have "absorb n f (f s (take n xs)) (drop n xs) = absorb n f s xs"
      using False "1.prems" by (simp add: absorb.simps [of n f s xs])
    finally show ?thesis .
  qed
qed

lemma absorb_rest_length: "0 < n \<Longrightarrow> length (snd (absorb n f s xs)) = length xs mod n"
proof (induction n f s xs rule: absorb.induct)
  case (1 n f s xs)
  then show ?case by (cases "length xs < n") (simp_all add: absorb.simps [of n f s xs] le_mod_geq)
qed

text \<open>Two block functions in a relation stay in it, and leave the same rest.\<close>

lemma absorb_rel:
  assumes "R s t" "\<And>s t b. R s t \<Longrightarrow> length b = n \<Longrightarrow> R (f s b) (g t b)"
  shows "R (fst (absorb n f s xs)) (fst (absorb n g t xs)) \<and> snd (absorb n f s xs) = snd (absorb n g t xs)"
  using assms(1)
proof (induction "length xs" arbitrary: s t xs rule: less_induct)
  case less
  show ?case
  proof (cases "n = 0 \<or> length xs < n")
    case True
    then show ?thesis using less.prems by (simp add: absorb.simps)
  next
    case False
    then have "length (drop n xs) < length xs" "R (f s (take n xs)) (g t (take n xs))"
      using assms(2) [OF less.prems, of "take n xs"] by (auto simp: not_less)
    from less.hyps [OF this] show ?thesis using False by (simp add: absorb.simps [of n f s] absorb.simps [of n g t])
  qed
qed

text \<open>A run of whole blocks is a fold.\<close>

primrec block_loop :: "nat \<Rightarrow> ('s \<Rightarrow> bytes \<Rightarrow> 's) \<Rightarrow> nat \<Rightarrow> 's \<Rightarrow> bytes \<Rightarrow> 's" where
  "block_loop n f 0 s p = s"
| "block_loop n f (Suc k) s p = block_loop n f k (f s (take n p)) (drop n p)"

lemma absorb_blocks:
  "0 < n \<Longrightarrow> k * n \<le> length p \<Longrightarrow> absorb n f s p = absorb n f (block_loop n f k s p) (drop (k * n) p)"
proof (induction k arbitrary: s p)
  case (Suc k)
  have "absorb n f s p = absorb n f (f s (take n p)) (drop n p)" using Suc.prems by (subst absorb.simps) simp
  also have "\<dots> = absorb n f (block_loop n f k (f s (take n p)) (drop n p)) (drop (k * n) (drop n p))"
    using Suc.prems by (intro Suc.IH) simp_all
  finally show ?case by (simp add: add.commute)
qed simp

section \<open>The contract of an update operation\<close>

text \<open>
  A context holds the state after the whole blocks and the bytes pending since. An update takes the pending
  bytes and the new ones on. Then the pieces in which a stream arrives do not matter.
\<close>

locale block_stream =
  fixes n :: nat
    and blk :: "'s \<Rightarrow> bytes \<Rightarrow> 's"
    and st :: "'c \<Rightarrow> 's"
    and pend :: "'c \<Rightarrow> bytes"
    and upd :: "'c \<Rightarrow> bytes \<Rightarrow> 'c"
  assumes n_pos: "0 < n"
    and upd_absorb: "length (pend c) < n \<Longrightarrow> (st (upd c d), pend (upd c d)) = absorb n blk (st c) (pend c @ d)"
begin

lemma upd_pend: "length (pend c) < n \<Longrightarrow> length (pend (upd c d)) < n"
  using upd_absorb [of c d] absorb_rest [OF n_pos, of blk "st c" "pend c @ d"] by (metis snd_conv)

lemma upd_all:
  "length (pend c) < n \<Longrightarrow> (st (foldl upd c ds), pend (foldl upd c ds)) = absorb n blk (st c) (pend c @ concat ds)"
proof (induction ds arbitrary: c)
  case Nil
  then show ?case by (simp add: absorb_short)
next
  case (Cons d ds)
  have "(st (foldl upd c (d # ds)), pend (foldl upd c (d # ds))) = absorb n blk (st (upd c d)) (pend (upd c d) @ concat ds)"
    using Cons.IH [OF upd_pend [OF Cons.prems]] by simp
  also have "\<dots> = absorb n blk (st c) ((pend c @ d) @ concat ds)"
    using absorb_append [OF n_pos, of blk "st c" "pend c @ d" "concat ds"] upd_absorb [OF Cons.prems, of d, symmetric]
    by (simp only: prod.case)
  finally show ?case by simp
qed

lemma upd_all_pend: "length (pend c) < n \<Longrightarrow> length (pend (foldl upd c ds)) < n"
  by (induction ds arbitrary: c) (simp_all add: upd_pend)

end

end
