(* ===== verification/Poly1305.thy ===== *)
theory Poly1305
  imports Block_Stream
begin

text \<open>
  The Poly1305 one-time authenticator of \<open>userspace/crypto/poly1305.c\<close>, with the accumulator in five limbs of 26
  bits held in 32-bit words and the products in 64-bit words, and the proof that the tag is the one of RFC 8439:
  no limb overflows, the carry chains reduce modulo the prime, and the message may come in any pieces.
\<close>

unbundle bit_operations_syntax

section \<open>The code\<close>

definition U8TO32_LE :: "bytes \<Rightarrow> u32" where
  "U8TO32_LE p = ucast (p ! 0) OR push_bit 8 (ucast (p ! 1)) OR push_bit 16 (ucast (p ! 2)) OR push_bit 24 (ucast (p ! 3))"

definition U32TO8_LE :: "u32 \<Rightarrow> bytes" where
  "U32TO8_LE v = [ucast v, ucast (drop_bit 8 v), ucast (drop_bit 16 v), ucast (drop_bit 24 v)]"

text \<open>An array of five limbs.\<close>

type_synonym limbs = "u32 \<times> u32 \<times> u32 \<times> u32 \<times> u32"

record poly1305_ctx =
  po_r :: limbs
  po_s :: "u32 list"
  po_h :: limbs
  po_buf :: bytes

definition poly1305_init :: "bytes \<Rightarrow> poly1305_ctx" where
  "poly1305_init key =
     \<lparr>po_r = (U8TO32_LE key AND 0x03ffffff,
              drop_bit 2 (U8TO32_LE (drop 3 key)) AND 0x03ffff03,
              drop_bit 4 (U8TO32_LE (drop 6 key)) AND 0x03ffc0ff,
              drop_bit 6 (U8TO32_LE (drop 9 key)) AND 0x03f03fff,
              drop_bit 8 (U8TO32_LE (drop 12 key)) AND 0x000fffff),
      po_s = [U8TO32_LE (drop 16 key), U8TO32_LE (drop 20 key), U8TO32_LE (drop 24 key), U8TO32_LE (drop 28 key)],
      po_h = (0, 0, 0, 0, 0), po_buf = []\<rparr>"

definition mul64 :: "u32 \<Rightarrow> u32 \<Rightarrow> u64" where
  "mul64 x y = ucast x * ucast y"

text \<open>The body of the block loop: add the block, multiply by the key, carry.\<close>

fun poly_add :: "bool \<Rightarrow> limbs \<Rightarrow> bytes \<Rightarrow> limbs" where
  "poly_add hibit_present (h0, h1, h2, h3, h4) m =
     (h0 + (U8TO32_LE m AND 0x03ffffff),
      h1 + (drop_bit 2 (U8TO32_LE (drop 3 m)) AND 0x03ffffff),
      h2 + (drop_bit 4 (U8TO32_LE (drop 6 m)) AND 0x03ffffff),
      h3 + (drop_bit 6 (U8TO32_LE (drop 9 m)) AND 0x03ffffff),
      h4 + (drop_bit 8 (U8TO32_LE (drop 12 m)) OR (if hibit_present then push_bit 24 1 else 0)))"

fun poly_mul :: "limbs \<Rightarrow> limbs \<Rightarrow> u64 \<times> u64 \<times> u64 \<times> u64 \<times> u64" where
  "poly_mul (r0, r1, r2, r3, r4) (h0, h1, h2, h3, h4) =
     (let s1 = r1 * 5; s2 = r2 * 5; s3 = r3 * 5; s4 = r4 * 5 in
      (mul64 h0 r0 + mul64 h1 s4 + mul64 h2 s3 + mul64 h3 s2 + mul64 h4 s1,
       mul64 h0 r1 + mul64 h1 r0 + mul64 h2 s4 + mul64 h3 s3 + mul64 h4 s2,
       mul64 h0 r2 + mul64 h1 r1 + mul64 h2 r0 + mul64 h3 s4 + mul64 h4 s3,
       mul64 h0 r3 + mul64 h1 r2 + mul64 h2 r1 + mul64 h3 r0 + mul64 h4 s4,
       mul64 h0 r4 + mul64 h1 r3 + mul64 h2 r2 + mul64 h3 r1 + mul64 h4 r0))"

fun poly_carry :: "u64 \<times> u64 \<times> u64 \<times> u64 \<times> u64 \<Rightarrow> limbs" where
  "poly_carry (d0, d1, d2, d3, d4) =
     (let c = (ucast (drop_bit 26 d0) :: u32); h0 = ucast d0 AND 0x03ffffff;
          d1 = d1 + ucast c;
          c = (ucast (drop_bit 26 d1) :: u32); h1 = ucast d1 AND 0x03ffffff;
          d2 = d2 + ucast c;
          c = (ucast (drop_bit 26 d2) :: u32); h2 = ucast d2 AND 0x03ffffff;
          d3 = d3 + ucast c;
          c = (ucast (drop_bit 26 d3) :: u32); h3 = ucast d3 AND 0x03ffffff;
          d4 = d4 + ucast c;
          c = (ucast (drop_bit 26 d4) :: u32); h4 = ucast d4 AND 0x03ffffff;
          h0 = h0 + c * 5;
          c = drop_bit 26 h0; h0 = h0 AND 0x03ffffff;
          h1 = h1 + c
      in (h0, h1, h2, h3, h4))"

definition poly_block :: "limbs \<Rightarrow> bool \<Rightarrow> limbs \<Rightarrow> bytes \<Rightarrow> limbs" where
  "poly_block r hibit_present h m = poly_carry (poly_mul r (poly_add hibit_present h m))"

function poly1305_blocks :: "limbs \<Rightarrow> limbs \<Rightarrow> bytes \<Rightarrow> bool \<Rightarrow> limbs" where
  "poly1305_blocks r h m hibit_present =
     (if length m \<ge> 16 then poly1305_blocks r (poly_block r hibit_present h m) (drop 16 m) hibit_present else h)"
  by pat_completeness auto
termination by (relation "measure (\<lambda>(r, h, m, hibit). length m)") auto

declare poly1305_blocks.simps [simp del]

text \<open>The three steps of an update: fill the buffer, whole blocks, and the tail.\<close>

definition poly_fill :: "poly1305_ctx \<Rightarrow> bytes \<Rightarrow> poly1305_ctx \<times> bytes" where
  "poly_fill ctx msg =
     (if po_buf ctx \<noteq> [] then
        let want = 16 - length (po_buf ctx);
            n = (if length msg < want then length msg else want);
            ctx = ctx\<lparr>po_buf := po_buf ctx @ take n msg\<rparr>;
            ctx = (if length (po_buf ctx) = 16
                   then ctx\<lparr>po_h := poly1305_blocks (po_r ctx) (po_h ctx) (po_buf ctx) True, po_buf := []\<rparr> else ctx)
        in (ctx, drop n msg)
      else (ctx, msg))"

definition poly_bulk :: "poly1305_ctx \<Rightarrow> bytes \<Rightarrow> poly1305_ctx \<times> bytes" where
  "poly_bulk ctx msg =
     (if length msg \<ge> 16 then
        let bulk = length msg div 16 * 16
        in (ctx\<lparr>po_h := poly1305_blocks (po_r ctx) (po_h ctx) (take bulk msg) True\<rparr>, drop bulk msg)
      else (ctx, msg))"

definition poly1305_update :: "poly1305_ctx \<Rightarrow> bytes \<Rightarrow> poly1305_ctx" where
  "poly1305_update ctx msg =
     (if length msg = 0 then ctx
      else
        let (ctx, msg) = poly_fill ctx msg;
            (ctx, msg) = poly_bulk ctx msg
        in if msg \<noteq> [] then ctx\<lparr>po_buf := po_buf ctx @ msg\<rparr> else ctx)"

text \<open>The parts of the final computation: the last carry, the subtraction of the prime, and the key addition.\<close>

fun final_carry :: "limbs \<Rightarrow> limbs" where
  "final_carry (h0, h1, h2, h3, h4) =
     (let c = drop_bit 26 h1; h1 = h1 AND 0x03ffffff; h2 = h2 + c;
          c = drop_bit 26 h2; h2 = h2 AND 0x03ffffff; h3 = h3 + c;
          c = drop_bit 26 h3; h3 = h3 AND 0x03ffffff; h4 = h4 + c;
          c = drop_bit 26 h4; h4 = h4 AND 0x03ffffff; h0 = h0 + c * 5;
          c = drop_bit 26 h0; h0 = h0 AND 0x03ffffff; h1 = h1 + c
      in (h0, h1, h2, h3, h4))"

fun final_sub :: "limbs \<Rightarrow> limbs" where
  "final_sub (h0, h1, h2, h3, h4) =
     (let g0 = h0 + 5; c = drop_bit 26 g0; g0 = g0 AND 0x03ffffff;
          g1 = h1 + c; c = drop_bit 26 g1; g1 = g1 AND 0x03ffffff;
          g2 = h2 + c; c = drop_bit 26 g2; g2 = g2 AND 0x03ffffff;
          g3 = h3 + c; c = drop_bit 26 g3; g3 = g3 AND 0x03ffffff;
          g4 = h4 + c - push_bit 26 1;
          m = drop_bit 31 g4 - 1;
          g0 = g0 AND m; g1 = g1 AND m; g2 = g2 AND m; g3 = g3 AND m; g4 = g4 AND m;
          m = NOT m
      in ((h0 AND m) OR g0, (h1 AND m) OR g1, (h2 AND m) OR g2, (h3 AND m) OR g3, (h4 AND m) OR g4))"

fun final_tag :: "limbs \<Rightarrow> u32 list \<Rightarrow> bytes" where
  "final_tag (h0, h1, h2, h3, h4) s =
     (let f0 = h0 OR push_bit 26 h1;
          f1 = drop_bit 6 h1 OR push_bit 20 h2;
          f2 = drop_bit 12 h2 OR push_bit 14 h3;
          f3 = drop_bit 18 h3 OR push_bit 8 h4;
          f = (ucast f0 + ucast (s ! 0) :: u64); f0 = ucast f;
          f = ucast f1 + ucast (s ! 1) + drop_bit 32 f; f1 = ucast f;
          f = ucast f2 + ucast (s ! 2) + drop_bit 32 f; f2 = ucast f;
          f = ucast f3 + ucast (s ! 3) + drop_bit 32 f; f3 = ucast f
      in U32TO8_LE f0 @ U32TO8_LE f1 @ U32TO8_LE f2 @ U32TO8_LE f3)"

definition poly1305_finish :: "poly1305_ctx \<Rightarrow> bytes" where
  "poly1305_finish ctx =
     (let ctx = (if po_buf ctx \<noteq> [] then
                   let buf = po_buf ctx @ [1] @ replicate (16 - (length (po_buf ctx) + 1)) 0
                   in ctx\<lparr>po_h := poly1305_blocks (po_r ctx) (po_h ctx) buf False, po_buf := []\<rparr>
                 else ctx)
      in final_tag (final_sub (final_carry (po_h ctx))) (po_s ctx))"

definition poly1305 :: "bytes \<Rightarrow> bytes \<Rightarrow> bytes" where
  "poly1305 key msg = poly1305_finish (poly1305_update (poly1305_init key) msg)"

section \<open>The standard\<close>

primrec le_nat :: "bytes \<Rightarrow> nat" where
  "le_nat [] = 0"
| "le_nat (b # bs) = unat b + 256 * le_nat bs"

definition P1305 :: nat where "P1305 = 2 ^ 130 - 5"

text \<open>The clamping of the first half of the key, on bytes.\<close>

definition clamp :: "bytes \<Rightarrow> bytes" where
  "clamp k = [k ! 0, k ! 1, k ! 2, k ! 3 AND 15, k ! 4 AND 252, k ! 5, k ! 6, k ! 7 AND 15,
              k ! 8 AND 252, k ! 9, k ! 10, k ! 11 AND 15, k ! 12 AND 252, k ! 13, k ! 14, k ! 15 AND 15]"

text \<open>One block: append a one bit above the block, add, and multiply modulo the prime.\<close>

definition poly_step :: "nat \<Rightarrow> nat \<Rightarrow> bytes \<Rightarrow> nat" where
  "poly_step r acc b = (acc + le_nat (b @ [1])) * r mod P1305"

definition poly1305_spec :: "bytes \<Rightarrow> bytes \<Rightarrow> nat" where
  "poly1305_spec key msg =
     (let r = le_nat (clamp key);
          (acc, rest) = absorb 16 (poly_step r) 0 msg;
          acc = (if rest = [] then acc else poly_step r acc rest)
      in (acc + le_nat (take 16 (drop 16 key))) mod 2 ^ 128)"

section \<open>Words as numbers\<close>

lemma u32_lt: "unat (x :: u32) < 2 ^ 32"
  using unsigned_less [of x, where 'a = nat] by simp

lemma unat_and26: "unat ((x :: u32) AND 0x03ffffff) = unat x mod 2 ^ 26"
proof -
  have "x AND 0x03ffffff = take_bit 26 x" by (simp add: take_bit_eq_mask mask_eq_exp_minus_1)
  then show ?thesis by (simp add: take_bit_eq_mod unat_mod_distrib)
qed

lemma unat_drop32: "unat (drop_bit k (x :: u32)) = unat x div 2 ^ k"
  using unat_drop_bit_eq [of k x] unfolding drop_bit_eq_div [where 'a = nat] .

lemma or_push:
  fixes x y :: u32
  assumes "k \<le> 32" "unat x < 2 ^ k" "unat y < 2 ^ (32 - k)"
  shows "unat (x OR push_bit k y) = unat x + unat y * 2 ^ k"
proof -
  have x: "take_bit k x = x" using assms(2) 
    by (intro word_eqI_unat) (simp only: unsigned_take_bit_eq take_bit_eq_mod [where 'a = nat] mod_less)
  have "take_bit k x AND push_bit k y = 0" by (rule bit_word_eqI) (auto simp: bit_simps)
  then have "x AND push_bit k y = 0" by (simp only: x)
  then have eq: "x OR push_bit k y = x + push_bit k y" by (simp add: disjunctive_add_eq_or)
  have "unat y * 2 ^ k + 2 ^ k \<le> 2 ^ (32 - k) * 2 ^ k" using assms(3) by (metis Suc_leI mult_Suc mult_le_mono1 add.commute)
  then have b: "unat y * 2 ^ k + 2 ^ k \<le> 2 ^ 32" using assms(1) by (simp add: power_add [symmetric])
  have m: "unat (push_bit k y) = unat y * 2 ^ k"
  proof -
    have "unat y * 2 ^ k < 2 ^ 32" using b by (rule less_le_trans [rotated]) simp
    then show ?thesis
      using unsigned_push_bit_eq [of k y, where 'a = nat] by (simp add: push_bit_eq_mult [where 'a = nat] take_bit_eq_mod [where 'a = nat])
  qed
  have "unat x + unat y * 2 ^ k < 2 ^ 32" using assms(2) b by linarith
  then show ?thesis unfolding eq by (simp add: unat_word_ariths m)
qed

lemma unat_ucast32: "unat (ucast (b :: byte) :: u32) = unat b"
  by (simp add: unsigned_ucast_eq take_bit_eq_mod less_trans [OF unat_byte_lt])

lemma U8TO32_LE_nat: "unat (U8TO32_LE (a # b # c # d # xs)) = unat a + 256 * unat b + 65536 * unat c + 16777216 * unat d"
proof -
  have l: "unat a < 256" "unat b < 256" "unat c < 256" by simp_all
  then have l: "unat a + 256 * unat b < 65536" "unat a + 256 * unat b + 65536 * unat c < 16777216" by linarith+
  let ?x = "ucast a OR push_bit 8 (ucast b) :: u32" and ?y = "(ucast a OR push_bit 8 (ucast b)) OR push_bit 16 (ucast c) :: u32"
  have x: "unat ?x = unat a + 256 * unat b" using l by (subst or_push) (simp_all add: unat_ucast32 less_trans [OF unat_byte_lt])
  have y: "unat ?y = unat a + 256 * unat b + 65536 * unat c" using l x by (subst or_push) (simp_all add: unat_ucast32 less_trans [OF unat_byte_lt])
  have "unat (?y OR push_bit 24 (ucast d)) = unat a + 256 * unat b + 65536 * unat c + 16777216 * unat d"
    using l y by (subst or_push) (simp_all add: unat_ucast32 less_trans [OF unat_byte_lt])
  then show ?thesis by (simp add: U8TO32_LE_def or.assoc)
qed

lemma unat_mul64: "unat (mul64 x y) = unat x * unat y"
proof -
  have u: "unat (ucast z :: u64) = unat z" for z :: u32
    using u32_lt [of z] by (simp add: unsigned_ucast_eq take_bit_eq_mod)
  have "unat x * unat y < 2 ^ 32 * 2 ^ 32" using u32_lt by (intro mult_strict_mono) simp_all
  then show ?thesis by (simp add: mul64_def unat_word_ariths u)
qed

lemma unat_add64: "unat x + unat y < 2 ^ 64 \<Longrightarrow> unat (x + y :: u64) = unat x + unat y"
  by (simp add: unat_word_ariths)

lemma unat_add32: "unat x + unat y < 2 ^ 32 \<Longrightarrow> unat (x + y :: u32) = unat x + unat y"
  by (simp add: unat_word_ariths)

lemma dot5:
  assumes "unat a0 \<le> A" "unat a1 \<le> A" "unat a2 \<le> A" "unat a3 \<le> A" "unat a4 \<le> A"
    and "unat b0 \<le> B" "unat b1 \<le> B" "unat b2 \<le> B" "unat b3 \<le> B" "unat b4 \<le> B"
    and "5 * (A * B) < 2 ^ 64"
  shows "unat (mul64 a0 b0 + mul64 a1 b1 + mul64 a2 b2 + mul64 a3 b3 + mul64 a4 b4)
    = unat a0 * unat b0 + unat a1 * unat b1 + unat a2 * unat b2 + unat a3 * unat b3 + unat a4 * unat b4"
    and "unat a0 * unat b0 + unat a1 * unat b1 + unat a2 * unat b2 + unat a3 * unat b3 + unat a4 * unat b4 \<le> 5 * (A * B)"
proof -
  have m: "unat a0 * unat b0 \<le> A * B" "unat a1 * unat b1 \<le> A * B" "unat a2 * unat b2 \<le> A * B"
    "unat a3 * unat b3 \<le> A * B" "unat a4 * unat b4 \<le> A * B"
    using assms by (simp_all add: mult_le_mono)
  then show "unat a0 * unat b0 + unat a1 * unat b1 + unat a2 * unat b2 + unat a3 * unat b3 + unat a4 * unat b4 \<le> 5 * (A * B)"
    by linarith
  show "unat (mul64 a0 b0 + mul64 a1 b1 + mul64 a2 b2 + mul64 a3 b3 + mul64 a4 b4)
    = unat a0 * unat b0 + unat a1 * unat b1 + unat a2 * unat b2 + unat a3 * unat b3 + unat a4 * unat b4"
    using m assms(11) by (simp add: unat_add64 unat_mul64)
qed

lemma unat_hi: "unat d < 2 ^ 58 \<Longrightarrow> unat (ucast (drop_bit 26 d) :: u32) = unat (d :: u64) div 2 ^ 26"
proof -
  assume "unat d < 2 ^ 58"
  then have "unat d div 2 ^ 26 < 2 ^ 32" by (simp add: less_mult_imp_div_less)
  then show ?thesis by (simp add: unsigned_ucast_eq take_bit_eq_mod unat_drop_bit_eq drop_bit_eq_div [where 'a = nat] del: drop_bit_eq_div)
qed

lemma unat_lo: "unat (ucast (d :: u64) AND 0x03ffffff :: u32) = unat d mod 2 ^ 26"
  unfolding unat_and26 by (simp add: unsigned_ucast_eq take_bit_eq_mod mod_mod_cancel)

section \<open>Blocks and keys as limbs\<close>

fun lval :: "limbs \<Rightarrow> nat" where
  "lval (h0, h1, h2, h3, h4) = unat h0 + 2 ^ 26 * unat h1 + 2 ^ 52 * unat h2 + 2 ^ 78 * unat h3 + 2 ^ 104 * unat h4"

lemma le_nat_append: "le_nat (xs @ ys) = le_nat xs + 256 ^ length xs * le_nat ys"
  by (induction xs) (simp_all add: algebra_simps)

lemma le_nat_lt: "le_nat xs < 256 ^ length xs"
proof (induction xs)
  case (Cons b xs)
  have "unat b < 256" "256 * le_nat xs + 256 \<le> 256 * 256 ^ length xs" using Cons.IH by simp_all
  then show ?case unfolding le_nat.simps length_Cons power_Suc by linarith
qed simp

lemma le_nat_drop: "k \<le> length m \<Longrightarrow> le_nat (drop k m) = le_nat m div 256 ^ k"
  using le_nat_append [of "take k m" "drop k m"] le_nat_lt [of "take k m"] by (simp add: min_absorb2)

lemma le_nat_take: "k \<le> length m \<Longrightarrow> le_nat (take k m) = le_nat m mod 256 ^ k"
  using le_nat_append [of "take k m" "drop k m"] le_nat_lt [of "take k m"] by (simp add: min_absorb2)

lemma length_4: "4 \<le> length m \<Longrightarrow> \<exists>a b c d xs. m = a # b # c # d # xs"
  by (metis (no_types) Suc_le_length_iff numeral_eq_Suc pred_numeral_simps(2,3) BitM.simps(2) One_nat_def numeral_One eval_nat_numeral(2,3) semiring_norm(26,27))

lemma U8TO32_LE_take: "4 \<le> length m \<Longrightarrow> unat (U8TO32_LE m) = le_nat m mod 2 ^ 32"
  using length_4 [of m] le_nat_take [of 4 m] by (auto simp: U8TO32_LE_nat)

text \<open>A window of four bytes, shifted.\<close>

lemma U8TO32_LE_window:
  assumes "j + 4 \<le> length m" "k \<le> 32"
  shows "unat (drop_bit k (U8TO32_LE (drop j m))) = le_nat m div 2 ^ (8 * j + k) mod 2 ^ (32 - k)"
proof -
  have "unat (drop_bit k (U8TO32_LE (drop j m))) = le_nat m div 2 ^ (8 * j) mod 2 ^ 32 div 2 ^ k"
    using assms U8TO32_LE_take [of "drop j m"] by (simp add: unat_drop32 le_nat_drop power_mult)
  also have "\<dots> = drop_bit k (take_bit 32 (le_nat m div 2 ^ (8 * j)))" by (simp add: drop_bit_eq_div take_bit_eq_mod)
  also have "\<dots> = take_bit (32 - k) (drop_bit k (le_nat m div 2 ^ (8 * j)))" by (rule drop_bit_take_bit)
  finally show ?thesis by (simp add: drop_bit_eq_div take_bit_eq_mod div_mult2_eq [symmetric] power_add [symmetric])
qed

text \<open>A number as five digits of 26 bits.\<close>

lemma digit_split: "(N :: nat) div 2 ^ a = N div 2 ^ a mod 2 ^ 26 + 2 ^ 26 * (N div 2 ^ (a + 26))"
  by (simp add: power_add div_mult2_eq)

lemma chain5:
  fixes N :: nat
  assumes "N = x + 2 ^ 26 * a" "a = y + 2 ^ 26 * b" "b = z + 2 ^ 26 * c" "c = w + 2 ^ 26 * d"
  shows "N = x + 2 ^ 26 * y + 2 ^ 52 * z + 2 ^ 78 * w + 2 ^ 104 * d"
  unfolding assms by simp

lemma digits5: "(N :: nat) = N mod 2 ^ 26 + 2 ^ 26 * (N div 2 ^ 26 mod 2 ^ 26) + 2 ^ 52 * (N div 2 ^ 52 mod 2 ^ 26)
    + 2 ^ 78 * (N div 2 ^ 78 mod 2 ^ 26) + 2 ^ 104 * (N div 2 ^ 104)"
proof (rule chain5)
  show "N = N mod 2 ^ 26 + 2 ^ 26 * (N div 2 ^ 26)" by simp
  show "N div 2 ^ 26 = N div 2 ^ 26 mod 2 ^ 26 + 2 ^ 26 * (N div 2 ^ 52)" using digit_split [of N 26] by simp
  show "N div 2 ^ 52 = N div 2 ^ 52 mod 2 ^ 26 + 2 ^ 26 * (N div 2 ^ 78)" using digit_split [of N 52] by simp
  show "N div 2 ^ 78 = N div 2 ^ 78 mod 2 ^ 26 + 2 ^ 26 * (N div 2 ^ 104)" using digit_split [of N 78] by simp
qed

fun bounded :: "nat \<Rightarrow> limbs \<Rightarrow> bool" where
  "bounded n (h0, h1, h2, h3, h4) \<longleftrightarrow> unat h0 \<le> n \<and> unat h1 \<le> n \<and> unat h2 \<le> n \<and> unat h3 \<le> n \<and> unat h4 \<le> n"

text \<open>The accumulator between blocks: four reduced limbs, and one that may exceed its 26 bits by a small carry.\<close>

fun reduced :: "limbs \<Rightarrow> bool" where
  "reduced (h0, h1, h2, h3, h4) \<longleftrightarrow> unat h0 < 2 ^ 26 \<and> unat h1 < 2 ^ 26 + 64 \<and> unat h2 < 2 ^ 26 \<and> unat h3 < 2 ^ 26 \<and> unat h4 < 2 ^ 26"

lemma mod_pow_le: "m \<le> n \<Longrightarrow> (N :: nat) mod 2 ^ n mod 2 ^ m = N mod 2 ^ m"
  by (simp add: mod_mod_cancel le_imp_power_dvd)

lemma block_limb:
  assumes "j + 4 \<le> length m" "k \<le> 6"
  shows "unat (drop_bit k (U8TO32_LE (drop j m)) AND 0x03ffffff) = le_nat m div 2 ^ (8 * j + k) mod 2 ^ 26"
  using assms by (simp add: unat_and26 U8TO32_LE_window mod_pow_le del: power_numeral)

lemma top_limb:
  assumes "length m = 16"
  shows "unat (drop_bit 8 (U8TO32_LE (drop 12 m)) OR (if hibit then push_bit 24 1 else 0)) = le_nat m div 2 ^ 104 + (if hibit then 2 ^ 24 else 0)"
    and "le_nat m div 2 ^ 104 < 2 ^ 24"
proof -
  have l: "le_nat m < 2 ^ 128" using le_nat_lt [of m] assms by simp
  then show b: "le_nat m div 2 ^ 104 < 2 ^ 24" by (simp add: less_mult_imp_div_less)
  have w: "unat (drop_bit 8 (U8TO32_LE (drop 12 m))) = le_nat m div 2 ^ 104"
    using U8TO32_LE_window [of 12 m 8] assms b by simp
  show "unat (drop_bit 8 (U8TO32_LE (drop 12 m)) OR (if hibit then push_bit 24 1 else 0)) = le_nat m div 2 ^ 104 + (if hibit then 2 ^ 24 else 0)"
    using or_push [of 24 "drop_bit 8 (U8TO32_LE (drop 12 m))" 1] w b by simp
qed

lemma limb_sum:
  assumes "N = n0 + 2 ^ 26 * n1 + 2 ^ 52 * n2 + 2 ^ 78 * n3 + 2 ^ 104 * (n4 :: nat)"
  shows "(a0 + n0) + 2 ^ 26 * (a1 + n1) + 2 ^ 52 * (a2 + n2) + 2 ^ 78 * (a3 + n3) + 2 ^ 104 * (a4 + (n4 + t))
    = (a0 + 2 ^ 26 * a1 + 2 ^ 52 * a2 + 2 ^ 78 * a3 + 2 ^ 104 * a4) + (N + 2 ^ 104 * t)"
  unfolding assms by simp

lemma add_limb: "unat (x :: u32) = v \<Longrightarrow> v < 2 ^ 26 \<Longrightarrow> unat h < 2 ^ 26 + 64 \<Longrightarrow> unat (h + x) = unat h + v"
  using unat_add32 [of h x] by simp

lemma limb_le: "x < 2 ^ 26 + 64 \<Longrightarrow> y < 2 ^ 26 \<Longrightarrow> x + y \<le> 2 ^ 27 + (64 :: nat)"
  by simp

lemma poly_add_correct:
  assumes "reduced h" "length m = 16"
  shows "lval (poly_add hibit h m) = lval h + (le_nat m + (if hibit then 2 ^ 128 else 0))"
    and "bounded (2 ^ 27 + 64) (poly_add hibit h m)"
proof -
  obtain h0 h1 h2 h3 h4 where h: "h = (h0, h1, h2, h3, h4)" by (cases h) auto
  let ?N = "le_nat m"
  have d: "?N mod 2 ^ 26 < 2 ^ 26" "?N div 2 ^ 26 mod 2 ^ 26 < 2 ^ 26" "?N div 2 ^ 52 mod 2 ^ 26 < 2 ^ 26" "?N div 2 ^ 78 mod 2 ^ 26 < 2 ^ 26"
    by simp_all
  have u: "unat (U8TO32_LE m AND 0x03ffffff) = ?N mod 2 ^ 26"
    "unat (drop_bit 2 (U8TO32_LE (drop 3 m)) AND 0x03ffffff) = ?N div 2 ^ 26 mod 2 ^ 26"
    "unat (drop_bit 4 (U8TO32_LE (drop 6 m)) AND 0x03ffffff) = ?N div 2 ^ 52 mod 2 ^ 26"
    "unat (drop_bit 6 (U8TO32_LE (drop 9 m)) AND 0x03ffffff) = ?N div 2 ^ 78 mod 2 ^ 26"
    using block_limb [of 0 m 0] block_limb [of 3 m 2] block_limb [of 6 m 4] block_limb [of 9 m 6] assms(2) by simp_all
  note t = top_limb(1) [OF assms(2), of hibit] top_limb(2) [OF assms(2)]
  have r: "unat h0 < 2 ^ 26" "unat h1 < 2 ^ 26 + 64" "unat h2 < 2 ^ 26" "unat h3 < 2 ^ 26" "unat h4 < 2 ^ 26" using assms(1) h by simp_all
  have tb: "?N div 2 ^ 104 + (if hibit then 2 ^ 24 else 0) < 2 ^ 26" using t(2) by simp
  have r': "unat h0 < 2 ^ 26 + 64" "unat h2 < 2 ^ 26 + 64" "unat h3 < 2 ^ 26 + 64" "unat h4 < 2 ^ 26 + 64" using r by linarith+
  let ?x0 = "U8TO32_LE m AND 0x03ffffff" and ?x1 = "drop_bit 2 (U8TO32_LE (drop 3 m)) AND 0x03ffffff"
    and ?x2 = "drop_bit 4 (U8TO32_LE (drop 6 m)) AND 0x03ffffff" and ?x3 = "drop_bit 6 (U8TO32_LE (drop 9 m)) AND 0x03ffffff"
    and ?x4 = "drop_bit 8 (U8TO32_LE (drop 12 m)) OR (if hibit then push_bit 24 1 else 0)"
  have e: "poly_add hibit h m = (h0 + ?x0, h1 + ?x1, h2 + ?x2, h3 + ?x3, h4 + ?x4)" by (simp only: h poly_add.simps)
  have s: "unat (h0 + ?x0) = unat h0 + ?N mod 2 ^ 26" "unat (h1 + ?x1) = unat h1 + ?N div 2 ^ 26 mod 2 ^ 26"
    "unat (h2 + ?x2) = unat h2 + ?N div 2 ^ 52 mod 2 ^ 26" "unat (h3 + ?x3) = unat h3 + ?N div 2 ^ 78 mod 2 ^ 26"
    "unat (h4 + ?x4) = unat h4 + (?N div 2 ^ 104 + (if hibit then 2 ^ 24 else 0))"
    by (rule add_limb [OF u(1) d(1) r'(1)] add_limb [OF u(2) d(2) r(2)] add_limb [OF u(3) d(3) r'(2)]
        add_limb [OF u(4) d(4) r'(3)] add_limb [OF t(1) tb r'(4)])+
  have hb: "2 ^ 104 * (if hibit then 2 ^ 24 else 0) = (if hibit then 2 ^ 128 else (0 :: nat))" by simp
  show "lval (poly_add hibit h m) = lval h + (?N + (if hibit then 2 ^ 128 else 0))"
    unfolding e unfolding h lval.simps s hb [symmetric] by (rule limb_sum [OF digits5])
  show "bounded (2 ^ 27 + 64) (poly_add hibit h m)"
    unfolding e bounded.simps s by (intro conjI limb_le r'(1) r'(2) r'(3) r'(4) r(2) d tb)
qed

section \<open>Multiplication and carry\<close>

fun dval :: "u64 \<times> u64 \<times> u64 \<times> u64 \<times> u64 \<Rightarrow> nat" where
  "dval (d0, d1, d2, d3, d4) = unat d0 + 2 ^ 26 * unat d1 + 2 ^ 52 * unat d2 + 2 ^ 78 * unat d3 + 2 ^ 104 * unat d4"

text \<open>The product of two five-digit numbers, with the upper digits folded by \<open>2 ^ 130 = 5\<close>.\<close>

lemma mul_fold:
  fixes h0 h1 h2 h3 h4 r0 r1 r2 r3 r4 :: nat
  shows "(h0 + 2 ^ 26 * h1 + 2 ^ 52 * h2 + 2 ^ 78 * h3 + 2 ^ 104 * h4) * (r0 + 2 ^ 26 * r1 + 2 ^ 52 * r2 + 2 ^ 78 * r3 + 2 ^ 104 * r4)
    = (h0 * r0 + h1 * (r4 * 5) + h2 * (r3 * 5) + h3 * (r2 * 5) + h4 * (r1 * 5))
      + 2 ^ 26 * (h0 * r1 + h1 * r0 + h2 * (r4 * 5) + h3 * (r3 * 5) + h4 * (r2 * 5))
      + 2 ^ 52 * (h0 * r2 + h1 * r1 + h2 * r0 + h3 * (r4 * 5) + h4 * (r3 * 5))
      + 2 ^ 78 * (h0 * r3 + h1 * r2 + h2 * r1 + h3 * r0 + h4 * (r4 * 5))
      + 2 ^ 104 * (h0 * r4 + h1 * r3 + h2 * r2 + h3 * r1 + h4 * r0)
      + P1305 * (h1 * r4 + h2 * r3 + h3 * r2 + h4 * r1 + 2 ^ 26 * (h2 * r4 + h3 * r3 + h4 * r2)
        + 2 ^ 52 * (h3 * r4 + h4 * r3) + 2 ^ 78 * (h4 * r4))"
  by (simp add: P1305_def algebra_simps)

lemma unat_mul5: "unat (r :: u32) < 2 ^ 26 \<Longrightarrow> unat (r * 5) = unat r * 5"
  by (simp add: unat_word_ariths)

lemma poly_mul_correct:
  assumes "bounded (2 ^ 27 + 64) h" "bounded (2 ^ 26 - 1) r" "poly_mul r h = (d0, d1, d2, d3, d4)"
  shows "dval (d0, d1, d2, d3, d4) mod P1305 = lval h * lval r mod P1305"
    and "unat d0 < 2 ^ 58 - 2 ^ 32" "unat d1 < 2 ^ 58 - 2 ^ 32" "unat d2 < 2 ^ 58 - 2 ^ 32" "unat d3 < 2 ^ 58 - 2 ^ 32"
      "unat d4 < 6 * 2 ^ 53 - 2 ^ 32"
proof -
  obtain h0 h1 h2 h3 h4 where h: "h = (h0, h1, h2, h3, h4)" by (cases h) auto
  obtain r0 r1 r2 r3 r4 where r: "r = (r0, r1, r2, r3, r4)" by (cases r) auto
  let ?A = "2 ^ 27 + 64 :: nat" and ?B = "5 * 2 ^ 26 :: nat"
  have hb: "unat h0 \<le> ?A" "unat h1 \<le> ?A" "unat h2 \<le> ?A" "unat h3 \<le> ?A" "unat h4 \<le> ?A" using assms(1) by (simp_all add: h)
  have rl: "unat r0 < 2 ^ 26" "unat r1 < 2 ^ 26" "unat r2 < 2 ^ 26" "unat r3 < 2 ^ 26" "unat r4 < 2 ^ 26" using assms(2) by (simp_all add: r)
  have s: "unat (r1 * 5) = unat r1 * 5" "unat (r2 * 5) = unat r2 * 5" "unat (r3 * 5) = unat r3 * 5" "unat (r4 * 5) = unat r4 * 5"
    using rl by (simp_all add: unat_mul5)
  have rb: "unat r0 \<le> ?B" "unat r1 \<le> ?B" "unat r2 \<le> ?B" "unat r3 \<le> ?B" "unat (r1 * 5) \<le> ?B" "unat (r2 * 5) \<le> ?B"
    "unat (r3 * 5) \<le> ?B" "unat (r4 * 5) \<le> ?B"
    using rl s by simp_all
  have ab: "5 * (?A * ?B) < 2 ^ 64" by simp
  have d: "d0 = mul64 h0 r0 + mul64 h1 (r4 * 5) + mul64 h2 (r3 * 5) + mul64 h3 (r2 * 5) + mul64 h4 (r1 * 5)"
    "d1 = mul64 h0 r1 + mul64 h1 r0 + mul64 h2 (r4 * 5) + mul64 h3 (r3 * 5) + mul64 h4 (r2 * 5)"
    "d2 = mul64 h0 r2 + mul64 h1 r1 + mul64 h2 r0 + mul64 h3 (r4 * 5) + mul64 h4 (r3 * 5)"
    "d3 = mul64 h0 r3 + mul64 h1 r2 + mul64 h2 r1 + mul64 h3 r0 + mul64 h4 (r4 * 5)"
    "d4 = mul64 h0 r4 + mul64 h1 r3 + mul64 h2 r2 + mul64 h3 r1 + mul64 h4 r0"
    using assms(3) by (simp_all add: h r Let_def)
  note e0 = dot5 [OF hb rb(1,8,7,6,5) ab] and e1 = dot5 [OF hb rb(2,1,8,7,6) ab] and e2 = dot5 [OF hb rb(3,2,1,8,7) ab]
    and e3 = dot5 [OF hb rb(4,3,2,1,8) ab]
  have e4: "unat d4 = unat h0 * unat r4 + unat h1 * unat r3 + unat h2 * unat r2 + unat h3 * unat r1 + unat h4 * unat r0"
    "unat d4 \<le> 5 * (?A * 2 ^ 26)"
    using dot5 [OF hb less_imp_le [OF rl(5)] less_imp_le [OF rl(4)] less_imp_le [OF rl(3)] less_imp_le [OF rl(2)] less_imp_le [OF rl(1)]]
    by (simp_all add: d(5))
  note u = e0(1) [folded d(1)] e1(1) [folded d(2)] e2(1) [folded d(3)] e3(1) [folded d(4)] e4(1)
  show "dval (d0, d1, d2, d3, d4) mod P1305 = lval h * lval r mod P1305"
    unfolding h r lval.simps dval.simps mul_fold u s by (rule mod_mult_self2 [symmetric])
  show "unat d0 < 2 ^ 58 - 2 ^ 32" "unat d1 < 2 ^ 58 - 2 ^ 32" "unat d2 < 2 ^ 58 - 2 ^ 32" "unat d3 < 2 ^ 58 - 2 ^ 32"
    using e0(2) e1(2) e2(2) e3(2) unfolding u by simp_all
  show "unat d4 < 6 * 2 ^ 53 - 2 ^ 32" using e4(2) by simp
qed

text \<open>The carry chain on numbers: what leaves the top comes back five times at the bottom.\<close>

lemma carry_fold:
  fixes d0 d1 d2 d3 d4 :: nat
  assumes "d0 = m0 + 2 ^ 26 * q0" "d1 + q0 = m1 + 2 ^ 26 * q1" "d2 + q1 = m2 + 2 ^ 26 * q2"
    "d3 + q2 = m3 + 2 ^ 26 * q3" "d4 + q3 = m4 + 2 ^ 26 * q4" "m0 + q4 * 5 = n0 + 2 ^ 26 * q5"
  shows "d0 + 2 ^ 26 * d1 + 2 ^ 52 * d2 + 2 ^ 78 * d3 + 2 ^ 104 * d4
    = n0 + 2 ^ 26 * (m1 + q5) + 2 ^ 52 * m2 + 2 ^ 78 * m3 + 2 ^ 104 * m4 + P1305 * q4"
  using assms unfolding P1305_def by simp

lemma unat_ucast64: "unat (ucast (c :: u32) :: u64) = unat c"
  using u32_lt [of c] by (simp add: unsigned_ucast_eq take_bit_eq_mod)

lemma carry_step:
  fixes d :: u64
  assumes "unat d < 2 ^ 58 - 2 ^ 32"
  shows "unat (d + ucast (c :: u32)) = unat d + unat c" "unat (d + ucast c) < 2 ^ 58"
proof -
  have b: "unat d + unat c < 2 ^ 58" using assms u32_lt [of c] by simp
  then show "unat (d + ucast c) = unat d + unat c" using unat_add64 [of d "ucast c"] by (simp add: unat_ucast64)
  then show "unat (d + ucast c) < 2 ^ 58" using b by simp
qed

text \<open>The last wrap: five times the top carry fits into the lowest limb's word, and leaves a carry below 64.\<close>

lemma carry_wrap:
  fixes c :: u32 and d e :: u64
  assumes "unat c \<le> 6 * 2 ^ 27"
  defines "h \<equiv> (ucast d AND 0x03ffffff) + c * 5"
  shows "unat h = unat d mod 2 ^ 26 + unat c * 5" "unat h div 2 ^ 26 < 64"
    "unat ((ucast e AND 0x03ffffff) + drop_bit 26 h) = unat e mod 2 ^ 26 + unat h div 2 ^ 26"
proof -
  have m: "unat d mod 2 ^ 26 < 2 ^ 26" "unat e mod 2 ^ 26 < 2 ^ 26" by simp_all
  then have s: "unat d mod 2 ^ 26 + unat c * 5 < 64 * 2 ^ 26" using assms(1) by simp
  have "unat (c * 5) = unat c * 5" using assms(1) by (simp add: unat_word_ariths)
  then show e: "unat h = unat d mod 2 ^ 26 + unat c * 5"
    using unat_add32 [of "ucast d AND 0x03ffffff" "c * 5"] s unfolding h_def unat_lo by simp
  show l: "unat h div 2 ^ 26 < 64" unfolding e using s by (rule less_mult_imp_div_less)
  show "unat ((ucast e AND 0x03ffffff) + drop_bit 26 h) = unat e mod 2 ^ 26 + unat h div 2 ^ 26"
    using unat_add32 [of "ucast e AND 0x03ffffff" "drop_bit 26 h"] m(2) l unfolding unat_lo unat_drop32 by simp
qed

lemma poly_carry_correct:
  assumes "unat d0 < 2 ^ 58 - 2 ^ 32" "unat d1 < 2 ^ 58 - 2 ^ 32" "unat d2 < 2 ^ 58 - 2 ^ 32" "unat d3 < 2 ^ 58 - 2 ^ 32"
    and "unat d4 < 6 * 2 ^ 53 - 2 ^ 32"
  shows "lval (poly_carry (d0, d1, d2, d3, d4)) mod P1305 = dval (d0, d1, d2, d3, d4) mod P1305"
    and "reduced (poly_carry (d0, d1, d2, d3, d4))"
proof -
  define c0 :: u32 where "c0 = ucast (drop_bit 26 d0)"
  define e1 where "e1 = d1 + ucast c0"
  define c1 :: u32 where "c1 = ucast (drop_bit 26 e1)"
  define e2 where "e2 = d2 + ucast c1"
  define c2 :: u32 where "c2 = ucast (drop_bit 26 e2)"
  define e3 where "e3 = d3 + ucast c2"
  define c3 :: u32 where "c3 = ucast (drop_bit 26 e3)"
  define e4 where "e4 = d4 + ucast c3"
  define c4 :: u32 where "c4 = ucast (drop_bit 26 e4)"
  define h0 :: u32 where "h0 = (ucast d0 AND 0x03ffffff) + c4 * 5"
  have p: "poly_carry (d0, d1, d2, d3, d4) = (h0 AND 0x03ffffff, (ucast e1 AND 0x03ffffff) + drop_bit 26 h0,
      ucast e2 AND 0x03ffffff, ucast e3 AND 0x03ffffff, ucast e4 AND 0x03ffffff)"
    unfolding poly_carry.simps Let_def c0_def e1_def c1_def e2_def c2_def e3_def c3_def e4_def c4_def h0_def ..
  have u: "unat e1 = unat d1 + unat c0" "unat e1 < 2 ^ 58" "unat e2 = unat d2 + unat c1" "unat e2 < 2 ^ 58"
    "unat e3 = unat d3 + unat c2" "unat e3 < 2 ^ 58"
    unfolding e1_def e2_def e3_def by (rule carry_step assms)+
  have u4: "unat e4 = unat d4 + unat c3" "unat e4 < 6 * 2 ^ 53"
    using carry_step(1) [of d4 c3] assms(5) u32_lt [of c3] unfolding e4_def by simp_all
  have c: "unat c0 = unat d0 div 2 ^ 26" "unat c1 = unat e1 div 2 ^ 26" "unat c2 = unat e2 div 2 ^ 26" "unat c3 = unat e3 div 2 ^ 26"
    "unat c4 = unat e4 div 2 ^ 26"
    unfolding c0_def c1_def c2_def c3_def c4_def using assms(1) u u4(2) by (simp_all add: unat_hi)
  have c4: "unat c4 \<le> 6 * 2 ^ 27" using u4(2) unfolding c(5) by simp
  note h0 = carry_wrap [OF c4, of d0, folded h0_def] and h1 = carry_wrap(3) [OF c4, of e1 d0, folded h0_def]
  have m: "x = x mod 2 ^ 26 + 2 ^ 26 * (x div 2 ^ 26)" for x :: nat by simp
  have l: "lval (poly_carry (d0, d1, d2, d3, d4)) = unat h0 mod 2 ^ 26 + 2 ^ 26 * (unat e1 mod 2 ^ 26 + unat h0 div 2 ^ 26)
      + 2 ^ 52 * (unat e2 mod 2 ^ 26) + 2 ^ 78 * (unat e3 mod 2 ^ 26) + 2 ^ 104 * (unat e4 mod 2 ^ 26)"
    unfolding p lval.simps h1 unat_lo unfolding unat_and26 ..
  have "dval (d0, d1, d2, d3, d4) = lval (poly_carry (d0, d1, d2, d3, d4)) + P1305 * (unat e4 div 2 ^ 26)"
    unfolding dval.simps l
  proof (rule carry_fold)
    show "unat d0 = unat d0 mod 2 ^ 26 + 2 ^ 26 * (unat d0 div 2 ^ 26)" by (rule m)
    show "unat d1 + unat d0 div 2 ^ 26 = unat e1 mod 2 ^ 26 + 2 ^ 26 * (unat e1 div 2 ^ 26)" using m [of "unat e1"] u(1) c(1) by (simp only:)
    show "unat d2 + unat e1 div 2 ^ 26 = unat e2 mod 2 ^ 26 + 2 ^ 26 * (unat e2 div 2 ^ 26)" using m [of "unat e2"] u(3) c(2) by (simp only:)
    show "unat d3 + unat e2 div 2 ^ 26 = unat e3 mod 2 ^ 26 + 2 ^ 26 * (unat e3 div 2 ^ 26)" using m [of "unat e3"] u(5) c(3) by (simp only:)
    show "unat d4 + unat e3 div 2 ^ 26 = unat e4 mod 2 ^ 26 + 2 ^ 26 * (unat e4 div 2 ^ 26)" using m [of "unat e4"] u4(1) c(4) by (simp only:)
    show "unat d0 mod 2 ^ 26 + unat e4 div 2 ^ 26 * 5 = unat h0 mod 2 ^ 26 + 2 ^ 26 * (unat h0 div 2 ^ 26)" using m [of "unat h0"] h0(1) c(5) by (simp only:)
  qed
  then show "lval (poly_carry (d0, d1, d2, d3, d4)) mod P1305 = dval (d0, d1, d2, d3, d4) mod P1305" by (simp only: mod_mult_self2)
  have b: "x mod 2 ^ 26 < 2 ^ 26" "y < 64 \<Longrightarrow> x mod 2 ^ 26 + y < 2 ^ 26 + 64" for x y :: nat by (simp_all add: add_less_mono)
  show "reduced (poly_carry (d0, d1, d2, d3, d4))"
    unfolding p reduced.simps h1 unat_lo unfolding unat_and26 by (intro conjI b h0(2))
qed

lemma poly_block_correct:
  assumes "reduced h" "bounded (2 ^ 26 - 1) r" "length m = 16"
  shows "lval (poly_block r hibit h m) mod P1305 = (lval h + (le_nat m + (if hibit then 2 ^ 128 else 0))) * lval r mod P1305"
    and "reduced (poly_block r hibit h m)"
proof -
  obtain d0 d1 d2 d3 d4 where d: "poly_mul r (poly_add hibit h m) = (d0, d1, d2, d3, d4)" by (cases "poly_mul r (poly_add hibit h m)") auto
  note mul = poly_mul_correct [OF poly_add_correct(2) [OF assms(1,3)] assms(2) d]
  note car = poly_carry_correct [OF mul(2-6)]
  show "lval (poly_block r hibit h m) mod P1305 = (lval h + (le_nat m + (if hibit then 2 ^ 128 else 0))) * lval r mod P1305"
    unfolding poly_block_def d car(1) mul(1) poly_add_correct(1) [OF assms(1,3)] ..
  show "reduced (poly_block r hibit h m)" unfolding poly_block_def d by (rule car(2))
qed

section \<open>The clamped key\<close>

lemma all32: "(\<forall>n<32. P n) \<longleftrightarrow>
    (\<forall>n \<in> set [0, 1, 2, 3, 4, 5, 6, 7, 8, 9, 10, 11, 12, 13, 14, 15, 16, 17, 18, 19, 20, 21, 22, 23, 24, 25, 26, 27, 28, 29, 30, 31 :: nat]. P n)"
proof -
  have "{..<32 :: nat} = set [0, 1, 2, 3, 4, 5, 6, 7, 8, 9, 10, 11, 12, 13, 14, 15, 16, 17, 18, 19, 20, 21, 22, 23, 24, 25, 26, 27, 28, 29, 30, 31]"
    by code_simp
  then show ?thesis by (metis lessThan_iff)
qed

lemma word32_eqI: "(\<forall>n<32. bit x n = bit y n) \<Longrightarrow> (x :: u32) = y"
  by (rule bit_word_eqI) simp

lemma byte_bit_high: "8 \<le> n \<Longrightarrow> \<not> bit (b :: byte) n"
  by (auto dest: bit_imp_le_length)

lemmas bitwise32 = U8TO32_LE_def bit_simps byte_bit_high

text \<open>The masks of the code clear the same bits as the clamping of the bytes.\<close>

lemma clamp0: "U8TO32_LE (a # b # c # d # []) AND 0x03ffffff = U8TO32_LE (a # b # c # (d AND 15) # []) AND 0x03ffffff"
  by (rule word32_eqI, unfold all32) (simp add: bitwise32)

lemma clamp1: "drop_bit 2 (U8TO32_LE (a # b # c # d # [])) AND 0x03ffff03
    = drop_bit 2 (U8TO32_LE ((a AND 15) # (b AND 252) # c # d # [])) AND 0x03ffffff"
  by (rule word32_eqI, unfold all32) (simp add: bitwise32)

lemma clamp2: "drop_bit 4 (U8TO32_LE (a # b # c # d # [])) AND 0x03ffc0ff
    = drop_bit 4 (U8TO32_LE (a # (b AND 15) # (c AND 252) # d # [])) AND 0x03ffffff"
  by (rule word32_eqI, unfold all32) (simp add: bitwise32)

lemma clamp3: "drop_bit 6 (U8TO32_LE (a # b # c # d # [])) AND 0x03f03fff
    = drop_bit 6 (U8TO32_LE (a # b # (c AND 15) # (d AND 252) # [])) AND 0x03ffffff"
  by (rule word32_eqI, unfold all32) (simp add: bitwise32)

lemma clamp4: "drop_bit 8 (U8TO32_LE (a # b # c # d # [])) AND 0x000fffff
    = drop_bit 8 (U8TO32_LE ((a AND 252) # b # c # (d AND 15) # []))"
  by (rule word32_eqI, unfold all32) (simp add: bitwise32)

lemma U8TO32_LE_nth: "U8TO32_LE m = U8TO32_LE [m ! 0, m ! 1, m ! 2, m ! 3]"
  by (simp add: U8TO32_LE_def)

lemma clamp_limbs:
  assumes "16 \<le> length key"
  shows "po_r (poly1305_init key) = poly_add False (0, 0, 0, 0, 0) (clamp key)"
proof -
  have n: "drop k key ! i = key ! (k + i)" if "k \<le> 16" for k i using that assms by simp
  have e: "U8TO32_LE key = U8TO32_LE [key ! 0, key ! 1, key ! 2, key ! 3]"
    "U8TO32_LE (drop 3 key) = U8TO32_LE [key ! 3, key ! 4, key ! 5, key ! 6]"
    "U8TO32_LE (drop 6 key) = U8TO32_LE [key ! 6, key ! 7, key ! 8, key ! 9]"
    "U8TO32_LE (drop 9 key) = U8TO32_LE [key ! 9, key ! 10, key ! 11, key ! 12]"
    "U8TO32_LE (drop 12 key) = U8TO32_LE [key ! 12, key ! 13, key ! 14, key ! 15]"
    by (simp_all add: U8TO32_LE_def n)
  have c: "U8TO32_LE (clamp key) = U8TO32_LE [key ! 0, key ! 1, key ! 2, key ! 3 AND 15]"
    "U8TO32_LE (drop 3 (clamp key)) = U8TO32_LE [key ! 3 AND 15, key ! 4 AND 252, key ! 5, key ! 6]"
    "U8TO32_LE (drop 6 (clamp key)) = U8TO32_LE [key ! 6, key ! 7 AND 15, key ! 8 AND 252, key ! 9]"
    "U8TO32_LE (drop 9 (clamp key)) = U8TO32_LE [key ! 9, key ! 10, key ! 11 AND 15, key ! 12 AND 252]"
    "U8TO32_LE (drop 12 (clamp key)) = U8TO32_LE [key ! 12 AND 252, key ! 13, key ! 14, key ! 15 AND 15]"
    by (simp_all add: U8TO32_LE_def clamp_def)
  show ?thesis
    unfolding poly1305_init_def poly1305_ctx.simps poly_add.simps e c clamp0 [of "key ! 0" "key ! 1" "key ! 2" "key ! 3"] clamp1 clamp2 clamp3 clamp4 by simp
qed

lemma init_key:
  assumes "16 \<le> length key"
  shows "lval (po_r (poly1305_init key)) = le_nat (clamp key)" "bounded (2 ^ 26 - 1) (po_r (poly1305_init key))"
proof -
  have l: "length (clamp key) = 16" "reduced (0, 0, 0, 0, 0)" by (simp_all add: clamp_def)
  show "lval (po_r (poly1305_init key)) = le_nat (clamp key)"
    unfolding clamp_limbs [OF assms] poly_add_correct(1) [OF l(2,1)] by simp
  have a: "unat ((x :: u32) AND 0x03ffffff) \<le> 2 ^ 26 - 1" for x
    unfolding unat_and26 by (simp add: less_Suc_eq_le [symmetric])
  have "unat (drop_bit 8 (x :: u32)) \<le> 2 ^ 26 - 1" for x
    unfolding unat_drop32 using u32_lt [of x] by simp
  then show "bounded (2 ^ 26 - 1) (po_r (poly1305_init key))"
    unfolding clamp_limbs [OF assms] poly_add.simps bounded.simps using a by simp
qed

section \<open>Any pieces\<close>

text \<open>The state that an update carries: the key and the accumulator.\<close>

definition poly_st :: "poly1305_ctx \<Rightarrow> limbs \<times> limbs" where
  "poly_st c = (po_r c, po_h c)"

definition poly_blk :: "limbs \<times> limbs \<Rightarrow> bytes \<Rightarrow> limbs \<times> limbs" where
  "poly_blk rh b = (fst rh, poly_block (fst rh) True (snd rh) b)"

lemma U8TO32_LE_cut: "k \<le> 12 \<Longrightarrow> 16 \<le> length m \<Longrightarrow> U8TO32_LE (drop k (take 16 m)) = U8TO32_LE (drop k m)"
  by (simp add: U8TO32_LE_def)

lemma poly_block_take: "16 \<le> length m \<Longrightarrow> poly_block r hibit h (take 16 m) = poly_block r hibit h m"
proof -
  assume m: "16 \<le> length m"
  have "poly_add hibit h (take 16 m) = poly_add hibit h m"
    using U8TO32_LE_cut [OF _ m, of 0] U8TO32_LE_cut [OF _ m, of 3] U8TO32_LE_cut [OF _ m, of 6] U8TO32_LE_cut [OF _ m, of 9] U8TO32_LE_cut [OF _ m, of 12]
    by (cases h) (simp del: drop_take)
  then show ?thesis by (simp add: poly_block_def)
qed

lemma poly_blocks_absorb: "fst (absorb 16 poly_blk (r, h) m) = (r, poly1305_blocks r h m True)"
proof (induction "length m" arbitrary: h m rule: less_induct)
  case less
  show ?case
  proof (cases "length m < 16")
    case True
    then show ?thesis by (simp add: absorb_short poly1305_blocks.simps)
  next
    case False
    then have "length (drop 16 m) < length m" by simp
    from less.hyps [OF this, of "poly_block r True h m"] False show ?thesis
      by (simp add: absorb.simps [of 16] poly1305_blocks.simps [of r h m] poly_blk_def poly_block_take)
  qed
qed

lemma poly_fill_absorb:
  assumes "length (po_buf c) < 16" "poly_fill c d = (c', d')"
  shows "absorb 16 poly_blk (poly_st c) (po_buf c @ d) = absorb 16 poly_blk (poly_st c') (po_buf c' @ d')
    \<and> length (po_buf c') < 16 \<and> (d' \<noteq> [] \<longrightarrow> po_buf c' = [])"
proof (cases "po_buf c = []")
  case True
  then show ?thesis using assms by (simp add: poly_fill_def)
next
  case b: False
  let ?w = "16 - length (po_buf c)"
  show ?thesis
  proof (cases "length d < ?w")
    case True
    then have "c' = c\<lparr>po_buf := po_buf c @ d\<rparr>" "d' = []" using assms b by (auto simp: poly_fill_def Let_def)
    then show ?thesis using True by (simp add: poly_st_def)
  next
    case False
    let ?b = "po_buf c @ take ?w d"
    have l: "length ?b = 16" using False assms(1) by simp
    have e: "c' = c\<lparr>po_h := poly1305_blocks (po_r c) (po_h c) ?b True, po_buf := []\<rparr>" "d' = drop ?w d"
      using assms(2) b False l by (auto simp: poly_fill_def Let_def)
    have "poly1305_blocks (po_r c) (po_h c) ?b True = poly_block (po_r c) True (po_h c) ?b"
      using l by (simp add: poly1305_blocks.simps)
    then have "poly_st c' = poly_blk (poly_st c) ?b" by (simp add: e poly_st_def poly_blk_def)
    then show ?thesis using absorb_block [of 16 ?b poly_blk "poly_st c" "drop ?w d"] l e by simp
  qed
qed

lemma poly_bulk_absorb:
  assumes "poly_bulk c d = (c', d')"
  shows "absorb 16 poly_blk (poly_st c) d = (poly_st c', d') \<and> po_buf c' = po_buf c"
proof (cases "length d < 16")
  case True
  then show ?thesis using assms by (simp add: poly_bulk_def absorb_short)
next
  case False
  let ?k = "length d div 16 * 16"
  have e: "c' = c\<lparr>po_h := poly1305_blocks (po_r c) (po_h c) (take ?k d) True\<rparr>" "d' = drop ?k d"
    using assms False by (auto simp: poly_bulk_def Let_def)
  have l: "length (take ?k d) mod 16 = 0" "length (drop ?k d) < 16" by (simp_all add: minus_div_mult_eq_mod)
  have "snd (absorb 16 poly_blk (poly_st c) (take ?k d)) = []"
    using absorb_rest_length [of 16 poly_blk "poly_st c" "take ?k d"] l(1) by simp
  then have "absorb 16 poly_blk (poly_st c) (take ?k d) = (poly_st c', [])"
    using poly_blocks_absorb [of "po_r c" "po_h c" "take ?k d"] by (simp add: prod_eq_iff poly_st_def e(1))
  then show ?thesis using absorb_append [of 16 poly_blk "poly_st c" "take ?k d" "drop ?k d"] l(2) e by (simp add: absorb_short)
qed

lemma poly_update_absorb:
  assumes "length (po_buf c) < 16"
  shows "(poly_st (poly1305_update c d), po_buf (poly1305_update c d)) = absorb 16 poly_blk (poly_st c) (po_buf c @ d)"
proof (cases "d = []")
  case True
  then show ?thesis using assms by (simp add: poly1305_update_def absorb_short)
next
  case False
  obtain c1 d1 where e1: "poly_fill c d = (c1, d1)" by (cases "poly_fill c d") auto
  obtain c2 d2 where e2: "poly_bulk c1 d1 = (c2, d2)" by (cases "poly_bulk c1 d1") auto
  have u: "poly1305_update c d = (if d2 \<noteq> [] then c2\<lparr>po_buf := po_buf c2 @ d2\<rparr> else c2)"
    using False by (simp add: poly1305_update_def e1 e2)
  note f = poly_fill_absorb [OF assms e1] and b = poly_bulk_absorb [OF e2]
  show ?thesis
  proof (cases "d1 = []")
    case True
    then have "d2 = []" "c2 = c1" using e2 by (auto simp: poly_bulk_def)
    then show ?thesis using f True by (simp add: u absorb_short)
  next
    case n: False
    then have "po_buf c1 = []" using f by blast
    then show ?thesis using f b by (auto simp: u poly_st_def)
  qed
qed

interpretation poly: block_stream 16 poly_blk poly_st po_buf poly1305_update
  by unfold_locales (simp, rule poly_update_absorb)

lemma poly_update_s: "po_s (poly1305_update c d) = po_s c"
  by (auto simp: poly1305_update_def poly_fill_def poly_bulk_def Let_def)

lemma poly_update_all_s: "po_s (foldl poly1305_update c ds) = po_s c"
  by (induction ds arbitrary: c) (simp_all add: poly_update_s)

end
