(* ===== verification/Poly1305_Spec.thy ===== *)
theory Poly1305_Spec
  imports Poly1305
begin

text \<open>
  The final reduction of Poly1305 and the proof that the tag is the one of RFC 8439.
\<close>

unbundle bit_operations_syntax

section \<open>The final reduction\<close>

fun canonical :: "limbs \<Rightarrow> bool" where
  "canonical (h0, h1, h2, h3, h4) \<longleftrightarrow> unat h0 < 2 ^ 26 \<and> unat h1 < 2 ^ 26 \<and> unat h2 < 2 ^ 26 \<and> unat h3 < 2 ^ 26 \<and> unat h4 < 2 ^ 26"

lemma div_small: "x < 2 ^ 26 + (64 :: nat) \<Longrightarrow> x div 2 ^ 26 \<le> 1"
  by simp

lemma div_one: "x \<le> 2 ^ 26 \<Longrightarrow> x div 2 ^ 26 = (if x = 2 ^ 26 then 1 else (0 :: nat))"
  by simp

lemma full_limb: "a < 2 ^ 26 \<Longrightarrow> q \<le> 1 \<Longrightarrow> (a + q) div 2 ^ 26 \<noteq> 0 \<Longrightarrow> q = (1 :: nat)"
  by (cases "q = 0") simp_all

text \<open>The carries on numbers: a carry out of the top means that every limb above the second was full.\<close>

lemma final_carry_nat:
  fixes a0 a1 a2 a3 a4 :: nat
  assumes "a0 < 2 ^ 26" "a1 < 2 ^ 26 + 64" "a2 < 2 ^ 26" "a3 < 2 ^ 26" "a4 < 2 ^ 26"
    and "q1 = a1 div 2 ^ 26" "e2 = a2 + q1" "q2 = e2 div 2 ^ 26" "e3 = a3 + q2" "q3 = e3 div 2 ^ 26" "e4 = a4 + q3" "q4 = e4 div 2 ^ 26"
    and "e0 = a0 + q4 * 5" "q0 = e0 div 2 ^ 26"
  shows "q1 \<le> 1" "q2 \<le> 1" "q3 \<le> 1" "q4 \<le> 1" "q0 \<le> 1" "a1 mod 2 ^ 26 + q0 < 2 ^ 26"
    "a0 + 2 ^ 26 * a1 + 2 ^ 52 * a2 + 2 ^ 78 * a3 + 2 ^ 104 * a4
      = e0 mod 2 ^ 26 + 2 ^ 26 * (a1 mod 2 ^ 26 + q0) + 2 ^ 52 * (e2 mod 2 ^ 26) + 2 ^ 78 * (e3 mod 2 ^ 26) + 2 ^ 104 * (e4 mod 2 ^ 26) + P1305 * q4"
proof -
  show q1: "q1 \<le> 1" using assms(2,6) by simp
  then have e2: "e2 \<le> 2 ^ 26" using assms(3,7) by simp
  then show q2: "q2 \<le> 1" using assms(8) div_one [OF e2] by simp
  then have e3: "e3 \<le> 2 ^ 26" using assms(4,9) by simp
  then show q3: "q3 \<le> 1" using assms(10) div_one [OF e3] by simp
  then have e4: "e4 \<le> 2 ^ 26" using assms(5,11) by simp
  then show q4: "q4 \<le> 1" using assms(12) div_one [OF e4] by simp
  then have e0: "e0 < 2 ^ 26 + 64" using assms(1,13) by simp
  then show q0: "q0 \<le> 1" using assms(14) by simp
  show "a1 mod 2 ^ 26 + q0 < 2 ^ 26"
  proof (cases "q4 = 0")
    case True
    then have "q0 = 0" using assms(1,13,14) by simp
    then show ?thesis by simp
  next
    case False
    then have "q3 = 1" by (intro full_limb [OF assms(5) q3]) (simp only: assms(11,12) not_False_eq_True)
    then have "q2 = 1" by (intro full_limb [OF assms(4) q2]) (simp only: assms(9,10) not_False_eq_True)
    then have "q1 = 1" by (intro full_limb [OF assms(3) q1]) (simp only: assms(7,8) not_False_eq_True)
    then have "2 ^ 26 \<le> a1" using assms(6) by (cases "a1 < 2 ^ 26") simp_all
    then have "a1 mod 2 ^ 26 < 64" 
      using assms(2) le_mod_geq [of "2 ^ 26" a1] mod_less_eq_dividend [of "a1 - 2 ^ 26" "2 ^ 26"] by linarith
    then show ?thesis using q0 by simp
  qed
  have m: "x = x mod 2 ^ 26 + 2 ^ 26 * (x div 2 ^ 26)" for x :: nat by simp
  show "a0 + 2 ^ 26 * a1 + 2 ^ 52 * a2 + 2 ^ 78 * a3 + 2 ^ 104 * a4
      = e0 mod 2 ^ 26 + 2 ^ 26 * (a1 mod 2 ^ 26 + q0) + 2 ^ 52 * (e2 mod 2 ^ 26) + 2 ^ 78 * (e3 mod 2 ^ 26) + 2 ^ 104 * (e4 mod 2 ^ 26) + P1305 * q4"
  proof (rule carry_fold)
    show "a0 = a0 + 2 ^ 26 * 0" by simp
    show "a1 + 0 = a1 mod 2 ^ 26 + 2 ^ 26 * q1" using m [of a1] by (simp only: assms(6) add_0_right)
    show "a2 + q1 = e2 mod 2 ^ 26 + 2 ^ 26 * q2" using m [of e2] by (simp only: assms(8) assms(7) [symmetric])
    show "a3 + q2 = e3 mod 2 ^ 26 + 2 ^ 26 * q3" using m [of e3] by (simp only: assms(10) assms(9) [symmetric])
    show "a4 + q3 = e4 mod 2 ^ 26 + 2 ^ 26 * q4" using m [of e4] by (simp only: assms(12) assms(11) [symmetric])
    show "a0 + q4 * 5 = e0 mod 2 ^ 26 + 2 ^ 26 * q0" using m [of e0] by (simp only: assms(14) assms(13) [symmetric])
  qed
qed

lemma final_carry_correct:
  assumes "reduced h"
  shows "canonical (final_carry h) \<and> lval (final_carry h) mod P1305 = lval h mod P1305"
proof -
  obtain h0 h1 h2 h3 h4 where h: "h = (h0, h1, h2, h3, h4)" by (cases h) auto
  have b: "unat h0 < 2 ^ 26" "unat h1 < 2 ^ 26 + 64" "unat h2 < 2 ^ 26" "unat h3 < 2 ^ 26" "unat h4 < 2 ^ 26" using assms h by simp_all
  define w2 where "w2 = h2 + drop_bit 26 h1"
  define w3 where "w3 = h3 + drop_bit 26 w2"
  define w4 where "w4 = h4 + drop_bit 26 w3"
  define w0 where "w0 = h0 + drop_bit 26 w4 * 5"
  define w1 where "w1 = (h1 AND 0x03ffffff) + drop_bit 26 w0"
  have f: "final_carry h = (w0 AND 0x03ffffff, w1, w2 AND 0x03ffffff, w3 AND 0x03ffffff, w4 AND 0x03ffffff)"
    unfolding h final_carry.simps Let_def w0_def w1_def w2_def w3_def w4_def ..
  let ?q1 = "unat h1 div 2 ^ 26"
  let ?e2 = "unat h2 + ?q1"
  let ?e3 = "unat h3 + ?e2 div 2 ^ 26"
  let ?e4 = "unat h4 + ?e3 div 2 ^ 26"
  let ?e0 = "unat h0 + ?e4 div 2 ^ 26 * 5"
  note n = final_carry_nat [OF b refl refl refl refl refl refl refl refl refl]
  have s: "unat (x + drop_bit 26 y) = unat x + q" if "unat x < 2 ^ 26" "unat y div 2 ^ 26 = q" "q \<le> 1" for x y :: u32 and q
    using unat_add32 [of x "drop_bit 26 y"] that unfolding unat_drop32 by simp
  have u2: "unat w2 = ?e2" unfolding w2_def by (rule s [OF b(3) refl n(1)])
  have u3: "unat w3 = ?e3" unfolding w3_def by (rule s [OF b(4) _ n(2)]) (simp only: u2)
  have u4: "unat w4 = ?e4" unfolding w4_def by (rule s [OF b(5) _ n(3)]) (simp only: u3)
  have u0: "unat w0 = ?e0"
  proof -
    have "unat (drop_bit 26 w4 * 5) = ?e4 div 2 ^ 26 * 5" using n(4) by (simp add: unat_word_ariths unat_drop32 u4)
    then show ?thesis unfolding w0_def using unat_add32 [of h0 "drop_bit 26 w4 * 5"] b(1) n(4) by simp
  qed
  have u1: "unat w1 = unat h1 mod 2 ^ 26 + ?e0 div 2 ^ 26"
    unfolding w1_def by (subst s) (use n(5) in \<open>simp_all add: unat_and26 u0\<close>)
  have m: "x mod 2 ^ 26 < 2 ^ 26" for x :: nat by simp
  have "canonical (final_carry h)" unfolding f canonical.simps unat_and26 u1 by (intro conjI m n(6))
  moreover have "lval h = lval (final_carry h) + P1305 * (?e4 div 2 ^ 26)"
    unfolding f unfolding h lval.simps unat_and26 u0 u1 u2 u3 u4 by (rule n(7))
  ultimately show ?thesis by (simp only: mod_mult_self2 simp_thms)
qed

text \<open>The trial subtraction on numbers: adding five carries out of the top exactly when the value is at least the prime.\<close>

lemma final_sub_nat:
  fixes a0 a1 a2 a3 a4 :: nat
  assumes "a0 < 2 ^ 26" "a1 < 2 ^ 26" "a2 < 2 ^ 26" "a3 < 2 ^ 26" "a4 < 2 ^ 26"
    and "e0 = a0 + 5" "e1 = a1 + e0 div 2 ^ 26" "e2 = a2 + e1 div 2 ^ 26" "e3 = a3 + e2 div 2 ^ 26" "e4 = a4 + e3 div 2 ^ 26"
  defines "H \<equiv> a0 + 2 ^ 26 * a1 + 2 ^ 52 * a2 + 2 ^ 78 * a3 + 2 ^ 104 * a4"
    and "G \<equiv> e0 mod 2 ^ 26 + 2 ^ 26 * (e1 mod 2 ^ 26) + 2 ^ 52 * (e2 mod 2 ^ 26) + 2 ^ 78 * (e3 mod 2 ^ 26)"
  shows "e0 div 2 ^ 26 \<le> 1" "e1 div 2 ^ 26 \<le> 1" "e2 div 2 ^ 26 \<le> 1" "e3 div 2 ^ 26 \<le> 1" "e4 \<le> 2 ^ 26"
    "e4 = 2 ^ 26 \<Longrightarrow> H mod P1305 = G" "e4 < 2 ^ 26 \<Longrightarrow> H mod P1305 = H"
proof -
  show q0: "e0 div 2 ^ 26 \<le> 1" using assms(1,6) by simp
  then have "e1 \<le> 2 ^ 26" using assms(2,7) by linarith
  then show q1: "e1 div 2 ^ 26 \<le> 1" by simp
  then have "e2 \<le> 2 ^ 26" using assms(3,8) by linarith
  then show q2: "e2 div 2 ^ 26 \<le> 1" by simp
  then have "e3 \<le> 2 ^ 26" using assms(4,9) by linarith
  then show q3: "e3 div 2 ^ 26 \<le> 1" by simp
  then show e4: "e4 \<le> 2 ^ 26" using assms(5,10) by linarith
  have g: "G < 2 ^ 104"
  proof -
    have "e0 mod 2 ^ 26 < 2 ^ 26" "e1 mod 2 ^ 26 < 2 ^ 26" "e2 mod 2 ^ 26 < 2 ^ 26" "e3 mod 2 ^ 26 < 2 ^ 26" by simp_all
    then show ?thesis unfolding G_def by simp
  qed
  have s: "H + 5 = G + 2 ^ 104 * e4"
  proof -
    define m0 m1 m2 m3 q0 q1 q2 q3 where d: "m0 = e0 mod 2 ^ 26" "m1 = e1 mod 2 ^ 26" "m2 = e2 mod 2 ^ 26" "m3 = e3 mod 2 ^ 26"
      "q0 = e0 div 2 ^ 26" "q1 = e1 div 2 ^ 26" "q2 = e2 div 2 ^ 26" "q3 = e3 div 2 ^ 26"
    have "a0 + 5 = m0 + 2 ^ 26 * q0" "a1 + q0 = m1 + 2 ^ 26 * q1" "a2 + q1 = m2 + 2 ^ 26 * q2" "a3 + q2 = m3 + 2 ^ 26 * q3" "e4 = a4 + q3"
      unfolding d using assms(6-10) by simp_all
    then show ?thesis unfolding H_def G_def d(1-4) [symmetric] by simp
  qed
  show "H mod P1305 = G" if "e4 = 2 ^ 26"
  proof -
    have "H = G + P1305" using s that unfolding P1305_def by simp
    moreover have "G < P1305" using g unfolding P1305_def by simp
    ultimately show ?thesis by simp
  qed
  show "H mod P1305 = H" if "e4 < 2 ^ 26"
  proof -
    have "2 ^ 104 * (e4 + 1) \<le> 2 ^ 104 * 2 ^ 26" using that by (intro mult_le_mono2) simp
    then have "H < P1305" using s g unfolding P1305_def by simp
    then show ?thesis by simp
  qed
qed

text \<open>The selection by mask.\<close>

lemma mask_select:
  fixes w x y :: u32
  assumes "unat w \<le> 2 ^ 26"
  defines "m \<equiv> drop_bit 31 (w - push_bit 26 1) - 1"
  shows "(x AND NOT m) OR (y AND m) = (if unat w = 2 ^ 26 then y else x)"
proof (cases "unat w = 2 ^ 26")
  case True
  then have "w = push_bit 26 1" by (intro word_eqI_unat) simp
  then have "m = -1" by (simp add: m_def)
  then show ?thesis using True by simp
next
  case False
  then have l: "unat w < 2 ^ 26" using assms(1) by simp
  have "unat (w - push_bit 26 1) = 2 ^ 32 - 2 ^ 26 + unat w"
  proof -
    have e: "w - push_bit 26 1 = w + 0xfc000000" by (simp add: diff_eq_eq)
    show ?thesis unfolding e using unat_add32 [of w "0xfc000000"] l by simp
  qed
  then have "unat (drop_bit 31 (w - push_bit 26 1)) = 1" using l by (simp add: unat_drop32)
  then have "drop_bit 31 (w - push_bit 26 1) = 1" by (intro word_eqI_unat) simp
  then have "m = 0" by (simp add: m_def)
  then show ?thesis using False by simp
qed

lemma final_sub_correct:
  assumes "canonical h"
  shows "canonical (final_sub h) \<and> lval (final_sub h) = lval h mod P1305"
proof -
  obtain h0 h1 h2 h3 h4 where h: "h = (h0, h1, h2, h3, h4)" by (cases h) auto
  have b: "unat h0 < 2 ^ 26" "unat h1 < 2 ^ 26" "unat h2 < 2 ^ 26" "unat h3 < 2 ^ 26" "unat h4 < 2 ^ 26" using assms h by simp_all
  define w0 where "w0 = h0 + 5"
  define w1 where "w1 = h1 + drop_bit 26 w0"
  define w2 where "w2 = h2 + drop_bit 26 w1"
  define w3 where "w3 = h3 + drop_bit 26 w2"
  define w4 where "w4 = h4 + drop_bit 26 w3"
  let ?e0 = "unat h0 + 5"
  let ?e1 = "unat h1 + ?e0 div 2 ^ 26"
  let ?e2 = "unat h2 + ?e1 div 2 ^ 26"
  let ?e3 = "unat h3 + ?e2 div 2 ^ 26"
  let ?e4 = "unat h4 + ?e3 div 2 ^ 26"
  note n = final_sub_nat [OF b refl refl refl refl refl]
  have s: "unat (x + drop_bit 26 y) = unat x + q" if "unat x < 2 ^ 26" "unat y div 2 ^ 26 = q" "q \<le> 1" for x y :: u32 and q
    using unat_add32 [of x "drop_bit 26 y"] that unfolding unat_drop32 by simp
  have u0: "unat w0 = ?e0" using unat_add32 [of h0 5] b(1) unfolding w0_def by simp
  have u1: "unat w1 = ?e1" unfolding w1_def by (rule s [OF b(2) _ n(1)]) (simp only: u0)
  have u2: "unat w2 = ?e2" unfolding w2_def by (rule s [OF b(3) _ n(2)]) (simp only: u1)
  have u3: "unat w3 = ?e3" unfolding w3_def by (rule s [OF b(4) _ n(3)]) (simp only: u2)
  have u4: "unat w4 = ?e4" unfolding w4_def by (rule s [OF b(5) _ n(4)]) (simp only: u3)
  have l4: "unat w4 \<le> 2 ^ 26" unfolding u4 by (rule n(5))
  let ?c = "unat w4 = 2 ^ 26"
  have f: "final_sub h = (if ?c then (w0 AND 0x03ffffff, w1 AND 0x03ffffff, w2 AND 0x03ffffff, w3 AND 0x03ffffff, w4 - push_bit 26 1) else h)"
    unfolding h final_sub.simps Let_def unfolding w0_def [symmetric] unfolding w1_def [symmetric] unfolding w2_def [symmetric]
    unfolding w3_def [symmetric] unfolding w4_def [symmetric] mask_select [OF l4] by simp
  show ?thesis
  proof (cases ?c)
    case True
    then have z: "w4 - push_bit 26 1 = 0" by (simp add: word_eqI_unat [of w4 "push_bit 26 1"])
    have "lval h mod P1305 = lval (w0 AND 0x03ffffff, w1 AND 0x03ffffff, w2 AND 0x03ffffff, w3 AND 0x03ffffff, 0)"
      unfolding h lval.simps unat_and26 u0 u1 u2 u3 n(6) [OF True [unfolded u4]] by simp
    moreover have "canonical (w0 AND 0x03ffffff, w1 AND 0x03ffffff, w2 AND 0x03ffffff, w3 AND 0x03ffffff, 0)"
      by (simp add: unat_and26)
    ultimately show ?thesis using True unfolding f z by simp
  next
    case False
    then have "?e4 < 2 ^ 26" using l4 u4 by linarith
    from n(7) [OF this] have "lval h mod P1305 = lval h" unfolding h lval.simps .
    moreover have "final_sub h = h" using False f by (simp only: if_False)
    ultimately show ?thesis using assms by (simp only: simp_thms)
  qed
qed

section \<open>The tag\<close>

lemma or_push_cut:
  fixes x y :: u32
  assumes "k \<le> 32" "unat x < 2 ^ k"
  shows "unat (x OR push_bit k y) = unat x + unat y mod 2 ^ (32 - k) * 2 ^ k"
proof -
  have "push_bit k y = push_bit k (take_bit (32 - k) y)"
    by (rule bit_word_eqI) (auto simp: bit_simps)
  moreover have t: "unat (take_bit (32 - k) y) = unat y mod 2 ^ (32 - k)"
    by (simp only: unsigned_take_bit_eq take_bit_eq_mod [where 'a = nat])
  ultimately show ?thesis using or_push [OF assms, of "take_bit (32 - k) y"] by (simp add: t)
qed

lemma U32TO8_LE_nat: "le_nat (U32TO8_LE v) = unat v" "length (U32TO8_LE v) = 4"
proof -
  have b: "unat (ucast (drop_bit k v) :: byte) = unat v div 2 ^ k mod 256" for k
    by (simp add: unsigned_ucast_eq take_bit_eq_mod unat_drop_bit_eq drop_bit_eq_div [where 'a = nat] del: drop_bit_eq_div)
  define n where "n = unat v"
  have d: "n div 2 ^ k = n div 2 ^ k mod 256 + 256 * (n div 2 ^ (k + 8))" for k
    using div_mult_mod_eq [of "n div 2 ^ k" 256] by (simp add: power_add div_mult2_eq)
  have n: "n = n mod 256 + 256 * (n div 2 ^ 8 mod 256) + 65536 * (n div 2 ^ 16 mod 256) + 16777216 * (n div 2 ^ 24)"
  proof -
    define m0 m1 m2 q1 q2 q3 where e: "m0 = n mod 256" "m1 = n div 2 ^ 8 mod 256" "m2 = n div 2 ^ 16 mod 256"
      "q1 = n div 2 ^ 8" "q2 = n div 2 ^ 16" "q3 = n div 2 ^ 24"
    have "q1 = m1 + 256 * q2" "q2 = m2 + 256 * q3" using d [of 8] d [of 16] by (simp_all add: e)
    moreover have "n = m0 + 256 * q1" by (simp add: e)
    ultimately show ?thesis unfolding e(1-3) [symmetric] e(6) [symmetric] by linarith
  qed
  have "n div 2 ^ 24 < 256" using u32_lt [of v] by (simp add: n_def)
  then show "le_nat (U32TO8_LE v) = unat v" using n b [of 0] b [of 8] b [of 16] b [of 24] by (simp add: U32TO8_LE_def n_def)
qed (simp add: U32TO8_LE_def)

text \<open>Repacking four 26-bit limbs into 32-bit words.\<close>

lemma repack_nat:
  fixes a0 a1 a2 a3 a4 :: nat
  shows "a0 + 2 ^ 26 * a1 + 2 ^ 52 * a2 + 2 ^ 78 * a3 + 2 ^ 104 * a4
    = (a0 + a1 mod 2 ^ 6 * 2 ^ 26) + 2 ^ 32 * (a1 div 2 ^ 6 + a2 mod 2 ^ 12 * 2 ^ 20) + 2 ^ 64 * (a2 div 2 ^ 12 + a3 mod 2 ^ 18 * 2 ^ 14)
      + 2 ^ 96 * (a3 div 2 ^ 18 + a4 mod 2 ^ 24 * 2 ^ 8) + 2 ^ 128 * (a4 div 2 ^ 24)"
proof -
  define m1 m2 m3 m4 q1 q2 q3 q4 where d: "m1 = a1 mod 2 ^ 6" "m2 = a2 mod 2 ^ 12" "m3 = a3 mod 2 ^ 18" "m4 = a4 mod 2 ^ 24"
    "q1 = a1 div 2 ^ 6" "q2 = a2 div 2 ^ 12" "q3 = a3 div 2 ^ 18" "q4 = a4 div 2 ^ 24"
  have "a1 = m1 + 2 ^ 6 * q1" "a2 = m2 + 2 ^ 12 * q2" "a3 = m3 + 2 ^ 18 * q3" "a4 = m4 + 2 ^ 24 * q4" unfolding d by simp_all
  then show ?thesis unfolding d [symmetric] by simp
qed

text \<open>Addition of four words with carry, on numbers.\<close>

lemma add_carry_nat:
  fixes f0 f1 f2 f3 s0 s1 s2 s3 :: nat
  assumes "t0 = f0 + s0" "t1 = f1 + s1 + t0 div 2 ^ 32" "t2 = f2 + s2 + t1 div 2 ^ 32" "t3 = f3 + s3 + t2 div 2 ^ 32"
  shows "(f0 + 2 ^ 32 * f1 + 2 ^ 64 * f2 + 2 ^ 96 * f3) + (s0 + 2 ^ 32 * s1 + 2 ^ 64 * s2 + 2 ^ 96 * s3)
    = t0 mod 2 ^ 32 + 2 ^ 32 * (t1 mod 2 ^ 32) + 2 ^ 64 * (t2 mod 2 ^ 32) + 2 ^ 96 * (t3 mod 2 ^ 32) + 2 ^ 128 * (t3 div 2 ^ 32)"
proof -
  define m0 m1 m2 m3 q0 q1 q2 q3 where d: "m0 = t0 mod 2 ^ 32" "m1 = t1 mod 2 ^ 32" "m2 = t2 mod 2 ^ 32" "m3 = t3 mod 2 ^ 32"
    "q0 = t0 div 2 ^ 32" "q1 = t1 div 2 ^ 32" "q2 = t2 div 2 ^ 32" "q3 = t3 div 2 ^ 32"
  have "f0 + s0 = m0 + 2 ^ 32 * q0" "f1 + s1 + q0 = m1 + 2 ^ 32 * q1" "f2 + s2 + q1 = m2 + 2 ^ 32 * q2" "f3 + s3 + q2 = m3 + 2 ^ 32 * q3"
    unfolding d using assms by simp_all
  then show ?thesis unfolding d [symmetric] by simp
qed

fun tag_words :: "limbs \<Rightarrow> u32 list" where
  "tag_words (h0, h1, h2, h3, h4) =
     [h0 OR push_bit 26 h1, drop_bit 6 h1 OR push_bit 20 h2, drop_bit 12 h2 OR push_bit 14 h3, drop_bit 18 h3 OR push_bit 8 h4]"

definition words_nat :: "u32 list \<Rightarrow> nat" where
  "words_nat w = unat (w ! 0) + 2 ^ 32 * unat (w ! 1) + 2 ^ 64 * unat (w ! 2) + 2 ^ 96 * unat (w ! 3)"

lemma tag_words_nat:
  assumes "canonical h"
  shows "words_nat (tag_words h) mod 2 ^ 128 = lval h mod 2 ^ 128"
proof -
  obtain h0 h1 h2 h3 h4 where h: "h = (h0, h1, h2, h3, h4)" by (cases h) auto
  have b: "unat h0 < 2 ^ 26" "unat h1 < 2 ^ 26" "unat h2 < 2 ^ 26" "unat h3 < 2 ^ 26" using assms h by simp_all
  have l: "unat (drop_bit 6 h1) < 2 ^ 20" "unat (drop_bit 12 h2) < 2 ^ 14" "unat (drop_bit 18 h3) < 2 ^ 8"
    using b by (simp_all add: unat_drop32)
  have "words_nat (tag_words h) = (unat h0 + unat h1 mod 2 ^ 6 * 2 ^ 26) + 2 ^ 32 * (unat h1 div 2 ^ 6 + unat h2 mod 2 ^ 12 * 2 ^ 20)
      + 2 ^ 64 * (unat h2 div 2 ^ 12 + unat h3 mod 2 ^ 18 * 2 ^ 14) + 2 ^ 96 * (unat h3 div 2 ^ 18 + unat h4 mod 2 ^ 24 * 2 ^ 8)"
    using or_push_cut [OF _ b(1), of h1] or_push_cut [OF _ l(1), of h2] or_push_cut [OF _ l(2), of h3] or_push_cut [OF _ l(3), of h4]
    by (simp add: words_nat_def h unat_drop32)
  then have "lval h = words_nat (tag_words h) + 2 ^ 128 * (unat h4 div 2 ^ 24)"
    unfolding h lval.simps by (simp only: repack_nat [of "unat h0" "unat h1" "unat h2" "unat h3" "unat h4"])
  then show ?thesis by (simp only: mod_mult_self2)
qed

lemma final_tag_nat: "le_nat (final_tag h s) = (words_nat (tag_words h) + words_nat s) mod 2 ^ 128" "length (final_tag h s) = 16"
proof -
  obtain h0 h1 h2 h3 h4 where h: "h = (h0, h1, h2, h3, h4)" by (cases h) auto
  obtain f0 f1 f2 f3 where f: "tag_words h = [f0, f1, f2, f3]" by (cases h) simp
  define t0 :: u64 where "t0 = ucast f0 + ucast (s ! 0)"
  define t1 :: u64 where "t1 = ucast f1 + ucast (s ! 1) + drop_bit 32 t0"
  define t2 :: u64 where "t2 = ucast f2 + ucast (s ! 2) + drop_bit 32 t1"
  define t3 :: u64 where "t3 = ucast f3 + ucast (s ! 3) + drop_bit 32 t2"
  have e: "final_tag h s = U32TO8_LE (ucast t0) @ U32TO8_LE (ucast t1) @ U32TO8_LE (ucast t2) @ U32TO8_LE (ucast t3)"
    using f unfolding h by (auto simp: t0_def t1_def t2_def t3_def Let_def)
  show "length (final_tag h s) = 16" by (simp add: e U32TO8_LE_nat(2))
  have d: "unat (drop_bit 32 t) = unat t div 2 ^ 32" "unat t div 2 ^ 32 < 2 ^ 32" for t :: u64
    using unat_drop_bit_eq [of 32 t] unat_u64_lt [of t] unfolding drop_bit_eq_div [where 'a = nat] by (simp_all add: less_mult_imp_div_less)
  have a: "unat (ucast x + ucast y + drop_bit 32 t :: u64) = unat x + unat y + unat t div 2 ^ 32" for x y :: u32 and t :: u64
    using unat_add64 [of "ucast x" "ucast y"] unat_add64 [of "ucast x + ucast y" "drop_bit 32 t"] u32_lt [of x] u32_lt [of y] d [of t]
    by (simp add: unat_ucast64)
  have u: "unat t0 = unat f0 + unat (s ! 0)" "unat t1 = unat f1 + unat (s ! 1) + unat t0 div 2 ^ 32"
    "unat t2 = unat f2 + unat (s ! 2) + unat t1 div 2 ^ 32" "unat t3 = unat f3 + unat (s ! 3) + unat t2 div 2 ^ 32"
    using unat_add64 [of "ucast f0" "ucast (s ! 0)"] u32_lt [of f0] u32_lt [of "s ! 0"]
    by (simp_all only: t1_def t2_def t3_def a) (simp add: t0_def unat_ucast64)
  have c: "unat (ucast t :: u32) = unat t mod 2 ^ 32" for t :: u64 by (simp add: unsigned_ucast_eq take_bit_eq_mod)
  have n: "le_nat (final_tag h s) = unat t0 mod 2 ^ 32 + 2 ^ 32 * (unat t1 mod 2 ^ 32) + 2 ^ 64 * (unat t2 mod 2 ^ 32) + 2 ^ 96 * (unat t3 mod 2 ^ 32)"
    unfolding e by (simp add: le_nat_append U32TO8_LE_nat c)
  have "words_nat (tag_words h) + words_nat s = le_nat (final_tag h s) + 2 ^ 128 * (unat t3 div 2 ^ 32)"
    unfolding n words_nat_def f using add_carry_nat [OF u] by simp
  moreover have "le_nat (final_tag h s) < 2 ^ 128"
    using le_nat_lt [of "final_tag h s"] \<open>length (final_tag h s) = 16\<close> by simp
  ultimately show "le_nat (final_tag h s) = (words_nat (tag_words h) + words_nat s) mod 2 ^ 128" by simp
qed

section \<open>The authenticator\<close>

lemma init_s:
  assumes "32 \<le> length key"
  shows "words_nat (po_s (poly1305_init key)) = le_nat (take 16 (drop 16 key))"
proof -
  let ?m = "take 16 (drop 16 key)"
  have l: "length ?m = 16" using assms by simp
  have u: "unat (U8TO32_LE (drop (16 + k) key)) = le_nat ?m div 2 ^ (8 * k) mod 2 ^ 32" if "k \<le> 12" for k
  proof -
    have "drop_bit 0 (U8TO32_LE (drop k ?m)) = U8TO32_LE (drop k (drop 16 key))"
      using U8TO32_LE_cut [OF that, of "drop 16 key"] assms by simp
    then show ?thesis using U8TO32_LE_window [of k ?m 0] l that by (simp add: add.commute)
  qed
  have d: "n div 2 ^ k = n div 2 ^ k mod 2 ^ 32 + 2 ^ 32 * (n div 2 ^ (k + 32))" for n k :: nat
    by (simp add: power_add div_mult2_eq)
  define n m0 m1 m2 q1 q2 q3 where e: "n = le_nat ?m" "m0 = n mod 2 ^ 32" "m1 = n div 2 ^ 32 mod 2 ^ 32" "m2 = n div 2 ^ 64 mod 2 ^ 32"
      "q1 = n div 2 ^ 32" "q2 = n div 2 ^ 64" "q3 = n div 2 ^ 96"
  have "n < 2 ^ 128" using le_nat_lt [of ?m] l by (simp add: e)
  then have "q3 < 2 ^ 32" by (simp add: e less_mult_imp_div_less)
  then have "words_nat (po_s (poly1305_init key)) = m0 + 2 ^ 32 * m1 + 2 ^ 64 * m2 + 2 ^ 96 * q3"
    using u [of 0] u [of 4] u [of 8] u [of 12] by (simp add: words_nat_def poly1305_init_def e)
  moreover have "q1 = m1 + 2 ^ 32 * q2" "q2 = m2 + 2 ^ 32 * q3" using d [of n 32] d [of n 64] by (simp_all add: e)
  moreover have "n = m0 + 2 ^ 32 * q1" by (simp add: e)
  ultimately show ?thesis unfolding e(1) [symmetric] by simp
qed

text \<open>The accumulator in limbs stands for the accumulator of the standard.\<close>

definition acc_rel :: "limbs \<Rightarrow> limbs \<times> limbs \<Rightarrow> nat \<Rightarrow> bool" where
  "acc_rel r s acc \<longleftrightarrow> fst s = r \<and> reduced (snd s) \<and> lval (snd s) mod P1305 = acc"

lemma step_mod: "(a mod P1305 + x) * r mod P1305 = (a + x) * r mod P1305"
  by (metis mod_add_left_eq mod_mult_left_eq)

lemma acc_rel_step:
  assumes "acc_rel r s acc" "bounded (2 ^ 26 - 1) r" "length b = 16"
  shows "acc_rel r (poly_blk s b) (poly_step (lval r) acc b)"
proof -
  have s: "fst s = r" "reduced (snd s)" "acc = lval (snd s) mod P1305" using assms(1) by (simp_all add: acc_rel_def)
  have "le_nat (b @ [1]) = le_nat b + 2 ^ 128" using assms(3) by (simp add: le_nat_append)
  then show ?thesis using poly_block_correct [OF s(2) assms(2,3), of True] s
    by (simp add: acc_rel_def poly_blk_def poly_step_def step_mod)
qed

lemma acc_rel_last:
  assumes "acc_rel r (r, h) acc" "bounded (2 ^ 26 - 1) r" "b \<noteq> []" "length b < 16"
  shows "acc_rel r (r, poly1305_blocks r h (b @ [1] @ replicate (16 - (length b + 1)) 0) False) (poly_step (lval r) acc b)"
proof -
  let ?p = "b @ [1] @ replicate (16 - (length b + 1)) 0"
  have l: "length ?p = 16" using assms(4) by simp
  have z: "le_nat (replicate n 0) = 0" for n by (induction n) simp_all
  have n: "le_nat (b @ [1] @ replicate k 0) = le_nat (b @ [1])" for k by (simp add: le_nat_append z)
  have "poly1305_blocks r h ?p False = poly_block r False h ?p" using l by (simp add: poly1305_blocks.simps)
  moreover have "reduced h" "acc = lval h mod P1305" using assms(1) by (simp_all add: acc_rel_def)
  ultimately show ?thesis using poly_block_correct [OF _ assms(2) l, of h False]
    by (simp add: acc_rel_def poly_step_def step_mod n del: append.simps)
qed

lemma finish_nat:
  assumes "acc_rel (po_r c) (poly_st c) acc" "bounded (2 ^ 26 - 1) (po_r c)" "length (po_buf c) < 16"
  shows "length (poly1305_finish c) = 16 \<and> le_nat (poly1305_finish c)
    = ((if po_buf c = [] then acc else poly_step (lval (po_r c)) acc (po_buf c)) + words_nat (po_s c)) mod 2 ^ 128"
proof -
  let ?h = "if po_buf c = [] then po_h c
    else poly1305_blocks (po_r c) (po_h c) (po_buf c @ [1] @ replicate (16 - (length (po_buf c) + 1)) 0) False"
  let ?acc = "if po_buf c = [] then acc else poly_step (lval (po_r c)) acc (po_buf c)"
  have f: "poly1305_finish c = final_tag (final_sub (final_carry ?h)) (po_s c)" by (simp add: poly1305_finish_def Let_def)
  have "acc_rel (po_r c) (po_r c, ?h) ?acc"
    using assms(1) acc_rel_last [OF _ assms(2) _ assms(3), of "po_h c" acc] by (simp add: poly_st_def)
  then have h: "reduced ?h" "lval ?h mod P1305 = ?acc" by (simp_all add: acc_rel_def)
  note c = final_carry_correct [OF h(1)]
  note s = final_sub_correct [OF conjunct1 [OF c]]
  have "lval (final_sub (final_carry ?h)) = ?acc" using s c h(2) by simp
  then have "words_nat (tag_words (final_sub (final_carry ?h))) mod 2 ^ 128 = ?acc mod 2 ^ 128"
    using tag_words_nat [OF conjunct1 [OF s]] by simp
  then show ?thesis unfolding f final_tag_nat(1) using final_tag_nat(2) by (metis mod_add_left_eq)
qed

lemma poly1305_pieces:
  assumes "32 \<le> length key"
  shows "length (poly1305_finish (foldl poly1305_update (poly1305_init key) ds)) = 16
    \<and> le_nat (poly1305_finish (foldl poly1305_update (poly1305_init key) ds)) = poly1305_spec key (concat ds)"
proof -
  let ?i = "poly1305_init key" and ?c = "foldl poly1305_update (poly1305_init key) ds"
  let ?r = "po_r ?i"
  have k: "16 \<le> length key" using assms by simp
  have b: "po_buf ?i = []" "length (po_buf ?i) < 16" "poly_st ?i = (?r, (0, 0, 0, 0, 0))" by (simp_all add: poly1305_init_def poly_st_def)
  note a = poly.upd_all [OF b(2), of ds, unfolded b(1,3) append_Nil]
  obtain acc rest where e: "absorb 16 (poly_step (lval ?r)) 0 (concat ds) = (acc, rest)" by (cases "absorb 16 (poly_step (lval ?r)) 0 (concat ds)") auto
  have "acc_rel ?r (?r, (0, 0, 0, 0, 0)) 0" by (simp add: acc_rel_def P1305_def)
  moreover have "acc_rel ?r (poly_blk s b) (poly_step (lval ?r) t b)" if "acc_rel ?r s t" "length b = 16" for s t b
    using that(1) init_key(2) [OF k] that(2) by (rule acc_rel_step)
  ultimately have "acc_rel ?r (fst (absorb 16 poly_blk (?r, (0, 0, 0, 0, 0)) (concat ds))) (fst (absorb 16 (poly_step (lval ?r)) 0 (concat ds)))
    \<and> snd (absorb 16 poly_blk (?r, (0, 0, 0, 0, 0)) (concat ds)) = snd (absorb 16 (poly_step (lval ?r)) 0 (concat ds))"
    by (rule absorb_rel)
  then have r: "acc_rel ?r (poly_st ?c) acc" "po_buf ?c = rest" by (simp_all add: e a [symmetric])
  then have "po_r ?c = ?r" by (simp add: acc_rel_def poly_st_def)
  then have "length (poly1305_finish ?c) = 16 \<and> le_nat (poly1305_finish ?c)
    = ((if rest = [] then acc else poly_step (lval ?r) acc rest) + words_nat (po_s ?i)) mod 2 ^ 128"
    using finish_nat [of ?c acc] r init_key(2) [OF k] poly.upd_all_pend [OF b(2), of ds] by (simp add: poly_update_all_s)
  then show ?thesis using e by (simp add: poly1305_spec_def init_key(1) [OF k] init_s [OF assms])
qed

lemma le_nat_inj: "length xs = length ys \<Longrightarrow> le_nat xs = le_nat ys \<Longrightarrow> xs = ys"
proof (induction xs ys rule: list_induct2)
  case (Cons x xs y ys)
  have d: "(unat z + 256 * n) mod 256 = unat z" "(unat z + 256 * n) div 256 = n" for z :: byte and n by simp_all
  have "unat x = unat y" "le_nat xs = le_nat ys"
    using d [of x "le_nat xs"] d [of y "le_nat ys"] Cons.prems unfolding le_nat.simps by metis+
  then show ?case using Cons.IH by (simp add: word_eqI_unat)
qed simp

definition le_bytes :: "nat \<Rightarrow> nat \<Rightarrow> bytes" where
  "le_bytes n v = map (\<lambda>i. word_of_nat (v div 256 ^ i)) [0..<n]"

lemma le_bytes_nat: "v < 256 ^ n \<Longrightarrow> le_nat (le_bytes n v) = v"
proof (induction n arbitrary: v)
  case (Suc n)
  have "le_bytes (Suc n) v = word_of_nat v # le_bytes n (v div 256)"
    by (simp add: le_bytes_def upt_conv_Cons map_Suc_upt [symmetric] div_mult2_eq del: upt_Suc)
  moreover have "v div 256 < 256 ^ n" using Suc.prems by (simp add: less_mult_imp_div_less mult.commute)
  ultimately show ?case using Suc.IH by (simp add: unat_of_nat)
qed (simp add: le_bytes_def)

text \<open>
  C13: The limb arithmetic of Poly1305 is the one of RFC 8439. For every key and every message, fed to the
  authenticator in any pieces, the tag is the sixteen-byte little-endian encoding of the number the standard defines:
  the clamped polynomial in the message blocks modulo 2 to the 130 minus 5, plus the second half of the key, modulo 2
  to the 128.
\<close>

theorem poly1305_rfc:
  assumes "32 \<le> length key"
  shows "poly1305_finish (foldl poly1305_update (poly1305_init key) ds) = le_bytes 16 (poly1305_spec key (concat ds))"
proof (rule le_nat_inj)
  have "poly1305_spec key (concat ds) < 256 ^ 16" by (simp add: poly1305_spec_def Let_def split_beta)
  then show "le_nat (poly1305_finish (foldl poly1305_update (poly1305_init key) ds)) = le_nat (le_bytes 16 (poly1305_spec key (concat ds)))"
    using poly1305_pieces [OF assms, of ds] by (simp add: le_bytes_nat)
qed (use poly1305_pieces [OF assms, of ds] in \<open>simp add: le_bytes_def\<close>)

theorem poly1305_rfc_witness:
  "poly1305 (replicate 32 1) [7, 8, 9] = le_bytes 16 (poly1305_spec (replicate 32 1) [7, 8, 9])"
  using poly1305_rfc [of "replicate 32 1" "[[7, 8, 9]]"] by (simp add: poly1305_def)

end
