(* ===== verification/Sha256.thy ===== *)
theory Sha256
  imports Block_Stream
begin

text \<open>
  SHA-256: \<open>userspace/crypto/sha256.c\<close>.  The compression function is the portable one, to which the dispatch
  pointer is statically initialised; the versions for SHA instructions are not modelled.  The buffer of a
  context is the list of its \<open>buf_len\<close> valid bytes.
\<close>

section \<open>Definitions\<close>

definition K :: "u32 list" where
  "K = concat
    [[0x428a2f98, 0x71374491, 0xb5c0fbcf, 0xe9b5dba5],
     [0x3956c25b, 0x59f111f1, 0x923f82a4, 0xab1c5ed5],
     [0xd807aa98, 0x12835b01, 0x243185be, 0x550c7dc3],
     [0x72be5d74, 0x80deb1fe, 0x9bdc06a7, 0xc19bf174],
     [0xe49b69c1, 0xefbe4786, 0x0fc19dc6, 0x240ca1cc],
     [0x2de92c6f, 0x4a7484aa, 0x5cb0a9dc, 0x76f988da],
     [0x983e5152, 0xa831c66d, 0xb00327c8, 0xbf597fc7],
     [0xc6e00bf3, 0xd5a79147, 0x06ca6351, 0x14292967],
     [0x27b70a85, 0x2e1b2138, 0x4d2c6dfc, 0x53380d13],
     [0x650a7354, 0x766a0abb, 0x81c2c92e, 0x92722c85],
     [0xa2bfe8a1, 0xa81a664b, 0xc24b8b70, 0xc76c51a3],
     [0xd192e819, 0xd6990624, 0xf40e3585, 0x106aa070],
     [0x19a4c116, 0x1e376c08, 0x2748774c, 0x34b0bcb5],
     [0x391c0cb3, 0x4ed8aa4a, 0x5b9cca4f, 0x682e6ff3],
     [0x748f82ee, 0x78a5636f, 0x84c87814, 0x8cc70208],
     [0x90befffa, 0xa4506ceb, 0xbef9a3f7, 0xc67178f2]]"

definition rotr32 :: "u32 \<Rightarrow> nat \<Rightarrow> u32" where
  "rotr32 x n = drop_bit n x OR push_bit (32 - n) x"

definition big_sigma0 :: "u32 \<Rightarrow> u32" where
  "big_sigma0 x = rotr32 x 2 XOR rotr32 x 13 XOR rotr32 x 22"

definition big_sigma1 :: "u32 \<Rightarrow> u32" where
  "big_sigma1 x = rotr32 x 6 XOR rotr32 x 11 XOR rotr32 x 25"

definition small_sigma0 :: "u32 \<Rightarrow> u32" where
  "small_sigma0 x = rotr32 x 7 XOR rotr32 x 18 XOR drop_bit 3 x"

definition small_sigma1 :: "u32 \<Rightarrow> u32" where
  "small_sigma1 x = rotr32 x 17 XOR rotr32 x 19 XOR drop_bit 10 x"

definition Ch :: "u32 \<Rightarrow> u32 \<Rightarrow> u32 \<Rightarrow> u32" where
  "Ch x y z = (x AND y) XOR (NOT x AND z)"

definition Maj :: "u32 \<Rightarrow> u32 \<Rightarrow> u32 \<Rightarrow> u32" where
  "Maj x y z = (x AND y) XOR (x AND z) XOR (y AND z)"

definition load_be32 :: "bytes \<Rightarrow> u32" where
  "load_be32 p = push_bit 24 (ucast (p ! 0)) OR push_bit 16 (ucast (p ! 1)) OR push_bit 8 (ucast (p ! 2)) OR ucast (p ! 3)"

definition store_be32 :: "u32 \<Rightarrow> bytes" where
  "store_be32 v = [u8 (drop_bit 24 v), u8 (drop_bit 16 v), u8 (drop_bit 8 v), u8 v]"

definition schedule :: "bytes \<Rightarrow> u32 list" where
  "schedule block =
     foldl (\<lambda>w i. w @ [small_sigma1 (w ! (i - 2)) + w ! (i - 7) + small_sigma0 (w ! (i - 15)) + w ! (i - 16)])
       (map (\<lambda>i. load_be32 (drop (i * 4) block)) [0..<16]) [16..<64]"

fun sha_round :: "u32 list \<Rightarrow> u32 \<times> u32 \<Rightarrow> u32 list" where
  "sha_round [a, b, c, d, e, f, g, h] (k, w) =
     (let t1 = h + big_sigma1 e + Ch e f g + k + w;
          t2 = big_sigma0 a + Maj a b c
      in [t1 + t2, a, b, c, d + t1, e, f, g])"
| "sha_round s kw = s"

definition compress_one :: "u32 list \<Rightarrow> bytes \<Rightarrow> u32 list" where
  "compress_one state block = map2 (+) state (foldl sha_round state (zip K (schedule block)))"

definition SHA256_BLOCK_LEN :: nat where "SHA256_BLOCK_LEN = 64"
definition SHA256_DIGEST_LEN :: nat where "SHA256_DIGEST_LEN = 32"

definition sha256_compress_scalar :: "u32 list \<Rightarrow> bytes \<Rightarrow> nat \<Rightarrow> u32 list" where
  "sha256_compress_scalar state blocks nblocks = block_loop SHA256_BLOCK_LEN compress_one nblocks state blocks"

record sha256_ctx =
  sh_state :: "u32 list"
  bitlen :: u64
  sh_buf :: bytes

definition sha256_init :: sha256_ctx where
  "sha256_init = \<lparr>sh_state = [0x6a09e667, 0xbb67ae85, 0x3c6ef372, 0xa54ff53a, 0x510e527f, 0x9b05688c, 0x1f83d9ab, 0x5be0cd19],
     bitlen = 0, sh_buf = []\<rparr>"

text \<open>The second half of an update: whole blocks straight from the input, and the rest into the empty buffer.\<close>

definition sha256_bulk :: "sha256_ctx \<Rightarrow> bytes \<Rightarrow> sha256_ctx" where
  "sha256_bulk c p =
     (let nblocks = length p div SHA256_BLOCK_LEN;
          c = (if length p \<ge> SHA256_BLOCK_LEN
               then c\<lparr>sh_state := sha256_compress_scalar (sh_state c) p nblocks\<rparr> else c);
          p = drop (nblocks * SHA256_BLOCK_LEN) p
      in if p \<noteq> [] then c\<lparr>sh_buf := p\<rparr> else c)"

definition sha256_update :: "sha256_ctx \<Rightarrow> bytes \<Rightarrow> sha256_ctx" where
  "sha256_update c p =
     (let c = c\<lparr>bitlen := bitlen c + word_of_nat (length p) * 8\<rparr> in
      if sh_buf c \<noteq> [] then
        let need = SHA256_BLOCK_LEN - length (sh_buf c) in
        if length p < need then c\<lparr>sh_buf := sh_buf c @ p\<rparr>
        else sha256_bulk (c\<lparr>sh_state := sha256_compress_scalar (sh_state c) (sh_buf c @ take need p) 1, sh_buf := []\<rparr>)
               (drop need p)
      else sha256_bulk c p)"

text \<open>The digest; the context is wiped.\<close>

definition be64 :: "u64 \<Rightarrow> bytes" where
  "be64 v = map (\<lambda>i. u8 (drop_bit (56 - i * 8) v)) [0..<8]"

definition sha256_final :: "sha256_ctx \<Rightarrow> bytes" where
  "sha256_final c =
     (let buf = sh_buf c @ [0x80];
          (state, buf) =
            (if length buf > 56
             then (sha256_compress_scalar (sh_state c) (buf @ replicate (SHA256_BLOCK_LEN - length buf) 0) 1, [])
             else (sh_state c, buf));
          buf = buf @ replicate (56 - length buf) 0 @ be64 (bitlen c);
          state = sha256_compress_scalar state buf 1
      in concat (map store_be32 state))"

definition sha256 :: "bytes \<Rightarrow> bytes" where
  "sha256 data = sha256_final (sha256_update sha256_init data)"

section \<open>The round constants\<close>

text \<open>The table holds what its comment says: the first 32 bits of the fractional parts of the cube roots of the primes below 312.\<close>

definition first_primes :: "nat list" where
  "first_primes =
     [2, 3, 5, 7, 11, 13, 17, 19, 23, 29, 31, 37, 41, 43, 47, 53, 59, 61, 67, 71, 73, 79, 83, 89, 97, 101, 103, 107, 109, 113, 127, 131,
      137, 139, 149, 151, 157, 163, 167, 173, 179, 181, 191, 193, 197, 199, 211, 223, 227, 229, 233, 239, 241, 251, 257, 263, 269, 271, 277, 281, 283, 293, 307, 311]"

definition cbrt_floor :: "nat \<Rightarrow> nat" where
  "cbrt_floor n = (if n < 8 then 1 else if n < 27 then 2 else if n < 64 then 3 else if n < 125 then 4 else if n < 216 then 5 else 6)"

definition root_fraction :: "nat \<Rightarrow> nat \<Rightarrow> bool" where
  "root_fraction p k = ((cbrt_floor p * 2 ^ 32 + k) ^ 3 \<le> p * 2 ^ 96 \<and> p * 2 ^ 96 < (cbrt_floor p * 2 ^ 32 + k + 1) ^ 3)"

lemma K_cube_roots: "list_all2 root_fraction first_primes (map unat K)"
  by (simp add: K_def first_primes_def root_fraction_def cbrt_floor_def)

lemma first_primes_sieve: "filter (\<lambda>p. list_all (\<lambda>d. p mod d \<noteq> 0) [2, 3, 5, 7, 11, 13, 17] \<or> p \<in> set [2, 3, 5, 7, 11, 13, 17]) [2..<312] = first_primes"
  by (simp add: first_primes_def upt_rec)

section \<open>Any pieces\<close>

lemma compress_scalar_one: "length b = 64 \<Longrightarrow> sha256_compress_scalar s b 1 = compress_one s b"
  by (simp add: sha256_compress_scalar_def SHA256_BLOCK_LEN_def)

lemma sha256_bulk_absorb:
  assumes "sh_buf c = []"
  shows "(sh_state (sha256_bulk c p), sh_buf (sha256_bulk c p)) = absorb 64 compress_one (sh_state c) p"
proof -
  let ?k = "length p div 64"
  have "absorb 64 compress_one (sh_state c) p = absorb 64 compress_one (block_loop 64 compress_one ?k (sh_state c) p) (drop (?k * 64) p)"
    by (rule absorb_blocks) simp_all
  also have "\<dots> = (block_loop 64 compress_one ?k (sh_state c) p, drop (?k * 64) p)"
    by (rule absorb_short) (simp add: minus_div_mult_eq_mod)
  finally show ?thesis
    using assms by (simp add: sha256_bulk_def Let_def SHA256_BLOCK_LEN_def sha256_compress_scalar_def)
qed

lemma sha256_update_absorb:
  assumes "length (sh_buf c) < 64"
  shows "(sh_state (sha256_update c d), sh_buf (sha256_update c d)) = absorb 64 compress_one (sh_state c) (sh_buf c @ d)"
proof (cases "sh_buf c = []")
  case True
  then show ?thesis using sha256_bulk_absorb [of "c\<lparr>bitlen := bitlen c + word_of_nat (length d) * 8\<rparr>" d]
    by (simp add: sha256_update_def Let_def)
next
  case b: False
  let ?need = "64 - length (sh_buf c)"
  show ?thesis
  proof (cases "length d < ?need")
    case True
    then have "length (sh_buf c @ d) < 64" using assms by simp
    from absorb_short [OF this, of compress_one "sh_state c"] show ?thesis using True b
      by (simp add: sha256_update_def Let_def SHA256_BLOCK_LEN_def)
  next
    case False
    have l: "length (sh_buf c @ take ?need d) = 64" using False b assms by simp
    let ?c = "c\<lparr>bitlen := bitlen c + word_of_nat (length d) * 8, sh_state := compress_one (sh_state c) (sh_buf c @ take ?need d), sh_buf := []\<rparr>"
    have "sha256_update c d = sha256_bulk ?c (drop ?need d)"
      using False b compress_scalar_one [OF l, of "sh_state c"] by (simp add: sha256_update_def Let_def SHA256_BLOCK_LEN_def)
    then have "(sh_state (sha256_update c d), sh_buf (sha256_update c d)) = absorb 64 compress_one (sh_state ?c) (drop ?need d)"
      using sha256_bulk_absorb [of ?c "drop ?need d"] by simp
    then show ?thesis using absorb_block [OF _ l, of compress_one "sh_state c" "drop ?need d"] by simp
  qed
qed

interpretation sha: block_stream 64 compress_one sh_state sh_buf sha256_update
  by unfold_locales (simp, rule sha256_update_absorb)

lemma sha256_update_bitlen: "bitlen (sha256_update c d) = bitlen c + word_of_nat (8 * length d)"
proof -
  have "bitlen (sha256_bulk c p) = bitlen c" for c p by (simp add: sha256_bulk_def Let_def)
  then show ?thesis by (simp add: sha256_update_def Let_def mult.commute)
qed

lemma bitlen_all: "bitlen (foldl sha256_update c ds) = bitlen c + word_of_nat (8 * length (concat ds))"
  by (induction ds arbitrary: c) (simp_all add: sha256_update_bitlen algebra_simps)

section \<open>The standard\<close>

text \<open>The padded message of FIPS 180-4 and the hash of it, block by block.\<close>

definition sha256_pad :: "bytes \<Rightarrow> bytes" where
  "sha256_pad msg = msg @ 0x80 # replicate ((119 - length msg mod 64) mod 64) 0 @ be64 (word_of_nat (8 * length msg))"

definition sha256_spec :: "bytes \<Rightarrow> bytes" where
  "sha256_spec msg = concat (map store_be32 (fst (absorb 64 compress_one (sh_state sha256_init) (sha256_pad msg))))"

lemma be64_length [simp]: "length (be64 v) = 8"
  by (simp add: be64_def)

lemma pad_length: "length (sha256_pad msg) mod 64 = 0"
proof -
  let ?r = "length msg mod 64"
  have "length (sha256_pad msg) = length msg + 9 + (119 - ?r) mod 64" by (simp add: sha256_pad_def)
  moreover have "(?r + 9 + (119 - ?r) mod 64) mod 64 = 0"
  proof -
    have r: "?r < 64" by simp
    have "(?r + 9 + (119 - ?r) mod 64) mod 64 = (?r + 9 + (119 - ?r)) mod 64" by (rule mod_add_right_eq)
    also have "?r + 9 + (119 - ?r) = 128" using r by simp
    finally show ?thesis by simp
  qed
  ultimately show ?thesis by (metis mod_add_left_eq)
qed

lemma sha256_final_absorb:
  assumes "length (sh_buf c) < 64"
  shows "sha256_final c = concat (map store_be32 (fst (absorb 64 compress_one (sh_state c)
    (sh_buf c @ 0x80 # replicate ((119 - length (sh_buf c)) mod 64) 0 @ be64 (bitlen c)))))"
proof (cases "length (sh_buf c) < 56")
  case True
  have "(119 - length (sh_buf c)) mod 64 = (64 + (55 - length (sh_buf c))) mod 64" using True by simp
  also have "\<dots> = 55 - length (sh_buf c)" using True by (simp only: mod_add_self1) simp
  finally have z: "(119 - length (sh_buf c)) mod 64 = 55 - length (sh_buf c)" .
  let ?b = "sh_buf c @ 0x80 # replicate (55 - length (sh_buf c)) 0 @ be64 (bitlen c)"
  have l: "length ?b = 64" using True by simp
  have "sha256_final c = concat (map store_be32 (sha256_compress_scalar (sh_state c) ?b 1))"
    using True by (simp add: sha256_final_def Let_def)
  then show ?thesis unfolding z compress_scalar_one [OF l] using absorb_block [of 64 ?b compress_one "sh_state c" "[]"] l
    by (simp add: absorb_short)
next
  case False
  have z: "(119 - length (sh_buf c)) mod 64 = (63 - length (sh_buf c)) + 56" using False assms by simp
  let ?a = "sh_buf c @ 0x80 # replicate (63 - length (sh_buf c)) 0" and ?b = "replicate 56 0 @ be64 (bitlen c)"
  have l: "length ?a = 64" "length ?b = 64" using assms by simp_all
  have "sha256_final c = concat (map store_be32 (sha256_compress_scalar (sha256_compress_scalar (sh_state c) ?a 1) ?b 1))"
    using False by (simp add: sha256_final_def Let_def SHA256_BLOCK_LEN_def)
  moreover have "sh_buf c @ 0x80 # replicate ((63 - length (sh_buf c)) + 56) 0 @ be64 (bitlen c) = ?a @ ?b" by (simp add: replicate_add)
  ultimately show ?thesis unfolding z compress_scalar_one [OF l(1)] compress_scalar_one [OF l(2)]
    using absorb_block [of 64 ?a compress_one "sh_state c" ?b] absorb_block [of 64 ?b compress_one _ "[]"] l
    by (simp add: absorb_short)
qed

text \<open>
  The streaming hash is SHA-256. In whatever pieces a message is fed to the update function, empty and
  block-crossing pieces included, the final digest is the one of the standard: the compression function folded
  over the message with its padding and its bit length.
\<close>

lemma sha256_stream: "sha256_final (foldl sha256_update sha256_init ds) = sha256_spec (concat ds)"
proof -
  let ?c = "foldl sha256_update sha256_init ds" and ?m = "concat ds"
  have i: "length (sh_buf sha256_init) < 64" "sh_buf sha256_init = []" by (simp_all add: sha256_init_def)
  note a = sha.upd_all [OF i(1), of ds, unfolded i(2) append_Nil]
  note p = sha.upd_all_pend [OF i(1), of ds]
  have b: "bitlen ?c = word_of_nat (8 * length ?m)" by (simp add: bitlen_all sha256_init_def)
  have "length (snd (absorb 64 compress_one s xs)) = length xs mod 64" for s xs
    by (rule absorb_rest_length) simp
  from this [of "sh_state sha256_init" ?m] have l: "length (sh_buf ?c) = length ?m mod 64" by (simp add: a [symmetric])
  have "absorb 64 compress_one (sh_state sha256_init) (sha256_pad ?m) =
    absorb 64 compress_one (sh_state ?c) (sh_buf ?c @ 0x80 # replicate ((119 - length (sh_buf ?c)) mod 64) 0 @ be64 (bitlen ?c))"
    unfolding sha256_pad_def b l
    by (subst absorb_append) (simp_all add: a [symmetric])
  then show ?thesis unfolding sha256_final_absorb [OF p] sha256_spec_def by simp
qed

section \<open>Lengths\<close>

lemma sha_round_length: "length (sha_round s kw) = length s"
  by (induction s kw rule: sha_round.induct) (simp_all add: Let_def)

lemma sha_rounds_length: "length (foldl sha_round s kws) = length s"
  by (induction kws arbitrary: s) (simp_all add: sha_round_length)

lemma compress_one_length [simp]: "length (compress_one s b) = length s"
  by (simp add: compress_one_def sha_rounds_length)

lemma absorb_length: "length (fst (absorb n compress_one s xs)) = length s"
proof (induction n compress_one s xs rule: absorb.induct)
  case (1 n s xs)
  then show ?case by (subst absorb.simps) (auto simp del: One_nat_def)
qed

lemma sha256_spec_length [simp]: "length (sha256_spec msg) = 32"
proof -
  have "length (concat (map store_be32 ws)) = 4 * length ws" for ws by (induction ws) (simp_all add: store_be32_def)
  then show ?thesis by (simp add: sha256_spec_def absorb_length sha256_init_def)
qed

lemma sha256_eq: "sha256 data = sha256_spec data"
  using sha256_stream [of "[data]"] by (simp add: sha256_def)

end
