(* ===== verification/Hkdf.thy ===== *)
theory Hkdf
  imports Sha256
begin

text \<open>
  HMAC-SHA256 and HKDF: \<open>userspace/crypto/hmac.c\<close> and \<open>userspace/crypto/hkdf.c\<close>, with the definitions of
  RFC 2104 and RFC 5869 they implement. Wiping temporaries has no effect on the results and is left out.
\<close>

section \<open>HMAC\<close>

record hmac_sha256_ctx =
  hm_inner :: sha256_ctx
  hm_outer :: sha256_ctx

definition kprime :: "bytes \<Rightarrow> bytes" where
  "kprime key =
     (if length key > SHA256_BLOCK_LEN
      then sha256 key @ replicate (SHA256_BLOCK_LEN - SHA256_DIGEST_LEN) 0
      else key @ replicate (SHA256_BLOCK_LEN - length key) 0)"

definition hmac_sha256_init :: "bytes \<Rightarrow> hmac_sha256_ctx" where
  "hmac_sha256_init key =
     (let ipad = map (\<lambda>b. b XOR 0x36) (kprime key); opad = map (\<lambda>b. b XOR 0x5c) (kprime key)
      in \<lparr>hm_inner = sha256_update sha256_init ipad, hm_outer = sha256_update sha256_init opad\<rparr>)"

definition hmac_sha256_update :: "hmac_sha256_ctx \<Rightarrow> bytes \<Rightarrow> hmac_sha256_ctx" where
  "hmac_sha256_update h data = h\<lparr>hm_inner := sha256_update (hm_inner h) data\<rparr>"

definition hmac_sha256_final :: "hmac_sha256_ctx \<Rightarrow> bytes" where
  "hmac_sha256_final h =
     (let inner_tag = sha256_final (hm_inner h) in sha256_final (sha256_update (hm_outer h) inner_tag))"

definition hmac_sha256 :: "bytes \<Rightarrow> bytes \<Rightarrow> bytes" where
  "hmac_sha256 key data = hmac_sha256_final (hmac_sha256_update (hmac_sha256_init key) data)"

text \<open>RFC 2104 over the hash of the standard.\<close>

definition hmac_spec :: "bytes \<Rightarrow> bytes \<Rightarrow> bytes" where
  "hmac_spec key msg =
     (let k = (if length key > 64 then sha256_spec key else key);
          k0 = k @ replicate (64 - length k) 0
      in sha256_spec (map (\<lambda>b. b XOR 0x5c) k0 @ sha256_spec (map (\<lambda>b. b XOR 0x36) k0 @ msg)))"

lemma hmac_inner_all: "foldl hmac_sha256_update h ds = h\<lparr>hm_inner := foldl sha256_update (hm_inner h) ds\<rparr>"
  by (induction ds arbitrary: h) (simp_all add: hmac_sha256_update_def)

lemma kprime_spec: "kprime key = (let k = (if length key > 64 then sha256_spec key else key) in k @ replicate (64 - length k) 0)"
  by (simp add: kprime_def sha256_eq Let_def SHA256_BLOCK_LEN_def SHA256_DIGEST_LEN_def)

lemma hmac_pieces: "hmac_sha256_final (foldl hmac_sha256_update (hmac_sha256_init key) ds) = hmac_spec key (concat ds)"
proof -
  let ?i = "map (\<lambda>b. b XOR 0x36) (kprime key)" and ?o = "map (\<lambda>b. b XOR 0x5c) (kprime key)"
  let ?t = "sha256_final (foldl sha256_update (sha256_update sha256_init ?i) ds)"
  have "hmac_sha256_final (foldl hmac_sha256_update (hmac_sha256_init key) ds) = sha256_final (sha256_update (sha256_update sha256_init ?o) ?t)"
    by (simp add: hmac_inner_all hmac_sha256_final_def hmac_sha256_init_def Let_def)
  also have "\<dots> = sha256_spec (?o @ ?t)" using sha256_stream [of "[?o, ?t]"] by simp
  also have "?t = sha256_spec (?i @ concat ds)" using sha256_stream [of "?i # ds"] by simp
  finally show ?thesis by (simp add: hmac_spec_def kprime_spec Let_def)
qed

lemma hmac_eq: "hmac_sha256 key data = hmac_spec key data"
  using hmac_pieces [of key "[data]"] by (simp add: hmac_sha256_def)

lemma hmac_spec_length [simp]: "length (hmac_spec key msg) = 32"
  by (simp add: hmac_spec_def Let_def)

section \<open>HKDF\<close>

definition hkdf_extract :: "bytes option \<Rightarrow> bytes \<Rightarrow> bytes" where
  "hkdf_extract salt ikm =
     hmac_sha256 (case salt of None \<Rightarrow> replicate SHA256_DIGEST_LEN 0
                  | Some s \<Rightarrow> if s = [] then replicate SHA256_DIGEST_LEN 0 else s) ikm"

text \<open>One output block, from the previous one and the counter.\<close>

definition hkdf_block :: "bytes \<Rightarrow> bytes \<Rightarrow> bytes \<Rightarrow> byte \<Rightarrow> bytes" where
  "hkdf_block prk info T counter =
     (let h = hmac_sha256_init prk;
          h = (if T \<noteq> [] then hmac_sha256_update h T else h);
          h = (if info \<noteq> [] then hmac_sha256_update h info else h);
          h = hmac_sha256_update h [counter]
      in hmac_sha256_final h)"

lemma hkdf_block_spec: "hkdf_block prk info T counter = hmac_spec prk (T @ info @ [counter])"
proof -
  have "hkdf_block prk info T counter =
      hmac_sha256_final (foldl hmac_sha256_update (hmac_sha256_init prk)
        ((if T \<noteq> [] then [T] else []) @ (if info \<noteq> [] then [info] else []) @ [[counter]]))"
    by (simp add: hkdf_block_def Let_def)
  then show ?thesis unfolding hmac_pieces by simp
qed

function expand_loop :: "bytes \<Rightarrow> bytes \<Rightarrow> nat \<Rightarrow> bytes \<Rightarrow> byte \<Rightarrow> bytes \<Rightarrow> bytes" where
  "expand_loop prk info out_len T counter out =
     (if length out < out_len then
        let T = hkdf_block prk info T counter;
            n = (if out_len - length out > SHA256_DIGEST_LEN then SHA256_DIGEST_LEN else out_len - length out)
        in expand_loop prk info out_len T (counter + 1) (out @ take n T)
      else out)"
  by pat_completeness auto
termination
  by (relation "measure (\<lambda>(prk, info, out_len, T, counter, out). out_len - length out)")
    (auto simp: hkdf_block_spec SHA256_DIGEST_LEN_def)

declare expand_loop.simps [simp del]

definition hkdf_expand :: "bytes \<Rightarrow> bytes \<Rightarrow> nat \<Rightarrow> bytes option" where
  "hkdf_expand prk info out_len =
     (if out_len > 255 * SHA256_DIGEST_LEN then None else Some (expand_loop prk info out_len [] 1 []))"

text \<open>The blocks of RFC 5869: the empty one, then each from the one before, the info and its number.\<close>

primrec hkdf_T :: "bytes \<Rightarrow> bytes \<Rightarrow> nat \<Rightarrow> bytes" where
  "hkdf_T prk info 0 = []"
| "hkdf_T prk info (Suc i) = hmac_spec prk (hkdf_T prk info i @ info @ [word_of_nat (Suc i)])"

lemma hkdf_T_length: "0 < i \<Longrightarrow> length (hkdf_T prk info i) = 32"
  by (cases i) simp_all

lemma expand_loop_T:
  assumes "length out = 32 * i" "32 * i \<le> L"
  shows "\<exists>m. expand_loop prk info L (hkdf_T prk info i) (word_of_nat (Suc i)) out
    = take L (out @ concat (map (hkdf_T prk info) [Suc i..<Suc i + m])) \<and> L \<le> 32 * (i + m)"
  using assms
proof (induction "L - 32 * i" arbitrary: i out rule: less_induct)
  case less
  show ?case
  proof (cases "length out < L")
    case False
    then show ?thesis using less.prems by (intro exI [of _ 0]) (simp add: expand_loop.simps)
  next
    case True
    let ?T = "hkdf_T prk info (Suc i)"
    let ?n = "if L - length out > 32 then 32 else L - length out"
    have e: "expand_loop prk info L (hkdf_T prk info i) (word_of_nat (Suc i)) out
      = expand_loop prk info L ?T (word_of_nat (Suc (Suc i))) (out @ take ?n ?T)"
      using True by (subst expand_loop.simps) (simp add: hkdf_block_spec SHA256_DIGEST_LEN_def Let_def add.commute)
    show ?thesis
    proof (cases "L - length out > 32")
      case big: True
      have l: "length (out @ take ?n ?T) = 32 * Suc i" using big less.prems(1) by simp
      have "L - 32 * Suc i < L - 32 * i" "32 * Suc i \<le> L" using True big less.prems(1) by simp_all
      from less.hyps [OF this(1) l this(2)] obtain m where
        "expand_loop prk info L ?T (word_of_nat (Suc (Suc i))) (out @ take ?n ?T)
          = take L ((out @ take ?n ?T) @ concat (map (hkdf_T prk info) [Suc (Suc i)..<Suc (Suc i) + m]))" "L \<le> 32 * (Suc i + m)"
        by blast
      then show ?thesis unfolding e using big by (intro exI [of _ "Suc m"]) (simp add: upt_conv_Cons del: upt_Suc)
    next
      case False
      then have "length (out @ take ?n ?T) = L" using True by simp
      then have "expand_loop prk info L ?T (word_of_nat (Suc (Suc i))) (out @ take ?n ?T) = out @ take ?n ?T"
        by (simp add: expand_loop.simps)
      then show ?thesis unfolding e using False True less.prems(1)
        by (intro exI [of _ 1]) simp
    qed
  qed
qed

lemma hkdf_concat_length: "length (concat (map (hkdf_T prk info) [Suc 0..<Suc m])) = 32 * m"
  by (induction m) (simp_all add: hkdf_T_length)

lemma hkdf_expand_T:
  assumes "L \<le> 8160"
  shows "\<exists>m. hkdf_expand prk info L = Some (take L (concat (map (hkdf_T prk info) [1..<Suc m]))) \<and> L \<le> 32 * m"
  using expand_loop_T [of "[]" 0 L prk info] assms by (simp add: hkdf_expand_def SHA256_DIGEST_LEN_def)

lemma take_blocks:
  assumes "L \<le> 32 * m" "L \<le> 32 * k"
  shows "take L (concat (map (hkdf_T prk info) [1..<Suc m])) = take L (concat (map (hkdf_T prk info) [1..<Suc k]))"
proof -
  have le: "take L (concat (map (hkdf_T prk info) [1..<Suc (a + b)])) = take L (concat (map (hkdf_T prk info) [1..<Suc a]))"
    if "L \<le> 32 * a" for a b
  proof -
    have "[1..<Suc (a + b)] = [1..<Suc a] @ [Suc a..<Suc (a + b)]" by (metis Suc_eq_plus1 add.commute add_Suc le_add1 upt_add_eq_append)
    then show ?thesis using that hkdf_concat_length [of prk info a] by simp
  qed
  show ?thesis
  proof (cases "m \<le> k")
    case True
    then show ?thesis using le [OF assms(1), of "k - m"] by simp
  next
    case False
    then show ?thesis using le [OF assms(2), of "m - k"] by simp
  qed
qed

text \<open>
  C39: The streaming HKDF expansion is RFC 5869 over HMAC-SHA256 of RFC 2104 and FIPS 180-4. It refuses more
  than 255 blocks; otherwise the output is exactly the wanted number of bytes of the concatenated blocks, each of
  them the MAC of the previous block, the info and the block number.
\<close>

theorem hkdf_expand_rfc:
  "hkdf_expand prk info L =
     (if L > 255 * 32 then None
      else Some (take L (concat (map (hkdf_T prk info) [1..<Suc ((L + 31) div 32)]))))"
proof (cases "L > 255 * 32")
  case False
  then have "L \<le> 8160" by simp
  from hkdf_expand_T [OF this, of prk info] obtain m where
    m: "hkdf_expand prk info L = Some (take L (concat (map (hkdf_T prk info) [1..<Suc m])))" "L \<le> 32 * m" by blast
  have "L \<le> 32 * ((L + 31) div 32)" by simp
  then show ?thesis using False m take_blocks [OF m(2)] by simp
qed (simp add: hkdf_expand_def SHA256_DIGEST_LEN_def)

lemma hkdf_expand_length: "L \<le> 8160 \<Longrightarrow> \<exists>out. hkdf_expand prk info L = Some out \<and> length out = L"
  using hkdf_expand_T [of L prk info] hkdf_concat_length [of prk info] by (fastforce simp: min_def)

end
