(* ===== verification/Key_Schedule.thy ===== *)
theory Key_Schedule
  imports Hkdf Util
begin

text \<open>
  The TLS 1.3 key schedule of \<open>userspace/tls/keysched.c\<close>, the QUIC packet-protection keys of
  \<open>userspace/quic/keys.c\<close> and the QUIC Initial keys of \<open>userspace/quic/initial.c\<close>, over HKDF.
  The callers pass their output arrays, whose old contents are arguments here: a failed expansion leaves them as
  they are and a short one overwrites a prefix.
\<close>

definition crypto_consttime_eq :: "bytes \<Rightarrow> bytes \<Rightarrow> nat \<Rightarrow> bool" where
  "crypto_consttime_eq a b len = (foldl (\<lambda>diff i. diff OR (a ! i XOR b ! i)) 0 [0..<len] = 0)"

text \<open>The byte string \<open>hl\<close> that the label function builds.\<close>

definition hkdf_label :: "bytes \<Rightarrow> bytes \<Rightarrow> nat \<Rightarrow> bytes" where
  "hkdf_label label context out_len =
     [word_of_nat (out_len div 256), word_of_nat out_len, word_of_nat (6 + length label)]
     @ str ''tls13 '' @ label @ [word_of_nat (length context)] @ context"

definition tls13_hkdf_expand_label :: "bytes \<Rightarrow> bytes \<Rightarrow> bytes \<Rightarrow> nat \<Rightarrow> bytes option" where
  "tls13_hkdf_expand_label secret label context out_len =
     (if length label + 6 > 255 then None
      else if length context > 255 then None
      else if out_len > 0xffff then None
      else hkdf_expand secret (hkdf_label label context out_len) out_len)"

definition tls13_derive_secret :: "bytes \<Rightarrow> bytes \<Rightarrow> bytes \<Rightarrow> bytes option" where
  "tls13_derive_secret secret label messages = tls13_hkdf_expand_label secret label (sha256 messages) 32"

text \<open>The effect on the output array of an expansion whose return code is ignored.\<close>

definition overwrite :: "bytes \<Rightarrow> bytes option \<Rightarrow> bytes" where
  "overwrite buf r = (case r of None \<Rightarrow> buf | Some x \<Rightarrow> x @ drop (length x) buf)"

definition tls13_derive_traffic_keys :: "bytes \<Rightarrow> bytes \<Rightarrow> bytes \<Rightarrow> bytes \<times> bytes" where
  "tls13_derive_traffic_keys traffic_secret key iv =
     (overwrite key (tls13_hkdf_expand_label traffic_secret (str ''key'') [] 32),
      overwrite iv (tls13_hkdf_expand_label traffic_secret (str ''iv'') [] 12))"

definition tls13_compute_finished :: "bytes \<Rightarrow> bytes \<Rightarrow> bytes option" where
  "tls13_compute_finished base_key transcript_hash =
     (case tls13_hkdf_expand_label base_key (str ''finished'') [] 32 of
        None \<Rightarrow> None
      | Some finished_key \<Rightarrow> Some (hmac_sha256 finished_key transcript_hash))"

definition tls13_verify_finished :: "bytes \<Rightarrow> bytes \<Rightarrow> bytes \<Rightarrow> bool" where
  "tls13_verify_finished base_key transcript_hash verify_data =
     (case tls13_compute_finished base_key transcript_hash of
        None \<Rightarrow> False
      | Some expected \<Rightarrow> crypto_consttime_eq expected verify_data 32)"

section \<open>QUIC keys\<close>

record quic_keys =
  qk_key :: bytes
  qk_iv :: bytes
  qk_hp :: bytes
  qk_key_len :: byte
  qk_hp_len :: byte

definition quic_keys_from_secret :: "bytes \<Rightarrow> nat \<Rightarrow> nat \<Rightarrow> quic_keys \<Rightarrow> bool \<times> quic_keys" where
  "quic_keys_from_secret secret key_len hp_len out =
     (if length secret \<noteq> 32 then (False, out)
      else if key_len \<noteq> 16 \<and> key_len \<noteq> 32 then (False, out)
      else if hp_len \<noteq> 16 \<and> hp_len \<noteq> 32 then (False, out)
      else (True,
        out\<lparr>qk_key := overwrite (qk_key out) (tls13_hkdf_expand_label secret (str ''quic key'') [] key_len),
            qk_iv := overwrite (qk_iv out) (tls13_hkdf_expand_label secret (str ''quic iv'') [] 12),
            qk_hp := overwrite (qk_hp out) (tls13_hkdf_expand_label secret (str ''quic hp'') [] hp_len),
            qk_key_len := word_of_nat key_len, qk_hp_len := word_of_nat hp_len\<rparr>))"

definition quic_key_update_next :: "bytes \<Rightarrow> nat \<Rightarrow> bytes \<Rightarrow> bytes" where
  "quic_key_update_next current_secret secret_len out =
     overwrite out (tls13_hkdf_expand_label current_secret (str ''quic ku'') [] secret_len)"

definition QUIC_V1_INITIAL_SALT :: bytes where
  "QUIC_V1_INITIAL_SALT =
     [0x38, 0x76, 0x2c, 0xf7, 0xf5, 0x59, 0x34, 0xb3,
      0x4d, 0x17, 0x9a, 0xe6, 0xa4, 0xc8, 0x0c, 0xad,
      0xcc, 0xbb, 0x7f, 0x0a]"

record quic_initial_keys =
  qi_key :: bytes
  qi_iv :: bytes
  qi_hp :: bytes

text \<open>The array \<open>side_secret\<close> is a local of the function, uninitialised before the expansion fills it.\<close>

definition quic_initial_derive :: "bytes \<Rightarrow> bool \<Rightarrow> bytes \<Rightarrow> quic_initial_keys \<Rightarrow> quic_initial_keys" where
  "quic_initial_derive dcid is_server side_secret out =
     (let initial_secret = hkdf_extract (Some QUIC_V1_INITIAL_SALT) dcid;
          side_label = (if is_server then str ''server in'' else str ''client in'');
          side_secret = overwrite side_secret (tls13_hkdf_expand_label initial_secret side_label [] 32)
      in \<lparr>qi_key = overwrite (qi_key out) (tls13_hkdf_expand_label side_secret (str ''quic key'') [] 16),
          qi_iv = overwrite (qi_iv out) (tls13_hkdf_expand_label side_secret (str ''quic iv'') [] 12),
          qi_hp = overwrite (qi_hp out) (tls13_hkdf_expand_label side_secret (str ''quic hp'') [] 16)\<rparr>)"

section \<open>Lemmas\<close>

lemma or_fold_zero:
  fixes f :: "nat \<Rightarrow> byte"
  shows "foldl (\<lambda>d i. d OR f i) d0 [0..<n] = 0 \<longleftrightarrow> d0 = 0 \<and> (\<forall>i<n. f i = 0)"
  by (induction n) (auto simp: less_Suc_eq or_eq_0_iff)

lemma word_xor_zero_iff: "(x :: byte) XOR y = 0 \<longleftrightarrow> x = y"
  by (metis xor.assoc xor.left_neutral xor.right_neutral xor_self_eq)

lemma crypto_consttime_eq_iff:
  "length a = n \<Longrightarrow> length b = n \<Longrightarrow> crypto_consttime_eq a b n \<longleftrightarrow> a = b"
  by (auto simp: crypto_consttime_eq_def or_fold_zero word_xor_zero_iff intro: nth_equalityI)

lemma str_length [simp]: "length (str s) = length s"
  by (simp add: str_def)

lemma expand_label_length:
  assumes "length label \<le> 249" "length context \<le> 255" "L \<le> 8160"
  shows "\<exists>x. tls13_hkdf_expand_label secret label context L = Some x \<and> length x = L"
  using hkdf_expand_length [OF assms(3)] assms by (simp add: tls13_hkdf_expand_label_def)

lemma overwrite_label:
  assumes "length label \<le> 249" "L \<le> 8160" "length buf = L"
  shows "overwrite buf (tls13_hkdf_expand_label secret label [] L) = the (tls13_hkdf_expand_label secret label [] L)"
    and "length (the (tls13_hkdf_expand_label secret label [] L)) = L"
    and "Some (the (tls13_hkdf_expand_label secret label [] L)) = tls13_hkdf_expand_label secret label [] L"
  using expand_label_length [of label "[]" L secret] assms by (auto simp: overwrite_def)

lemma unat_of_nat_byte: "unat (word_of_nat n :: byte) = n mod 256"
  by (simp add: unat_of_nat)

lemma byte_of_nat_inj: "m < 256 \<Longrightarrow> n < 256 \<Longrightarrow> (word_of_nat m :: byte) = word_of_nat n \<Longrightarrow> m = n"
  by (metis mod_less unat_of_nat_byte)

lemma hkdf_label_inj:
  assumes "hkdf_label l c n = hkdf_label l' c' n'"
    and "length l \<le> 249" "length l' \<le> 249" "length c \<le> 255" "length c' \<le> 255" "n \<le> 0xffff" "n' \<le> 0xffff"
  shows "l = l' \<and> c = c' \<and> n = n'"
proof -
  have b: "(word_of_nat (n div 256) :: byte) = word_of_nat (n' div 256)" "(word_of_nat n :: byte) = word_of_nat n'"
    "(word_of_nat (6 + length l) :: byte) = word_of_nat (6 + length l')"
    and r: "l @ [word_of_nat (length c)] @ c = l' @ [word_of_nat (length c')] @ c'"
    using assms(1) unfolding hkdf_label_def by simp_all
  have "6 + length l = 6 + length l'" using b(3) assms by (intro byte_of_nat_inj) simp_all
  then have "l = l'" "c = c'" using r by simp_all
  moreover have "n div 256 = n' div 256" using b(1) assms by (intro byte_of_nat_inj) simp_all
  moreover have "n mod 256 = n' mod 256" using b(2) by (metis unat_of_nat_byte)
  ultimately show ?thesis by (metis div_mult_mod_eq)
qed

text \<open>
  Keys derived under different labels, contexts or lengths come from different HKDF inputs: the encoded label
  structure determines all three, and it always fits the 600-byte buffer of the function.
\<close>

lemma hkdf_label_separates:
  assumes "tls13_hkdf_expand_label s l c n \<noteq> None" "tls13_hkdf_expand_label s' l' c' n' \<noteq> None"
  shows "(hkdf_label l c n = hkdf_label l' c' n' \<longleftrightarrow> l = l' \<and> c = c' \<and> n = n') \<and> length (hkdf_label l c n) \<le> 600"
proof -
  have g: "length l \<le> 249" "length l' \<le> 249" "length c \<le> 255" "length c' \<le> 255" "n \<le> 0xffff" "n' \<le> 0xffff"
    using assms by (auto simp: tls13_hkdf_expand_label_def split: if_splits)
  have "length (hkdf_label l c n) \<le> 600" using g by (simp add: hkdf_label_def)
  then show ?thesis using hkdf_label_inj [OF _ g] by blast
qed

text \<open>
  C40: Every key derivation fills its arrays completely and with their declared sizes, whatever they held before: a
  32-byte key and a 12-byte IV for a TLS record direction, 16, 12 and 16 bytes for QUIC Initial protection.
\<close>

theorem derived_key_types:
  assumes "length key = 32" "length iv = 12" "length side = 32"
    and "length (qi_key out) = 16" "length (qi_iv out) = 12" "length (qi_hp out) = 16"
  shows "(case tls13_derive_traffic_keys secret key iv of (k, v) \<Rightarrow> length k = 32 \<and> length v = 12
      \<and> Some k = tls13_hkdf_expand_label secret (str ''key'') [] 32 \<and> Some v = tls13_hkdf_expand_label secret (str ''iv'') [] 12)
    \<and> (let q = quic_initial_derive dcid is_server side out in
         length (qi_key q) = 16 \<and> length (qi_iv q) = 12 \<and> length (qi_hp q) = 16
         \<and> q = quic_initial_derive dcid is_server (replicate 32 0)
                 \<lparr>qi_key = replicate 16 0, qi_iv = replicate 12 0, qi_hp = replicate 16 0\<rparr>)"
  using assms overwrite_label(2,3) [of _ _ "replicate _ 0"]
  by (simp add: tls13_derive_traffic_keys_def quic_initial_derive_def Let_def overwrite_label(1))

theorem derived_key_types_witness:
  "length (fst (tls13_derive_traffic_keys [] (replicate 32 1) (replicate 12 1))) = 32"
  using derived_key_types [of "replicate 32 1" "replicate 12 1" "replicate 32 0"
      "\<lparr>qi_key = replicate 16 0, qi_iv = replicate 12 0, qi_hp = replicate 16 0\<rparr>" "[]" "[]" True]
  by (simp add: split_beta)

text \<open>The struct of \<open>quic_keys_t\<close>: full arrays, and lengths of a supported suite.\<close>

definition quic_keys_ok :: "quic_keys \<Rightarrow> bool" where
  "quic_keys_ok k \<longleftrightarrow> length (qk_key k) = 32 \<and> length (qk_iv k) = 12 \<and> length (qk_hp k) = 32"

lemma quic_keys_from_secret_spec:
  assumes "quic_keys_ok out" "quic_keys_from_secret secret kl hl out = (ok, k)"
  shows "quic_keys_ok k
    \<and> (ok \<longleftrightarrow> length secret = 32 \<and> kl \<in> {16, 32} \<and> hl \<in> {16, 32})
    \<and> (\<not> ok \<longrightarrow> k = out)
    \<and> (ok \<longrightarrow> Some (take kl (qk_key k)) = tls13_hkdf_expand_label secret (str ''quic key'') [] kl
          \<and> Some (qk_iv k) = tls13_hkdf_expand_label secret (str ''quic iv'') [] 12
          \<and> Some (take hl (qk_hp k)) = tls13_hkdf_expand_label secret (str ''quic hp'') [] hl
          \<and> unat (qk_key_len k) = kl \<and> unat (qk_hp_len k) = hl)"
proof (cases "length secret = 32 \<and> kl \<in> {16, 32} \<and> hl \<in> {16, 32}")
  case True
  have "kl \<le> 8160" "hl \<le> 8160" using True by auto
  then obtain a b c where e: "tls13_hkdf_expand_label secret (str ''quic key'') [] kl = Some a" "length a = kl"
    "tls13_hkdf_expand_label secret (str ''quic iv'') [] 12 = Some b" "length b = 12"
    "tls13_hkdf_expand_label secret (str ''quic hp'') [] hl = Some c" "length c = hl"
    using expand_label_length [of "str ''quic key''" "[]" kl secret] expand_label_length [of "str ''quic iv''" "[]" 12 secret]
      expand_label_length [of "str ''quic hp''" "[]" hl secret] by auto
  then show ?thesis using True assms by (auto simp: quic_keys_from_secret_def overwrite_def quic_keys_ok_def)
next
  case False
  then have "quic_keys_from_secret secret kl hl out = (False, out)" by (auto simp: quic_keys_from_secret_def)
  then show ?thesis using False assms by auto
qed

text \<open>
  Verifying a Finished message accepts exactly one 32-byte value: the HMAC of the transcript hash under the
  finished key, which always exists. The comparison in constant time is equality.
\<close>

lemma verify_finished_exact:
  assumes "length verify_data = 32"
  shows "\<exists>fk. tls13_hkdf_expand_label base_key (str ''finished'') [] 32 = Some fk
    \<and> (tls13_verify_finished base_key th verify_data \<longleftrightarrow> verify_data = hmac_spec fk th)"
proof -
  obtain fk where "tls13_hkdf_expand_label base_key (str ''finished'') [] 32 = Some fk"
    using expand_label_length [of "str ''finished''" "[]" 32 base_key] by auto
  then show ?thesis using assms crypto_consttime_eq_iff [of "hmac_spec fk th" 32 verify_data]
    by (auto simp: tls13_verify_finished_def tls13_compute_finished_def hmac_eq)
qed

end
