(* ===== verification/Aead.thy ===== *)
theory Aead
  imports Chacha20 Poly1305_Spec Key_Schedule
begin

text \<open>
  The ChaCha20-Poly1305 authenticated encryption of \<open>userspace/crypto/chacha20_poly1305.c\<close>: one-shot and
  scatter-gather sealing and opening, and the contract an AEAD gives its clients.
\<close>

section \<open>The code\<close>

definition store_le64 :: "u64 \<Rightarrow> bytes" where
  "store_le64 v = map (\<lambda>i. ucast (drop_bit (i * 8) v)) [0..<8]"

definition pad_len :: "nat \<Rightarrow> nat" where
  "pad_len n = (16 - n mod 16) mod 16"

text \<open>An update that the code guards by a length test.\<close>

definition poly_update_if :: "poly1305_ctx \<Rightarrow> bytes \<Rightarrow> poly1305_ctx" where
  "poly_update_if pctx d = (if length d > 0 then poly1305_update pctx d else pctx)"

definition mac_data :: "bytes \<Rightarrow> bytes \<Rightarrow> bytes \<Rightarrow> bytes" where
  "mac_data poly_key aad ct =
     (let pctx = poly1305_init poly_key;
          pctx = poly_update_if pctx aad;
          pctx = poly_update_if pctx (replicate (pad_len (length aad)) 0);
          pctx = poly_update_if pctx ct;
          pctx = poly_update_if pctx (replicate (pad_len (length ct)) 0);
          lens = store_le64 (word_of_nat (length aad)) @ store_le64 (word_of_nat (length ct));
          pctx = poly1305_update pctx lens
      in poly1305_finish pctx)"

definition aead_chacha20_poly1305_seal :: "bytes \<Rightarrow> bytes \<Rightarrow> bytes \<Rightarrow> bytes \<Rightarrow> bytes \<times> bytes" where
  "aead_chacha20_poly1305_seal key nonce aad pt =
     (let poly_key = chacha20_block key 0 nonce;
          ct = chacha20_xor key 1 nonce pt
      in (ct, mac_data poly_key aad ct))"

definition aead_chacha20_poly1305_open :: "bytes \<Rightarrow> bytes \<Rightarrow> bytes \<Rightarrow> bytes \<Rightarrow> bytes \<Rightarrow> bytes option" where
  "aead_chacha20_poly1305_open key nonce aad ct tag =
     (let poly_key = chacha20_block key 0 nonce;
          expected = mac_data poly_key aad ct
      in if \<not> crypto_consttime_eq expected tag 16 then None
         else Some (chacha20_xor key 1 nonce ct))"

text \<open>The fragment loop of the scatter-gather variant: encrypt a fragment, authenticate what came out.\<close>

primrec seal_frags :: "chacha20_stream \<Rightarrow> poly1305_ctx \<Rightarrow> bytes list \<Rightarrow> poly1305_ctx \<times> bytes" where
  "seal_frags cs pctx [] = (pctx, [])"
| "seal_frags cs pctx (f # fs) =
     (if length f = 0 then seal_frags cs pctx fs
      else
        let (cs, out) = chacha20_stream_xor cs f;
            (pctx, rest) = seal_frags cs (poly1305_update pctx out) fs
        in (pctx, out @ rest))"

text \<open>The stream context is an uninitialised local of the function. The given total length is not used.\<close>

definition aead_chacha20_poly1305_seal_iov ::
    "chacha20_stream \<Rightarrow> bytes \<Rightarrow> bytes \<Rightarrow> bytes \<Rightarrow> bytes list \<Rightarrow> nat \<Rightarrow> bytes \<times> bytes" where
  "aead_chacha20_poly1305_seal_iov cs key nonce aad pt_iov total_pt_len =
     (let poly_key = chacha20_block key 0 nonce;
          cs = chacha20_stream_init cs key nonce 1;
          pctx = poly1305_init poly_key;
          pctx = poly_update_if pctx aad;
          pctx = poly_update_if pctx (replicate (pad_len (length aad)) 0);
          (pctx, ct) = seal_frags cs pctx pt_iov;
          off = length ct;
          pctx = poly_update_if pctx (replicate (pad_len off) 0);
          lens = store_le64 (word_of_nat (length aad)) @ store_le64 (word_of_nat off);
          pctx = poly1305_update pctx lens
      in (ct, poly1305_finish pctx))"

section \<open>The authenticated string\<close>

text \<open>The construction of RFC 8439: additional data and ciphertext, each padded to blocks, and their lengths.\<close>

definition mac_input :: "bytes \<Rightarrow> bytes \<Rightarrow> bytes" where
  "mac_input aad ct = aad @ replicate (pad_len (length aad)) 0 @ ct @ replicate (pad_len (length ct)) 0
     @ store_le64 (word_of_nat (length aad)) @ store_le64 (word_of_nat (length ct))"

text \<open>The tag of an authenticator fed with pieces depends on their concatenation only.\<close>

lemma block_length: "length (chacha20_block key c nonce) = 64"
proof -
  have "length (concat (map (\<lambda>i. store_le32 (f i)) js)) = 4 * length js" for f and js :: "nat list"
    by (induction js) (simp_all add: store_le32_def)
  then show ?thesis by (simp add: chacha20_block_def Let_def)
qed

lemma poly_pieces_eq:
  assumes "32 \<le> length k" "concat ds = concat es"
  shows "poly1305_finish (foldl poly1305_update (poly1305_init k) ds) = poly1305_finish (foldl poly1305_update (poly1305_init k) es)"
  using poly1305_pieces [OF assms(1), of ds] poly1305_pieces [OF assms(1), of es] assms(2)
  by (intro le_nat_inj) simp_all

lemma update_if_pieces: "poly_update_if (foldl poly1305_update c ds) d = foldl poly1305_update c (ds @ (if d = [] then [] else [d]))"
  by (simp add: poly_update_if_def)

lemma mac_data_pieces:
  "\<exists>ds. mac_data k aad ct = poly1305_finish (foldl poly1305_update (poly1305_init k) ds) \<and> concat ds = mac_input aad ct"
proof -
  let ?p = "\<lambda>d. if d = [] then [] else [d]"
  let ?ds = "?p aad @ ?p (replicate (pad_len (length aad)) 0) @ ?p ct @ ?p (replicate (pad_len (length ct)) 0)
    @ [store_le64 (word_of_nat (length aad)) @ store_le64 (word_of_nat (length ct))]"
  have "mac_data k aad ct = poly1305_finish (foldl poly1305_update (poly1305_init k) ?ds)"
    by (simp add: mac_data_def Let_def poly_update_if_def)
  moreover have "concat ?ds = mac_input aad ct" by (simp add: mac_input_def)
  ultimately show ?thesis by blast
qed

lemma mac_data_length [simp]: "32 \<le> length k \<Longrightarrow> length (mac_data k aad ct) = 16"
  using mac_data_pieces [of k aad ct] poly1305_pieces by metis

section \<open>The contract\<close>

text \<open>
  What an AEAD promises: sealing keeps the length and gives a sixteen-byte tag, and opening accepts exactly what
  sealing produces, with the plaintext that was sealed.
\<close>

locale aead =
  fixes seal :: "bytes \<Rightarrow> bytes \<Rightarrow> bytes \<Rightarrow> bytes \<Rightarrow> bytes \<times> bytes"
    and opn :: "bytes \<Rightarrow> bytes \<Rightarrow> bytes \<Rightarrow> bytes \<Rightarrow> bytes \<Rightarrow> bytes option"
  assumes seal_length: "seal k n a pt = (ct, tag) \<Longrightarrow> length ct = length pt \<and> length tag = 16"
    and open_iff: "length tag = 16 \<Longrightarrow> opn k n a ct tag = Some pt \<longleftrightarrow> seal k n a pt = (ct, tag)"
begin

lemma open_seal: "seal k n a pt = (ct, tag) \<Longrightarrow> opn k n a ct tag = Some pt"
  using open_iff seal_length by blast

lemma seal_inj: "seal k n a pt = seal k n a pt' \<Longrightarrow> pt = pt'"
  using open_seal by (metis option.inject prod.exhaust)

lemma open_length: "length tag = 16 \<Longrightarrow> opn k n a ct tag = Some pt \<Longrightarrow> length pt = length ct"
  using open_iff seal_length by metis

end

lemma chacha20_xor_length [simp]: "length (chacha20_xor key c nonce pt) = length pt"
  by (simp add: chacha20_xor_def chacha20_xor_scalar_at)

lemma chacha20_xor_twice [simp]: "chacha20_xor key c nonce (chacha20_xor key c nonce pt) = pt"
  by (simp add: chacha20_xor_def chacha20_xor_scalar_at xor_at_involution)

lemma seal_length_law:
  "aead_chacha20_poly1305_seal k n a pt = (ct, tag) \<Longrightarrow> length ct = length pt \<and> length tag = 16"
  by (auto simp: aead_chacha20_poly1305_seal_def Let_def block_length)

lemma open_iff_law:
  assumes "length tag = 16"
  shows "aead_chacha20_poly1305_open k n a ct tag = Some pt \<longleftrightarrow> aead_chacha20_poly1305_seal k n a pt = (ct, tag)"
proof -
  let ?k = "chacha20_block k 0 n"
  have "crypto_consttime_eq (mac_data ?k a ct) tag 16 \<longleftrightarrow> mac_data ?k a ct = tag"
    using assms by (intro crypto_consttime_eq_iff) (simp_all add: block_length)
  then show ?thesis unfolding aead_chacha20_poly1305_open_def aead_chacha20_poly1305_seal_def Let_def
    by (auto dest: arg_cong [where f = "chacha20_xor k 1 n"])
qed

interpretation chacha: aead aead_chacha20_poly1305_seal aead_chacha20_poly1305_open
  by unfold_locales (rule seal_length_law, assumption, rule open_iff_law)

section \<open>Fragments\<close>

lemma seal_frags_pieces:
  assumes "stream_at key nonce c0 pos cs"
  shows "\<exists>ds. seal_frags cs pctx fs = (foldl poly1305_update pctx ds, concat ds)
    \<and> concat ds = xor_at key nonce c0 pos (concat fs)"
  using assms
proof (induction fs arbitrary: cs pctx pos)
  case Nil
  show ?case by (rule exI [of _ "[]"]) simp
next
  case (Cons f fs)
  show ?case
  proof (cases "f = []")
    case True
    then show ?thesis using Cons by simp
  next
    case False
    obtain cs' out where e: "chacha20_stream_xor cs f = (cs', out)" by (cases "chacha20_stream_xor cs f") auto
    have x: "stream_at key nonce c0 (pos + length f) cs'" "out = xor_at key nonce c0 pos f"
      using stream_xor_at [OF Cons.prems, of f] by (simp_all add: e)
    from Cons.IH [OF x(1), of "poly1305_update pctx out"] obtain ds where
      d: "seal_frags cs' (poly1305_update pctx out) fs = (foldl poly1305_update (poly1305_update pctx out) ds, concat ds)"
        "concat ds = xor_at key nonce c0 (pos + length f) (concat fs)" by blast
    show ?thesis using False d x(2) by (intro exI [of _ "out # ds"]) (simp add: e xor_at_append)
  qed
qed

lemma seal_iov_pieces:
  "aead_chacha20_poly1305_seal_iov cs key nonce aad pt_iov len = aead_chacha20_poly1305_seal key nonce aad (concat pt_iov)"
proof -
  let ?k = "chacha20_block key 0 nonce" and ?ct = "chacha20_xor key 1 nonce (concat pt_iov)"
  let ?p = "\<lambda>d. if d = [] then [] else [d]"
  let ?a = "?p aad @ ?p (replicate (pad_len (length aad)) 0)"
  let ?i = "foldl poly1305_update (poly1305_init ?k) ?a"
  from seal_frags_pieces [OF stream_init_at, of cs key nonce 1 ?i pt_iov] obtain ds where
    d: "seal_frags (chacha20_stream_init cs key nonce 1) ?i pt_iov = (foldl poly1305_update ?i ds, concat ds)" "concat ds = ?ct"
    by (auto simp: chacha20_xor_def chacha20_xor_scalar_at)
  let ?ds = "?a @ ds @ ?p (replicate (pad_len (length ?ct)) 0)
    @ [store_le64 (word_of_nat (length aad)) @ store_le64 (word_of_nat (length ?ct))]"
  have i: "poly_update_if (poly_update_if (poly1305_init ?k) aad) (replicate (pad_len (length aad)) 0) = ?i"
    by (simp add: poly_update_if_def)
  have "aead_chacha20_poly1305_seal_iov cs key nonce aad pt_iov len = (?ct, poly1305_finish (foldl poly1305_update (poly1305_init ?k) ?ds))"
    unfolding aead_chacha20_poly1305_seal_iov_def Let_def i d by (simp add: poly_update_if_def)
  moreover obtain es where "mac_data ?k aad ?ct = poly1305_finish (foldl poly1305_update (poly1305_init ?k) es)" "concat es = mac_input aad ?ct"
    using mac_data_pieces by blast
  moreover have "concat ?ds = mac_input aad ?ct" using d(2) by (simp add: mac_input_def)
  ultimately show ?thesis using poly_pieces_eq [of ?k ?ds es] by (simp add: block_length aead_chacha20_poly1305_seal_def Let_def)
qed

text \<open>
  C14: Opening accepts exactly what sealing produces. For every key, nonce and additional data, a ciphertext with a
  sixteen-byte tag opens to a plaintext if and only if sealing that plaintext gives this ciphertext and tag; and the
  tag is the Poly1305 value of RFC 8439 over the padded additional data, the padded ciphertext and their lengths.
\<close>

theorem aead_open_exact:
  assumes "length tag = 16"
  shows "(aead_chacha20_poly1305_open key nonce aad ct tag = Some pt \<longleftrightarrow> aead_chacha20_poly1305_seal key nonce aad pt = (ct, tag))
    \<and> le_nat (snd (aead_chacha20_poly1305_seal key nonce aad pt))
        = poly1305_spec (chacha20_block key 0 nonce) (mac_input aad (chacha20_xor key 1 nonce pt))"
proof
  show "aead_chacha20_poly1305_open key nonce aad ct tag = Some pt \<longleftrightarrow> aead_chacha20_poly1305_seal key nonce aad pt = (ct, tag)"
    by (rule chacha.open_iff [OF assms])
  let ?k = "chacha20_block key 0 nonce"
  obtain ds where "mac_data ?k aad (chacha20_xor key 1 nonce pt) = poly1305_finish (foldl poly1305_update (poly1305_init ?k) ds)"
    "concat ds = mac_input aad (chacha20_xor key 1 nonce pt)" using mac_data_pieces by blast
  then show "le_nat (snd (aead_chacha20_poly1305_seal key nonce aad pt)) = poly1305_spec ?k (mac_input aad (chacha20_xor key 1 nonce pt))"
    using poly1305_pieces [of ?k ds] by (simp add: aead_chacha20_poly1305_seal_def Let_def block_length)
qed

theorem aead_open_exact_witness:
  "let (ct, tag) = aead_chacha20_poly1305_seal (replicate 32 1) (replicate 12 2) [3] [4, 5]
   in aead_chacha20_poly1305_open (replicate 32 1) (replicate 12 2) [3] ct tag = Some [4, 5]"
  using aead_open_exact [of "snd (aead_chacha20_poly1305_seal (replicate 32 1) (replicate 12 2) [3] [4, 5])" "replicate 32 1" "replicate 12 2"
      "[3]" "fst (aead_chacha20_poly1305_seal (replicate 32 1) (replicate 12 2) [3] [4, 5])" "[4, 5]"]
    chacha.seal_length [of "replicate 32 1" "replicate 12 2" "[3]" "[4, 5]", OF prod.collapse [symmetric]]
  by (simp add: Let_def split_beta)

end
