(* ===== verification/Tls_Record.thy ===== *)
theory Tls_Record
  imports Aead
begin

text \<open>
  The TLS 1.3 record layer of \<open>userspace/tls/record.c\<close>: nonces from sequence numbers, sealing of one buffer or of a
  chain of fragments, and opening in place.  A content type is the byte it has on the wire.
\<close>

section \<open>The code\<close>

record tls_record_dir =
  rd_key :: bytes
  static_iv :: bytes
  rd_seq :: u64

definition TLS13_RECORD_HEADER_LEN :: nat where "TLS13_RECORD_HEADER_LEN = 5"
definition TLS13_AEAD_TAG_LEN :: nat where "TLS13_AEAD_TAG_LEN = 16"
definition TLS13_MAX_PLAINTEXT :: nat where "TLS13_MAX_PLAINTEXT = 16384"
definition PW_IOV_MAX_FRAGS :: nat where "PW_IOV_MAX_FRAGS = 8"

definition tls13_build_nonce :: "tls_record_dir \<Rightarrow> bytes" where
  "tls13_build_nonce dir =
     foldl (\<lambda>nonce i. nonce[12 - 1 - i := nonce ! (12 - 1 - i) XOR ucast (drop_bit (i * 8) (rd_seq dir))]) (static_iv dir) [0..<8]"

definition record_header :: "byte \<Rightarrow> nat \<Rightarrow> bytes" where
  "record_header outer_type cipher_len =
     [outer_type, 0x03, 0x03, word_of_nat (cipher_len div 256), word_of_nat cipher_len]"

text \<open>
  Sealing gives the record, or nothing when the code returns 0.  What a refused call leaves in the output buffer is not
  tracked: when the sequence number is exhausted the code has already written the five header bytes.
\<close>

definition tls13_seal_record :: "tls_record_dir \<Rightarrow> byte \<Rightarrow> byte \<Rightarrow> bytes \<Rightarrow> nat \<Rightarrow> (tls_record_dir \<times> bytes) option" where
  "tls13_seal_record dir inner_type outer_type plaintext out_cap =
     (let inner_len = length plaintext + 1;
          cipher_len = inner_len + TLS13_AEAD_TAG_LEN;
          wire_len = TLS13_RECORD_HEADER_LEN + cipher_len
      in if cipher_len > 0xffff then None
         else if wire_len > out_cap then None
         else if length plaintext > TLS13_MAX_PLAINTEXT then None
         else
           let header = record_header outer_type cipher_len
           in if rd_seq dir = -1 then None
              else
                let body = plaintext @ [inner_type];
                    nonce = tls13_build_nonce dir;
                    (ct, tag) = aead_chacha20_poly1305_seal (rd_key dir) nonce header body
                in Some (dir\<lparr>rd_seq := rd_seq dir + 1\<rparr>, header @ ct @ tag))"

text \<open>
  The scatter-gather variant takes the total length from its caller. The ciphertext has the length of the fragments,
  the tag goes where the caller's total puts it. A write past the end of the output buffer is an outcome of its own.
  The number of fragments is below the largest \<open>unsigned\<close>, so adding one to it does not wrap.
\<close>

datatype seal_result =
    Refused
  | Sealed tls_record_dir bytes
  | Overrun

definition blit :: "bytes \<Rightarrow> nat \<Rightarrow> bytes \<Rightarrow> bytes" where
  "blit out off xs = take off out @ xs @ drop (off + length xs) out"

definition tls13_seal_record_iov ::
    "chacha20_stream \<Rightarrow> tls_record_dir \<Rightarrow> byte \<Rightarrow> byte \<Rightarrow> bytes list \<Rightarrow> nat \<Rightarrow> bytes \<Rightarrow> seal_result" where
  "tls13_seal_record_iov cs dir inner_type outer_type pt_iov total_plaintext_len out =
     (let inner_len = total_plaintext_len + 1;
          cipher_len = inner_len + TLS13_AEAD_TAG_LEN;
          wire_len = TLS13_RECORD_HEADER_LEN + cipher_len
      in if cipher_len > 0xffff then Refused
         else if wire_len > length out then Refused
         else if total_plaintext_len > TLS13_MAX_PLAINTEXT then Refused
         else
           let header = record_header outer_type cipher_len
           in if rd_seq dir = -1 then Refused
              else if length pt_iov + 1 > PW_IOV_MAX_FRAGS + 1 then Refused
              else
                let nonce = tls13_build_nonce dir;
                    (ct, tag) = aead_chacha20_poly1305_seal_iov cs (rd_key dir) nonce header (pt_iov @ [[inner_type]]) inner_len;
                    body = TLS13_RECORD_HEADER_LEN;
                    out = blit out 0 header
                in if body + length ct > length out then Overrun
                   else Sealed (dir\<lparr>rd_seq := rd_seq dir + 1\<rparr>) (blit (blit out body ct) (body + inner_len) tag))"

text \<open>Padding is stripped from the end.\<close>

function strip_zeros :: "bytes \<Rightarrow> bytes" where
  "strip_zeros inner = (if length inner > 0 \<and> inner ! (length inner - 1) = 0 then strip_zeros (butlast inner) else inner)"
  by pat_completeness auto
termination by (relation "measure length") auto

declare strip_zeros.simps [simp del]

definition tls13_open_record :: "tls_record_dir \<Rightarrow> bytes \<Rightarrow> tls_record_dir \<times> (byte \<times> bytes) option" where
  "tls13_open_record dir rec =
     (if length rec < TLS13_RECORD_HEADER_LEN + TLS13_AEAD_TAG_LEN then (dir, None)
      else if rd_seq dir = -1 then (dir, None)
      else
        let cipher_len = unat (rec ! 3) * 256 + unat (rec ! 4)
        in if cipher_len + TLS13_RECORD_HEADER_LEN \<noteq> length rec then (dir, None)
           else if cipher_len < TLS13_AEAD_TAG_LEN then (dir, None)
           else
             let inner_len = cipher_len - TLS13_AEAD_TAG_LEN;
                 nonce = tls13_build_nonce dir;
                 body = drop TLS13_RECORD_HEADER_LEN rec
             in case aead_chacha20_poly1305_open (rd_key dir) nonce (take TLS13_RECORD_HEADER_LEN rec)
                       (take inner_len body) (take TLS13_AEAD_TAG_LEN (drop inner_len body)) of
                  None \<Rightarrow> (dir, None)
                | Some pt \<Rightarrow>
                    let inner = strip_zeros pt
                    in if inner = [] then (dir, None)
                       else (dir\<lparr>rd_seq := rd_seq dir + 1\<rparr>,
                             Some (inner ! (length inner - 1), take (length inner - 1) inner)))"

section \<open>Nonces\<close>

lemma nonce_nth:
  assumes "length (static_iv dir) = 12" "j < 12"
  shows "tls13_build_nonce dir ! j = static_iv dir ! j XOR (if 4 \<le> j then ucast (drop_bit ((11 - j) * 8) (rd_seq dir)) else 0)"
proof -
  have "length (static_iv dir) = 12 \<longrightarrow> foldl (\<lambda>nonce i. nonce[12 - 1 - i := nonce ! (12 - 1 - i) XOR f i]) (static_iv dir) [0..<n] ! j
      = static_iv dir ! j XOR (if 11 - j < n then f (11 - j) else 0)
    \<and> length (foldl (\<lambda>nonce i. nonce[12 - 1 - i := nonce ! (12 - 1 - i) XOR f i]) (static_iv dir) [0..<n]) = 12" if "n \<le> 8" for n and f :: "nat \<Rightarrow> byte"
    using that
  proof (induction n)
    case (Suc n)
    then show ?case using assms by (auto simp: nth_list_update less_Suc_eq)
  qed simp
  from this [of 8 "\<lambda>i. ucast (drop_bit (i * 8) (rd_seq dir))"] show ?thesis using assms by (auto simp: tls13_build_nonce_def)
qed

lemma u64_bytes_eq:
  assumes "\<forall>i<8. (ucast (drop_bit (i * 8) x) :: byte) = ucast (drop_bit (i * 8) (y :: u64))"
  shows "x = y"
proof (rule bit_word_eqI)
  fix n assume "n < LENGTH(64)"
  then have "n div 8 < 8" "n mod 8 < 8" "n = n div 8 * 8 + n mod 8" by simp_all
  with assms have "bit (ucast (drop_bit (n div 8 * 8) x) :: byte) (n mod 8) = bit (ucast (drop_bit (n div 8 * 8) y) :: byte) (n mod 8)" by simp
  then show "bit x n = bit y n" using \<open>n mod 8 < 8\<close> \<open>n = n div 8 * 8 + n mod 8\<close> by (simp add: bit_simps)
qed

lemma xor_cancel:
  assumes "(x :: byte) XOR a = x XOR b"
  shows "a = b"
proof -
  have "x XOR (x XOR a) = x XOR (x XOR b)" by (simp only: assms)
  then show ?thesis by (simp add: xor.assoc [symmetric])
qed

lemma nonce_inj:
  assumes "length iv = 12" "tls13_build_nonce \<lparr>rd_key = k, static_iv = iv, rd_seq = s\<rparr> = tls13_build_nonce \<lparr>rd_key = k', static_iv = iv, rd_seq = s'\<rparr>"
  shows "s = s'"
proof (rule u64_bytes_eq, intro allI impI)
  fix i :: nat assume i: "i < 8"
  have n: "tls13_build_nonce \<lparr>rd_key = k, static_iv = iv, rd_seq = s\<rparr> ! (11 - i) = iv ! (11 - i) XOR ucast (drop_bit (i * 8) s)" for k s
    using nonce_nth [of "\<lparr>rd_key = k, static_iv = iv, rd_seq = s\<rparr>" "11 - i"] i assms(1) by simp
  show "(ucast (drop_bit (i * 8) s) :: byte) = ucast (drop_bit (i * 8) s')"
  proof (rule xor_cancel)
    show "iv ! (11 - i) XOR ucast (drop_bit (i * 8) s) = iv ! (11 - i) XOR ucast (drop_bit (i * 8) s')"
      using n [of k s] n [of k' s'] assms(2) by simp
  qed
qed

section \<open>One record\<close>

lemma strip_zeros_pad: "t \<noteq> 0 \<Longrightarrow> strip_zeros (pt @ [t] @ replicate z 0) = pt @ [t]"
proof (induction z)
  case (Suc z)
  have e: "pt @ [t] @ replicate (Suc z) 0 = (pt @ [t] @ replicate z 0) @ [0]" by (simp add: replicate_append_same [symmetric])
  show ?case unfolding e using Suc by (subst strip_zeros.simps) (simp add: butlast_append nth_append)
qed (simp add: strip_zeros.simps nth_append)

lemma strip_zeros_inv: "\<exists>z. xs = strip_zeros xs @ replicate z 0 \<and> (strip_zeros xs \<noteq> [] \<longrightarrow> last (strip_zeros xs) \<noteq> 0)"
proof (induction xs rule: strip_zeros.induct)
  case (1 xs)
  show ?case
  proof (cases "length xs > 0 \<and> xs ! (length xs - 1) = 0")
    case True
    then obtain z where z: "butlast xs = strip_zeros (butlast xs) @ replicate z 0"
      "strip_zeros (butlast xs) \<noteq> [] \<longrightarrow> last (strip_zeros (butlast xs)) \<noteq> 0" using 1 by blast
    have "xs = butlast xs @ [0]" using True by (metis append_butlast_last_id last_conv_nth length_greater_0_conv)
    then have "xs = strip_zeros (butlast xs) @ replicate (Suc z) 0" using z(1) by (metis append_assoc replicate_Suc replicate_append_same)
    moreover have "strip_zeros xs = strip_zeros (butlast xs)" using True by (subst strip_zeros.simps) simp
    ultimately show ?thesis using z(2) by (intro exI [of _ "Suc z"]) (simp only: simp_thms)
  next
    case False
    then have "strip_zeros xs = xs" by (subst strip_zeros.simps) auto
    then show ?thesis using False by (intro exI [of _ 0]) (auto simp: last_conv_nth)
  qed
qed

lemma seal_record_cases:
  assumes "tls13_seal_record dir t ot pt cap = Some (dir', rec)"
  obtains ct tag where "aead_chacha20_poly1305_seal (rd_key dir) (tls13_build_nonce dir) (record_header ot (17 + length pt)) (pt @ [t]) = (ct, tag)"
    "rec = record_header ot (17 + length pt) @ ct @ tag" "dir' = dir\<lparr>rd_seq := rd_seq dir + 1\<rparr>" "rd_seq dir \<noteq> -1"
    "length pt \<le> 16384" "length rec \<le> cap" "length ct = length pt + 1" "length tag = 16"
proof -
  obtain ct tag where e: "aead_chacha20_poly1305_seal (rd_key dir) (tls13_build_nonce dir) (record_header ot (17 + length pt)) (pt @ [t]) = (ct, tag)"
    by fastforce
  have l: "length ct = length pt + 1" "length tag = 16" using chacha.seal_length [OF e] by simp_all
  have "rec = record_header ot (17 + length pt) @ ct @ tag \<and> dir' = dir\<lparr>rd_seq := rd_seq dir + 1\<rparr> \<and> rd_seq dir \<noteq> -1
      \<and> length pt \<le> 16384 \<and> length pt + 22 \<le> cap"
    using assms e unfolding tls13_seal_record_def Let_def TLS13_AEAD_TAG_LEN_def TLS13_RECORD_HEADER_LEN_def TLS13_MAX_PLAINTEXT_def
    by (simp add: add.assoc split: if_splits)
  then show thesis using that e l by (simp add: record_header_def)
qed

lemma header_length: "n \<le> 0xffff \<Longrightarrow> unat (word_of_nat (n div 256) :: byte) * 256 + unat (word_of_nat n :: byte) = n"
  by (simp add: unat_of_nat)

lemma open_sealed:
  assumes "tls13_seal_record dir t ot pt cap = Some (dir', rec)" "t \<noteq> 0"
  shows "tls13_open_record dir rec = (dir', Some (t, pt))"
proof -
  from seal_record_cases [OF assms(1)] obtain ct tag where
    e: "aead_chacha20_poly1305_seal (rd_key dir) (tls13_build_nonce dir) (record_header ot (17 + length pt)) (pt @ [t]) = (ct, tag)"
    and r: "rec = record_header ot (17 + length pt) @ ct @ tag" "dir' = dir\<lparr>rd_seq := rd_seq dir + 1\<rparr>" "rd_seq dir \<noteq> -1"
    and l: "length pt \<le> 16384" "length ct = length pt + 1" "length tag = 16" by metis
  have h: "length (record_header ot (17 + length pt)) = 5" by (simp add: record_header_def)
  have c: "unat (rec ! 3) * 256 + unat (rec ! 4) = 17 + length pt"
    using header_length [of "17 + length pt"] l(1) by (simp add: r(1) record_header_def)
  have "aead_chacha20_poly1305_open (rd_key dir) (tls13_build_nonce dir) (take 5 rec) (take (length pt + 1) (drop 5 rec))
      (take 16 (drop (length pt + 1) (drop 5 rec))) = Some (pt @ [t])"
    using chacha.open_seal [OF e] h l by (simp add: r(1))
  moreover have "strip_zeros (pt @ [t]) = pt @ [t]" using strip_zeros_pad [OF assms(2), of pt 0] by simp
  moreover have "length rec = length pt + 22" using l(2,3) h by (simp add: r(1))
  ultimately show ?thesis using r(2,3)
    unfolding tls13_open_record_def TLS13_RECORD_HEADER_LEN_def TLS13_AEAD_TAG_LEN_def Let_def c by simp
qed

section \<open>A stream of records\<close>

text \<open>A run of messages, each with its inner type, through one sending and one receiving direction.\<close>

primrec seal_all :: "tls_record_dir \<Rightarrow> (byte \<times> bytes) list \<Rightarrow> (tls_record_dir \<times> bytes list) option" where
  "seal_all dir [] = Some (dir, [])"
| "seal_all dir (m # ms) =
     (case tls13_seal_record dir (fst m) 23 (snd m) 16661 of
        None \<Rightarrow> None
      | Some (dir, rec) \<Rightarrow> map_option (\<lambda>(dir, recs). (dir, rec # recs)) (seal_all dir ms))"

primrec open_all :: "tls_record_dir \<Rightarrow> bytes list \<Rightarrow> tls_record_dir \<times> (byte \<times> bytes) option list" where
  "open_all dir [] = (dir, [])"
| "open_all dir (r # rs) =
     (let (dir, m) = tls13_open_record dir r; (dir, ms) = open_all dir rs in (dir, m # ms))"

text \<open>
  C11: What one side seals the other side opens. Any run of messages that the sending direction seals record by
  record is recovered by a receiving direction with the same keys and sequence number, message by message with its
  content type, and both directions end with the same sequence number.
\<close>

theorem record_stream_roundtrip:
  assumes "seal_all dir ms = Some (dir', recs)" "\<forall>m \<in> set ms. fst m \<noteq> 0"
  shows "open_all dir recs = (dir', map Some ms)"
  using assms
proof (induction ms arbitrary: dir recs)
  case (Cons m ms)
  then obtain dir1 r rs where s: "tls13_seal_record dir (fst m) 23 (snd m) 16661 = Some (dir1, r)"
    "seal_all dir1 ms = Some (dir', rs)" "recs = r # rs"
    by (auto split: option.splits)
  have "tls13_open_record dir r = (dir1, Some m)" using open_sealed [OF s(1)] Cons.prems(2) by simp
  then show ?case using Cons.IH [OF s(2)] Cons.prems(2) by (simp add: s(3))
qed simp

theorem record_stream_roundtrip_witness:
  "\<exists>dir' recs. seal_all \<lparr>rd_key = replicate 32 7, static_iv = replicate 12 9, rd_seq = 5\<rparr> [(23, [1, 2, 3]), (21, [])] = Some (dir', recs)
     \<and> open_all \<lparr>rd_key = replicate 32 7, static_iv = replicate 12 9, rd_seq = 5\<rparr> recs = (dir', [Some (23, [1, 2, 3]), Some (21, [])])"
proof -
  obtain dir' recs where s: "seal_all \<lparr>rd_key = replicate 32 7, static_iv = replicate 12 9, rd_seq = 5\<rparr> [(23, [1, 2, 3]), (21, [])] = Some (dir', recs)"
    by (auto simp: tls13_seal_record_def TLS13_AEAD_TAG_LEN_def TLS13_RECORD_HEADER_LEN_def TLS13_MAX_PLAINTEXT_def Let_def split_beta)
  then show ?thesis using record_stream_roundtrip [OF s] by simp
qed

section \<open>Nonces are never reused\<close>

datatype seal_op =
    SealBuf byte byte bytes nat
  | SealIov chacha20_stream byte byte "bytes list" nat bytes

text \<open>The nonces a direction uses over a run of sealing calls, refused calls included; an overrun ends the run.\<close>

fun nonces_used :: "tls_record_dir \<Rightarrow> seal_op list \<Rightarrow> bytes list" where
  "nonces_used dir [] = []"
| "nonces_used dir (SealBuf t ot pt cap # ops) =
     (case tls13_seal_record dir t ot pt cap of
        None \<Rightarrow> nonces_used dir ops
      | Some (dir', rec) \<Rightarrow> tls13_build_nonce dir # nonces_used dir' ops)"
| "nonces_used dir (SealIov cs t ot fs len out # ops) =
     (case tls13_seal_record_iov cs dir t ot fs len out of
        Refused \<Rightarrow> nonces_used dir ops
      | Overrun \<Rightarrow> [tls13_build_nonce dir]
      | Sealed dir' out' \<Rightarrow> tls13_build_nonce dir # nonces_used dir' ops)"

lemma seal_iov_dir:
  "tls13_seal_record_iov cs dir t ot fs len out = Sealed dir' out' \<Longrightarrow> dir' = dir\<lparr>rd_seq := rd_seq dir + 1\<rparr> \<and> rd_seq dir \<noteq> -1"
  by (auto simp: tls13_seal_record_iov_def Let_def split: if_splits prod.splits)

lemma seq_next: "(s :: u64) \<noteq> -1 \<Longrightarrow> unat (s + 1) = Suc (unat s)"
  by (metis add_eq_0_iff unatSuc add.commute)

text \<open>One successful call uses the nonce of its sequence number and leaves the next one.\<close>

definition later :: "tls_record_dir \<Rightarrow> bytes \<Rightarrow> bool" where
  "later dir n \<longleftrightarrow> (\<exists>s. n = tls13_build_nonce (dir\<lparr>rd_seq := s\<rparr>) \<and> unat (rd_seq dir) \<le> unat s)"

lemma later_here: "later dir (tls13_build_nonce dir)"
  unfolding later_def by (rule exI [of _ "rd_seq dir"]) simp

lemma later_next:
  assumes "dir' = dir\<lparr>rd_seq := rd_seq dir + 1\<rparr> \<and> rd_seq dir \<noteq> -1" "later dir' n"
  shows "later dir n" and "length (static_iv dir) = 12 \<Longrightarrow> n \<noteq> tls13_build_nonce dir"
proof -
  obtain s where s: "n = tls13_build_nonce (dir\<lparr>rd_seq := s\<rparr>)" "unat (rd_seq dir) < unat s"
    using assms seq_next [of "rd_seq dir"] by (auto simp: later_def)
  then show "later dir n" unfolding later_def by (intro exI [of _ s]) simp
  assume l: "length (static_iv dir) = 12"
  have r: "dir = \<lparr>rd_key = rd_key dir, static_iv = static_iv dir, rd_seq = rd_seq dir\<rparr>"
    "dir\<lparr>rd_seq := s\<rparr> = \<lparr>rd_key = rd_key dir, static_iv = static_iv dir, rd_seq = s\<rparr>" by simp_all
  show "n \<noteq> tls13_build_nonce dir"
  proof
    assume "n = tls13_build_nonce dir"
    then have "s = rd_seq dir" using s(1) r by (metis nonce_inj [OF l])
    then show False using s(2) by simp
  qed
qed

lemma seal_buf_dir:
  "tls13_seal_record dir t ot pt cap = Some (dir', rec) \<Longrightarrow> dir' = dir\<lparr>rd_seq := rd_seq dir + 1\<rparr> \<and> rd_seq dir \<noteq> -1"
  by (elim seal_record_cases) simp

lemma nonces_used_later: "\<forall>n \<in> set (nonces_used dir ops). later dir n"
proof (induction dir ops rule: nonces_used.induct)
  case (2 dir t ot pt cap ops)
  show ?case
  proof (cases "tls13_seal_record dir t ot pt cap")
    case (Some r)
    obtain dir' rec where r: "r = (dir', rec)" by (cases r)
    have "\<forall>n \<in> set (nonces_used dir' ops). later dir n" using 2(2) [OF Some r [symmetric]] later_next(1) [OF seal_buf_dir [OF Some [unfolded r]]] by blast
    then show ?thesis using later_here [of dir] by (simp add: Some r)
  qed (use 2(1) in simp)
next
  case (3 dir cs t ot fs len out ops)
  show ?case
  proof (cases "tls13_seal_record_iov cs dir t ot fs len out")
    case (Sealed dir' out')
    have "\<forall>n \<in> set (nonces_used dir' ops). later dir n" using 3(2) [OF Sealed] later_next(1) [OF seal_iov_dir [OF Sealed]] by blast
    then show ?thesis using later_here [of dir] by (simp add: Sealed)
  qed (use 3(1) later_here [of dir] in simp_all)
qed simp

text \<open>
  C15: No nonce is used twice. Over any run of sealing calls on one direction, of one buffer or of fragments, refused
  or not, the nonces used are pairwise distinct: the sequence number only grows, its last value is never used, and
  different sequence numbers give different nonces.
\<close>

theorem record_nonces_distinct:
  assumes "length (static_iv dir) = 12"
  shows "distinct (nonces_used dir ops)"
  using assms
proof (induction dir ops rule: nonces_used.induct)
  case (2 dir t ot pt cap ops)
  show ?case
  proof (cases "tls13_seal_record dir t ot pt cap")
    case (Some r)
    obtain dir' rec where r: "r = (dir', rec)" by (cases r)
    note d = seal_buf_dir [OF Some [unfolded r]]
    have "tls13_build_nonce dir \<notin> set (nonces_used dir' ops)" using later_next(2) [OF d _ 2(3)] nonces_used_later [of dir' ops] by blast
    then show ?thesis using 2(2) [OF Some r [symmetric]] 2(3) d by (simp add: Some r)
  qed (use 2(1,3) in simp)
next
  case (3 dir cs t ot fs len out ops)
  show ?case
  proof (cases "tls13_seal_record_iov cs dir t ot fs len out")
    case (Sealed dir' out')
    note d = seal_iov_dir [OF Sealed]
    have "tls13_build_nonce dir \<notin> set (nonces_used dir' ops)" using later_next(2) [OF d _ 3(3)] nonces_used_later [of dir' ops] by blast
    then show ?thesis using 3(2) [OF Sealed] 3(3) d by (simp add: Sealed)
  qed (use 3(1,3) in simp_all)
qed simp

theorem record_nonces_distinct_witness:
  "distinct (nonces_used \<lparr>rd_key = replicate 32 7, static_iv = replicate 12 9, rd_seq = 255\<rparr> [SealBuf 23 23 [1] 100, SealBuf 23 23 [1] 100])"
  by (rule record_nonces_distinct) simp

section \<open>What opening accepts\<close>

lemma open_record_cases:
  assumes "tls13_open_record dir rec = (dir', Some (t, pt))"
  obtains pt0 where "21 \<le> length rec" "rd_seq dir \<noteq> -1" "unat (rec ! 3) * 256 + unat (rec ! 4) + 5 = length rec"
    "aead_chacha20_poly1305_open (rd_key dir) (tls13_build_nonce dir) (take 5 rec)
       (take (length rec - 21) (drop 5 rec)) (drop (length rec - 16) rec) = Some pt0"
    "strip_zeros pt0 \<noteq> []" "t = last (strip_zeros pt0)" "pt = butlast (strip_zeros pt0)" "dir' = dir\<lparr>rd_seq := rd_seq dir + 1\<rparr>"
proof -
  let ?n = "unat (rec ! 3) * 256 + unat (rec ! 4)"
  have g: "21 \<le> length rec" "rd_seq dir \<noteq> -1" "?n + 5 = length rec"
    using assms by (auto simp: tls13_open_record_def TLS13_RECORD_HEADER_LEN_def TLS13_AEAD_TAG_LEN_def Let_def split: if_splits)
  have n: "?n - 16 = length rec - 21" "16 \<le> ?n" using g by simp_all
  have d: "take 16 (drop (length rec - 21) (drop 5 rec)) = drop (length rec - 16) rec" using g(1) by simp
  from assms have "(case aead_chacha20_poly1305_open (rd_key dir) (tls13_build_nonce dir) (take 5 rec)
        (take (length rec - 21) (drop 5 rec)) (drop (length rec - 16) rec) of
        None \<Rightarrow> (dir, None)
      | Some pt \<Rightarrow> let inner = strip_zeros pt in if inner = [] then (dir, None)
          else (dir\<lparr>rd_seq := rd_seq dir + 1\<rparr>, Some (inner ! (length inner - 1), take (length inner - 1) inner))) = (dir', Some (t, pt))"
    using g n d unfolding tls13_open_record_def TLS13_RECORD_HEADER_LEN_def TLS13_AEAD_TAG_LEN_def Let_def
    by (simp only: if_False not_less not_le simp_thms add.commute) simp
  then obtain pt0 where "aead_chacha20_poly1305_open (rd_key dir) (tls13_build_nonce dir) (take 5 rec)
        (take (length rec - 21) (drop 5 rec)) (drop (length rec - 16) rec) = Some pt0" "strip_zeros pt0 \<noteq> []"
      "t = strip_zeros pt0 ! (length (strip_zeros pt0) - 1)" "pt = take (length (strip_zeros pt0) - 1) (strip_zeros pt0)" "dir' = dir\<lparr>rd_seq := rd_seq dir + 1\<rparr>"
    by (auto simp: Let_def split: option.splits if_splits)
  then show thesis using that g by (simp add: last_conv_nth butlast_conv_take)
qed

text \<open>
  C12: Opening accepts a record exactly when its length field matches its size and its body is the sealing, under the
  direction's key, the nonce of its sequence number and the record's own header, of the plaintext followed by its
  non-zero type byte and zero padding; then the sequence number advances. Every other record leaves the direction as it was.
\<close>

theorem open_record_exact:
  "tls13_open_record dir rec = (dir', Some (t, pt)) \<longleftrightarrow>
     dir' = dir\<lparr>rd_seq := rd_seq dir + 1\<rparr> \<and> rd_seq dir \<noteq> -1 \<and> t \<noteq> 0
     \<and> 5 \<le> length rec \<and> unat (rec ! 3) * 256 + unat (rec ! 4) + 5 = length rec
     \<and> (\<exists>z ct tag. aead_chacha20_poly1305_seal (rd_key dir) (tls13_build_nonce dir) (take 5 rec) (pt @ [t] @ replicate z 0) = (ct, tag)
           \<and> drop 5 rec = ct @ tag)"
  (is "?l \<longleftrightarrow> ?r")
proof
  assume l: ?l
  from open_record_cases [OF l] obtain pt0 where
    g: "21 \<le> length rec" "rd_seq dir \<noteq> -1" "unat (rec ! 3) * 256 + unat (rec ! 4) + 5 = length rec"
    and o: "aead_chacha20_poly1305_open (rd_key dir) (tls13_build_nonce dir) (take 5 rec)
       (take (length rec - 21) (drop 5 rec)) (drop (length rec - 16) rec) = Some pt0"
    and s: "strip_zeros pt0 \<noteq> []" "t = last (strip_zeros pt0)" "pt = butlast (strip_zeros pt0)" "dir' = dir\<lparr>rd_seq := rd_seq dir + 1\<rparr>"
    by metis
  from strip_zeros_inv [of pt0] s obtain z where z: "pt0 = pt @ [t] @ replicate z 0" "t \<noteq> 0"
    by (metis append_assoc append_butlast_last_id)
  have "length (drop (length rec - 16) rec) = 16" using g(1) by simp
  from chacha.open_iff [OF this] o z(1)
  have "aead_chacha20_poly1305_seal (rd_key dir) (tls13_build_nonce dir) (take 5 rec) (pt @ [t] @ replicate z 0)
    = (take (length rec - 21) (drop 5 rec), drop (length rec - 16) rec)" by simp
  moreover have "drop 5 rec = take (length rec - 21) (drop 5 rec) @ drop (length rec - 16) rec"
    using g(1) append_take_drop_id [of "length rec - 21" "drop 5 rec"] by simp
  ultimately show ?r using g s(4) z(2) by auto
next
  assume r: ?r
  then obtain z ct tag where e: "aead_chacha20_poly1305_seal (rd_key dir) (tls13_build_nonce dir) (take 5 rec) (pt @ [t] @ replicate z 0) = (ct, tag)"
    "drop 5 rec = ct @ tag" by blast
  have l: "length ct = length pt + 1 + z" "length tag = 16" using chacha.seal_length [OF e(1)] by simp_all
  have n: "unat (rec ! 3) * 256 + unat (rec ! 4) = length ct + 16" "length rec = length ct + 21" "rd_seq dir \<noteq> -1" "t \<noteq> 0"
    using r l arg_cong [OF e(2), of length] by auto
  show ?l using n l r chacha.open_seal [OF e(1)] strip_zeros_pad [OF n(4), of pt z]
    unfolding tls13_open_record_def TLS13_RECORD_HEADER_LEN_def TLS13_AEAD_TAG_LEN_def Let_def n(1) e(2) by simp
qed

section \<open>Fragments\<close>

text \<open>
  C18: Sealing a chain of at most eight fragments with their true total length is sealing their concatenation: the
  same calls are refused, and otherwise the output buffer starts with the same record, the rest of it is untouched
  and the direction advances in the same way. In particular no byte is written past the buffer.
\<close>

theorem seal_record_iov_same:
  assumes "len = length (concat pt_iov)" "length pt_iov \<le> 8"
  shows "tls13_seal_record_iov cs dir t ot pt_iov len out =
    (case tls13_seal_record dir t ot (concat pt_iov) (length out) of
       None \<Rightarrow> Refused
     | Some (dir', rec) \<Rightarrow> Sealed dir' (rec @ drop (length rec) out))"
proof -
  let ?pt = "concat pt_iov" and ?h = "record_header ot (len + 17)"
  obtain ct tag where e: "aead_chacha20_poly1305_seal (rd_key dir) (tls13_build_nonce dir) ?h (?pt @ [t]) = (ct, tag)" by fastforce
  have l: "length ct = len + 1" "length tag = 16" "length ?h = 5" using chacha.seal_length [OF e] assms(1) by (simp_all add: record_header_def)
  have i: "aead_chacha20_poly1305_seal_iov cs (rd_key dir) (tls13_build_nonce dir) ?h (pt_iov @ [[t]]) (len + 1) = (ct, tag)"
    using e by (simp add: seal_iov_pieces)
  show ?thesis
  proof (cases "len + 22 \<le> length out \<and> len \<le> 16384 \<and> rd_seq dir \<noteq> -1")
    case True
    have b: "blit (blit (blit out 0 ?h) 5 ct) (5 + (len + 1)) tag = (?h @ ct @ tag) @ drop (length (?h @ ct @ tag)) out"
      using l True by (simp add: blit_def)
    have "tls13_seal_record dir t ot ?pt (length out) = Some (dir\<lparr>rd_seq := rd_seq dir + 1\<rparr>, ?h @ ct @ tag)"
      using True e assms(1) by (simp add: tls13_seal_record_def TLS13_AEAD_TAG_LEN_def TLS13_RECORD_HEADER_LEN_def TLS13_MAX_PLAINTEXT_def Let_def add.commute)
    moreover have "tls13_seal_record_iov cs dir t ot pt_iov len out = Sealed (dir\<lparr>rd_seq := rd_seq dir + 1\<rparr>) (blit (blit (blit out 0 ?h) 5 ct) (5 + (len + 1)) tag)"
      using True i l assms(2) by (simp add: tls13_seal_record_iov_def TLS13_AEAD_TAG_LEN_def TLS13_RECORD_HEADER_LEN_def TLS13_MAX_PLAINTEXT_def
          PW_IOV_MAX_FRAGS_def Let_def add.commute blit_def)
    ultimately show ?thesis unfolding b by simp
  next
    case False
    then have "tls13_seal_record dir t ot ?pt (length out) = None" "tls13_seal_record_iov cs dir t ot pt_iov len out = Refused"
      using assms(1) by (auto simp: tls13_seal_record_def tls13_seal_record_iov_def TLS13_AEAD_TAG_LEN_def TLS13_RECORD_HEADER_LEN_def TLS13_MAX_PLAINTEXT_def Let_def)
    then show ?thesis by simp
  qed
qed

theorem seal_record_iov_same_witness:
  "let cs = \<lparr>cs_key = [], cs_nonce = [], cs_counter = 0, ks_carry = [], carry_off = 0\<rparr>;
       dir = \<lparr>rd_key = replicate 32 7, static_iv = replicate 12 9, rd_seq = 5\<rparr>
   in tls13_seal_record_iov cs dir 23 23 [[1], [], [2, 3]] 3 (replicate 100 0) =
        (case tls13_seal_record dir 23 23 [1, 2, 3] 100 of
           None \<Rightarrow> Refused
         | Some (dir', rec) \<Rightarrow> Sealed dir' (rec @ drop (length rec) (replicate 100 0)))"
  unfolding Let_def by (subst seal_record_iov_same) simp_all

text \<open>With a total that is too small for the fragments the code writes past its buffer.\<close>

lemma seal_record_iov_overrun:
  assumes "length (concat pt_iov) + 6 > length out" "len + 22 \<le> length out" "len \<le> 16384" "rd_seq dir \<noteq> -1" "length pt_iov \<le> 8"
  shows "tls13_seal_record_iov cs dir t ot pt_iov len out = Overrun"
proof -
  let ?h = "record_header ot (len + 17)"
  obtain ct tag where e: "aead_chacha20_poly1305_seal (rd_key dir) (tls13_build_nonce dir) ?h (concat pt_iov @ [t]) = (ct, tag)" by fastforce
  have l: "length ct = length (concat pt_iov) + 1" using chacha.seal_length [OF e] by simp
  have i: "aead_chacha20_poly1305_seal_iov cs (rd_key dir) (tls13_build_nonce dir) ?h (pt_iov @ [[t]]) (len + 1) = (ct, tag)"
    using e by (simp add: seal_iov_pieces)
  show ?thesis using i l assms by (simp add: tls13_seal_record_iov_def TLS13_AEAD_TAG_LEN_def TLS13_RECORD_HEADER_LEN_def TLS13_MAX_PLAINTEXT_def
      PW_IOV_MAX_FRAGS_def Let_def add.commute blit_def record_header_def)
qed

end
