(* ===== verification/Ticket_Store.thy ===== *)
theory Ticket_Store
  imports Key_Schedule
begin

text \<open>
  The server-side TLS session ticket store of \<open>userspace/tls/ticket_store.c\<close>: insertion with replacement and
  eviction, lookup with expiry, and the single-use flag for early data.  An id is the first \<open>id_len\<close> bytes of its array;
  the pointer a lookup returns is the index of the slot.
\<close>

section \<open>The code\<close>

record pw_tls_ticket =
  tk_valid :: bool
  ticket_id :: bytes
  tk_psk :: bytes
  age_add :: u32
  lifetime_s :: u32
  issued_at_ms :: u64
  max_early_data :: u32
  tk_used :: bool

definition PW_TLS_TICKET_ID_MAX :: nat where "PW_TLS_TICKET_ID_MAX = 64"
definition PW_TLS_TICKET_SLOTS :: nat where "PW_TLS_TICKET_SLOTS = 256"

definition zero_ticket :: pw_tls_ticket where
  "zero_ticket = \<lparr>tk_valid = False, ticket_id = [], tk_psk = replicate 32 0, age_add = 0, lifetime_s = 0, issued_at_ms = 0,
     max_early_data = 0, tk_used = False\<rparr>"

definition pw_tls_ticket_store_init :: "pw_tls_ticket list" where
  "pw_tls_ticket_store_init = replicate PW_TLS_TICKET_SLOTS zero_ticket"

definition pw_tls_ticket_invalidate :: "pw_tls_ticket \<Rightarrow> pw_tls_ticket" where
  "pw_tls_ticket_invalidate t = zero_ticket"

definition ticket_eq :: "pw_tls_ticket \<Rightarrow> bytes \<Rightarrow> bool" where
  "ticket_eq t tid =
     (if \<not> tk_valid t then False
      else if length (ticket_id t) \<noteq> length tid then False
      else foldl (\<lambda>acc i. acc OR (ticket_id t ! i XOR tid ! i)) 0 [0..<length tid] = 0)"

text \<open>The victim search over the slots from index \<open>i\<close> on.\<close>

primrec find_victim :: "bytes \<Rightarrow> pw_tls_ticket list \<Rightarrow> nat \<Rightarrow> nat option \<Rightarrow> u64 \<Rightarrow> nat option" where
  "find_victim tid [] i victim victim_age = victim"
| "find_victim tid (t # ts) i victim victim_age =
     (if ticket_eq t tid then Some i
      else if \<not> tk_valid t then Some i
      else if issued_at_ms t < victim_age then find_victim tid ts (i + 1) (Some i) (issued_at_ms t)
      else find_victim tid ts (i + 1) victim victim_age)"

definition new_ticket :: "bytes \<Rightarrow> bytes \<Rightarrow> u32 \<Rightarrow> u32 \<Rightarrow> u64 \<Rightarrow> u32 \<Rightarrow> pw_tls_ticket" where
  "new_ticket tid psk aa life issued early =
     \<lparr>tk_valid = True, ticket_id = tid, tk_psk = psk, age_add = aa, lifetime_s = life, issued_at_ms = issued,
      max_early_data = early, tk_used = False\<rparr>"

definition pw_tls_ticket_store_insert ::
    "pw_tls_ticket list \<Rightarrow> bytes \<Rightarrow> bytes \<Rightarrow> u32 \<Rightarrow> u32 \<Rightarrow> u64 \<Rightarrow> u32 \<Rightarrow> pw_tls_ticket list option" where
  "pw_tls_ticket_store_insert s tid psk aa life issued early =
     (if length tid = 0 \<or> length tid > PW_TLS_TICKET_ID_MAX then None
      else case find_victim tid s 0 None (-1) of
             None \<Rightarrow> None
           | Some v \<Rightarrow> Some (s[v := new_ticket tid psk aa life issued early]))"

definition expiry :: "pw_tls_ticket \<Rightarrow> u64" where
  "expiry t = issued_at_ms t + ucast (lifetime_s t) * 1000"

text \<open>The first slot with the id, if any.\<close>

primrec find_ticket :: "bytes \<Rightarrow> pw_tls_ticket list \<Rightarrow> nat \<Rightarrow> nat option" where
  "find_ticket tid [] i = None"
| "find_ticket tid (t # ts) i = (if \<not> ticket_eq t tid then find_ticket tid ts (i + 1) else Some i)"

definition pw_tls_ticket_store_lookup :: "pw_tls_ticket list \<Rightarrow> bytes \<Rightarrow> u64 \<Rightarrow> pw_tls_ticket list \<times> nat option" where
  "pw_tls_ticket_store_lookup s tid now_ms =
     (if length tid = 0 \<or> length tid > PW_TLS_TICKET_ID_MAX then (s, None)
      else case find_ticket tid s 0 of
             None \<Rightarrow> (s, None)
           | Some i \<Rightarrow>
               if expiry (s ! i) < now_ms then (s[i := pw_tls_ticket_invalidate (s ! i)], None)
               else (s, Some i))"

definition pw_tls_ticket_consume_for_0rtt :: "pw_tls_ticket \<Rightarrow> pw_tls_ticket option" where
  "pw_tls_ticket_consume_for_0rtt t =
     (if \<not> tk_valid t then None else if tk_used t then None else Some (t\<lparr>tk_used := True\<rparr>))"

definition pw_tls_ticket_can_early_data :: "pw_tls_ticket \<Rightarrow> bool" where
  "pw_tls_ticket_can_early_data t =
     (if \<not> tk_valid t then False else if tk_used t then False else max_early_data t > 0)"

section \<open>Searching\<close>

lemma ticket_eq_iff: "ticket_eq t i \<longleftrightarrow> tk_valid t \<and> ticket_id t = i"
proof -
  have "foldl (\<lambda>acc k. acc OR (ticket_id t ! k XOR i ! k)) 0 [0..<length i] = 0 \<longleftrightarrow> ticket_id t = i"
    if "length (ticket_id t) = length i"
    using crypto_consttime_eq_iff [OF that refl] by (simp add: crypto_consttime_eq_def)
  then show ?thesis by (auto simp: ticket_eq_def)
qed

lemma find_ticket_Some:
  "find_ticket x ts k = Some j \<longleftrightarrow> k \<le> j \<and> j < k + length ts \<and> ticket_eq (ts ! (j - k)) x \<and> (\<forall>i<j - k. \<not> ticket_eq (ts ! i) x)"
proof (induction ts arbitrary: k)
  case (Cons t ts)
  show ?case
  proof (cases "ticket_eq t x")
    case True
    then show ?thesis by (auto simp: nth_Cons' dest: spec [of _ 0])
  next
    case False
    have a: "(\<forall>i<j - k. \<not> ticket_eq ((t # ts) ! i) x) \<longleftrightarrow> (\<forall>i<j - Suc k. \<not> ticket_eq (ts ! i) x)" if "k < j"
      using that False by (auto simp: nth_Cons' less_Suc_eq_0_disj Suc_diff_Suc [symmetric])
    show ?thesis using False a by (cases "k = j") (auto simp: Cons.IH nth_Cons' Suc_le_eq)
  qed
qed simp

lemma find_ticket_None: "find_ticket x ts k = None \<longleftrightarrow> (\<forall>t \<in> set ts. \<not> ticket_eq t x)"
  by (induction ts arbitrary: k) auto

text \<open>A slot where the victim search stops.\<close>

abbreviation stops :: "bytes \<Rightarrow> pw_tls_ticket \<Rightarrow> bool" where
  "stops x t \<equiv> ticket_eq t x \<or> \<not> tk_valid t"

lemma find_victim_stop:
  "j < length ts \<Longrightarrow> stops x (ts ! j) \<Longrightarrow> \<forall>i<j. \<not> stops x (ts ! i) \<Longrightarrow> find_victim x ts k v a = Some (k + j)"
proof (induction ts arbitrary: j k v a)
  case (Cons t ts)
  show ?case
  proof (cases j)
    case 0
    then show ?thesis using Cons.prems by auto
  next
    case (Suc j')
    have "\<not> stops x t" using Cons.prems(3) Suc by (metis nth_Cons_0 zero_less_Suc)
    moreover have "\<forall>i<j'. \<not> stops x (ts ! i)" using Cons.prems(3) Suc by (metis Suc_less_eq nth_Cons_Suc)
    ultimately show ?thesis using Cons.IH [of j' "k + 1"] Cons.prems(1,2) Suc by simp
  qed
qed simp

text \<open>Without such a slot the search ends with the first of the smallest issue times below the start value.\<close>

definition oldest :: "pw_tls_ticket list \<Rightarrow> nat \<Rightarrow> bool" where
  "oldest ts j \<longleftrightarrow> j < length ts \<and> (\<forall>i<length ts. issued_at_ms (ts ! j) \<le> issued_at_ms (ts ! i)) \<and> (\<forall>i<j. issued_at_ms (ts ! j) < issued_at_ms (ts ! i))"

lemma find_victim_scan:
  assumes "\<forall>t \<in> set ts. \<not> stops x t"
  shows "if \<forall>t \<in> set ts. a \<le> issued_at_ms t then find_victim x ts k v a = v
    else \<exists>j. find_victim x ts k v a = Some (k + j) \<and> oldest ts j \<and> issued_at_ms (ts ! j) < a"
  using assms
proof (induction ts arbitrary: k v a)
  case (Cons t ts)
  have n: "\<not> stops x t" "\<forall>t \<in> set ts. \<not> stops x t" using Cons.prems by simp_all
  show ?case
  proof (cases "issued_at_ms t < a")
    case True
    have e: "find_victim x (t # ts) k v a = find_victim x ts (k + 1) (Some k) (issued_at_ms t)" using n(1) True by simp
    show ?thesis
    proof (cases "\<forall>u \<in> set ts. issued_at_ms t \<le> issued_at_ms u")
      case all: True
      then have "find_victim x (t # ts) k v a = Some (k + 0)" "oldest (t # ts) 0"
        using Cons.IH [OF n(2), of "issued_at_ms t" "k + 1" "Some k"] e by (auto simp: oldest_def nth_Cons')
      then show ?thesis using True by (simp only: set_simps) force
    next
      case False
      then obtain j where j: "find_victim x ts (k + 1) (Some k) (issued_at_ms t) = Some (k + 1 + j)" "oldest ts j" "issued_at_ms (ts ! j) < issued_at_ms t"
        using Cons.IH [OF n(2), of "issued_at_ms t" "k + 1" "Some k"] unfolding if_not_P [OF False] by blast
      have "oldest (t # ts) (Suc j)" using j(2,3) by (auto simp: oldest_def nth_Cons' less_Suc_eq_0_disj)
      then show ?thesis using True j e by (auto intro!: exI [of _ "Suc j"])
    qed
  next
    case False
    have e: "find_victim x (t # ts) k v a = find_victim x ts (k + 1) v a" using n(1) False by simp
    show ?thesis
    proof (cases "\<forall>u \<in> set ts. a \<le> issued_at_ms u")
      case True
      then show ?thesis using Cons.IH [OF n(2), of a "k + 1" v] e False by auto
    next
      case some: False
      then obtain j where j: "find_victim x ts (k + 1) v a = Some (k + 1 + j)" "oldest ts j" "issued_at_ms (ts ! j) < a"
        using Cons.IH [OF n(2), of a "k + 1" v] unfolding if_not_P [OF some] by blast
      have "oldest (t # ts) (Suc j)" using j(2,3) False by (auto simp: oldest_def nth_Cons' less_Suc_eq_0_disj)
      then show ?thesis using some j e by (auto intro!: exI [of _ "Suc j"])
    qed
  qed
qed simp

section \<open>Insertion and lookup\<close>

lemma victim_cases:
  assumes "find_victim x s 0 None (-1) = Some v"
  shows "v < length s \<and> (\<forall>i<v. \<not> ticket_eq (s ! i) x)
    \<and> (if \<exists>t \<in> set s. stops x t then stops x (s ! v) \<and> (\<forall>i<v. \<not> stops x (s ! i)) else oldest s v)"
proof (cases "\<exists>t \<in> set s. stops x t")
  case True
  then have "\<exists>j. j < length s \<and> stops x (s ! j)" by (auto simp: in_set_conv_nth)
  then obtain j where j: "j < length s" "stops x (s ! j)" "\<forall>i<j. \<not> stops x (s ! i)"
    using exists_least_iff [of "\<lambda>j. j < length s \<and> stops x (s ! j)"] by (metis order.strict_trans)
  then have "v = j" using find_victim_stop [OF j, of 0 None "-1"] assms by simp
  then show ?thesis using j unfolding if_P [OF True] by blast
next
  case False
  then have n: "\<forall>t \<in> set s. \<not> stops x t" by blast
  then have "oldest s v" using find_victim_scan [OF n, of "-1" 0 None] assms by (auto split: if_splits)
  then show ?thesis using n unfolding if_not_P [OF False] by (auto simp: oldest_def)
qed

lemma find_inserted:
  assumes "find_victim x s 0 None (-1) = Some v" "tk_valid t" "ticket_id t = x"
  shows "find_ticket x (s[v := t]) 0 = Some v"
  using victim_cases [OF assms(1)] assms(2,3) by (simp add: find_ticket_Some ticket_eq_iff)

text \<open>
  C17: A ticket that was inserted is found. After a successful insertion exactly one slot has changed: the first slot
  that holds the id or is free, or else the one with the oldest issue time. Until its lifetime is over the next lookup
  of the id returns that slot, with the new contents and not yet used.
\<close>

theorem ticket_insert_lookup:
  assumes "pw_tls_ticket_store_insert s x psk aa life issued early = Some s'"
    and "now \<le> expiry (new_ticket x psk aa life issued early)"
  shows "\<exists>v<length s. s' = s[v := new_ticket x psk aa life issued early]
    \<and> pw_tls_ticket_store_lookup s' x now = (s', Some v)
    \<and> (if \<exists>t \<in> set s. stops x t then stops x (s ! v) \<and> (\<forall>i<v. \<not> stops x (s ! i)) else oldest s v)"
proof -
  let ?t = "new_ticket x psk aa life issued early"
  obtain v where v: "find_victim x s 0 None (-1) = Some v" "s' = s[v := ?t]" "\<not> (length x = 0 \<or> length x > PW_TLS_TICKET_ID_MAX)"
    using assms(1) by (auto simp: pw_tls_ticket_store_insert_def split: if_splits option.splits)
  have "v < length s" using victim_cases [OF v(1)] by simp
  moreover have "find_ticket x s' 0 = Some v" unfolding v(2) by (rule find_inserted [OF v(1)]) (simp_all add: new_ticket_def)
  ultimately have "pw_tls_ticket_store_lookup s' x now = (s', Some v)"
    using v(3) assms(2) by (simp add: pw_tls_ticket_store_lookup_def v(2))
  then show ?thesis using victim_cases [OF v(1)] v(2) by blast
qed

theorem ticket_insert_lookup_witness:
  "\<exists>s'. pw_tls_ticket_store_insert pw_tls_ticket_store_init [1, 2] (replicate 32 9) 0 60 1000 0 = Some s'
    \<and> (\<exists>v. pw_tls_ticket_store_lookup s' [1, 2] 61000 = (s', Some v))"
proof -
  have e: "find_victim [1, 2] pw_tls_ticket_store_init 0 None (-1) = Some 0"
    by (simp add: pw_tls_ticket_store_init_def PW_TLS_TICKET_SLOTS_def numeral_eq_Suc zero_ticket_def)
  then obtain s' where s: "pw_tls_ticket_store_insert pw_tls_ticket_store_init [1, 2] (replicate 32 9) 0 60 1000 0 = Some s'"
    by (simp add: pw_tls_ticket_store_insert_def PW_TLS_TICKET_ID_MAX_def)
  have "(61000 :: u64) \<le> expiry (new_ticket [1, 2] (replicate 32 9) 0 60 1000 0)" by (simp add: expiry_def new_ticket_def)
  from ticket_insert_lookup [OF s this] s show ?thesis by blast
qed

text \<open>A lookup never returns an expired ticket, and returns only a slot that holds the id.\<close>

lemma ticket_lookup_sound:
  assumes "pw_tls_ticket_store_lookup s x now = (s', Some i)"
  shows "s' = s \<and> i < length s \<and> tk_valid (s ! i) \<and> ticket_id (s ! i) = x \<and> now \<le> expiry (s ! i)"
  using assms find_ticket_Some [of x s 0 i]
  by (auto simp: pw_tls_ticket_store_lookup_def ticket_eq_iff not_less split: if_splits option.splits)

text \<open>An insertion fails only for a bad id, or when every slot is taken by another id and issued at the largest time.\<close>

lemma ticket_insert_fails:
  "pw_tls_ticket_store_insert s x psk aa life issued early = None \<longleftrightarrow>
     length x = 0 \<or> length x > 64 \<or> (\<forall>t \<in> set s. tk_valid t \<and> ticket_id t \<noteq> x \<and> issued_at_ms t = -1)"
proof -
  have m: "(-1 :: u64) \<le> y \<longleftrightarrow> y = -1" for y by (metis word_n1_ge antisym order_refl)
  have "find_victim x s 0 None (-1) = None \<longleftrightarrow> (\<forall>t \<in> set s. tk_valid t \<and> ticket_id t \<noteq> x \<and> issued_at_ms t = -1)"
  proof (cases "\<exists>t \<in> set s. stops x t")
    case True
    then have "\<exists>j. j < length s \<and> stops x (s ! j)" by (auto simp: in_set_conv_nth)
    then obtain j where j: "j < length s" "stops x (s ! j)" "\<forall>i<j. \<not> stops x (s ! i)"
      using exists_least_iff [of "\<lambda>j. j < length s \<and> stops x (s ! j)"] by (metis order.strict_trans)
    show ?thesis using find_victim_stop [OF j, of 0 None "-1"] True by (auto simp: ticket_eq_iff)
  next
    case False
    then have n: "\<forall>t \<in> set s. \<not> stops x t" by blast
    then show ?thesis using find_victim_scan [OF n, of "-1" 0 None] by (auto simp: ticket_eq_iff m split: if_splits)
  qed
  then show ?thesis by (auto simp: pw_tls_ticket_store_insert_def PW_TLS_TICKET_ID_MAX_def split: option.splits)
qed

section \<open>A replaced ticket can come back\<close>

text \<open>
  C19: Inserting an id again does not always replace its ticket. When a free slot comes before the one that holds the
  id, the new ticket goes into the free slot and the old one stays valid. Once the new ticket expires, one lookup
  removes it and the next one returns the old ticket, with its old key and its early-data state.
\<close>

theorem ticket_replaced_revives:
  assumes "i < j" "j < length s" "\<not> tk_valid (s ! i)" "\<forall>k<i. \<not> stops x (s ! k)"
    and "tk_valid (s ! j)" "ticket_id (s ! j) = x" "\<forall>k<j. \<not> ticket_eq (s ! k) x"
    and "pw_tls_ticket_store_insert s x psk aa life issued early = Some s'"
    and "expiry (new_ticket x psk aa life issued early) < now" "now \<le> expiry (s ! j)"
  shows "tk_valid (s' ! i) \<and> ticket_id (s' ! i) = x \<and> tk_valid (s' ! j) \<and> ticket_id (s' ! j) = x
    \<and> (\<exists>s''. pw_tls_ticket_store_lookup s' x now = (s'', None)
          \<and> pw_tls_ticket_store_lookup s'' x now = (s'', Some j) \<and> s'' ! j = s ! j)"
proof -
  let ?t = "new_ticket x psk aa life issued early"
  have l: "\<not> (length x = 0 \<or> length x > PW_TLS_TICKET_ID_MAX)"
    using assms(8) by (auto simp: pw_tls_ticket_store_insert_def split: if_splits)
  have "find_victim x s 0 None (-1) = Some i" using find_victim_stop [of i s x 0 None "-1"] assms(1-4) by simp
  then have s: "s' = s[i := ?t]" "find_ticket x s' 0 = Some i"
    using assms(8) l find_inserted [of x s i ?t] by (auto simp: pw_tls_ticket_store_insert_def new_ticket_def split: if_splits)
  let ?s = "s[i := zero_ticket]"
  have "pw_tls_ticket_store_lookup s' x now = (?s, None)"
    using l s(2) assms(1,2,9) by (simp add: pw_tls_ticket_store_lookup_def s(1) pw_tls_ticket_invalidate_def)
  moreover have "find_ticket x ?s 0 = Some j"
    using assms(1,2,5,6,7) by (auto simp: find_ticket_Some nth_list_update ticket_eq_iff zero_ticket_def)
  then have "pw_tls_ticket_store_lookup ?s x now = (?s, Some j)"
    using l assms(1,10) by (simp add: pw_tls_ticket_store_lookup_def not_less)
  ultimately show ?thesis using assms(1,2,5,6) by (simp add: s(1) new_ticket_def)
qed

theorem ticket_replaced_revives_witness:
  "let old = new_ticket [7] (replicate 32 1) 0 1000 0 5;
       s = [zero_ticket, old] @ replicate 254 zero_ticket
   in \<exists>s' s''. pw_tls_ticket_store_insert s [7] (replicate 32 2) 0 10 0 0 = Some s'
        \<and> pw_tls_ticket_store_lookup s' [7] 20000 = (s'', None)
        \<and> pw_tls_ticket_store_lookup s'' [7] 20000 = (s'', Some 1) \<and> tk_psk (s'' ! 1) = replicate 32 1"
proof -
  let ?old = "new_ticket [7] (replicate 32 1) 0 1000 0 5"
  let ?s = "[zero_ticket, ?old] @ replicate 254 zero_ticket"
  obtain s' where i: "pw_tls_ticket_store_insert ?s [7] (replicate 32 2) 0 10 0 0 = Some s'"
    by (simp add: pw_tls_ticket_store_insert_def PW_TLS_TICKET_ID_MAX_def ticket_eq_iff zero_ticket_def)
  have "tk_valid (s' ! 0) \<and> ticket_id (s' ! 0) = [7] \<and> tk_valid (s' ! 1) \<and> ticket_id (s' ! 1) = [7]
    \<and> (\<exists>s''. pw_tls_ticket_store_lookup s' [7] 20000 = (s'', None)
          \<and> pw_tls_ticket_store_lookup s'' [7] 20000 = (s'', Some 1) \<and> s'' ! 1 = ?s ! 1)"
    by (rule ticket_replaced_revives [OF _ _ _ _ _ _ _ i]) (simp_all add: zero_ticket_def new_ticket_def ticket_eq_iff expiry_def)
  then show ?thesis unfolding Let_def using i by (auto simp: new_ticket_def)
qed

section \<open>Early data at most once\<close>

datatype ticket_op =
    TInsert bytes bytes u32 u32 u64 u32
  | TLookup bytes u64
  | TConsume nat
  | TInvalidate nat

datatype ticket_event = Issued nat | Consumed nat

text \<open>One call on the store, with the slot it issues a ticket in or consumes.\<close>

fun ticket_step :: "pw_tls_ticket list \<Rightarrow> ticket_op \<Rightarrow> pw_tls_ticket list \<times> ticket_event list" where
  "ticket_step s (TInsert x psk aa life issued early) =
     (case pw_tls_ticket_store_insert s x psk aa life issued early of
        None \<Rightarrow> (s, [])
      | Some s' \<Rightarrow> (s', [Issued (the (find_victim x s 0 None (-1)))]))"
| "ticket_step s (TLookup x now) = (fst (pw_tls_ticket_store_lookup s x now), [])"
| "ticket_step s (TConsume i) =
     (if i < length s then
        case pw_tls_ticket_consume_for_0rtt (s ! i) of
          None \<Rightarrow> (s, [])
        | Some t \<Rightarrow> (s[i := t], [Consumed i])
      else (s, []))"
| "ticket_step s (TInvalidate i) = (if i < length s then s[i := pw_tls_ticket_invalidate (s ! i)] else s, [])"

primrec ticket_run :: "pw_tls_ticket list \<Rightarrow> ticket_op list \<Rightarrow> pw_tls_ticket list \<times> ticket_event list" where
  "ticket_run s [] = (s, [])"
| "ticket_run s (op # ops) =
     (let (s, es) = ticket_step s op; (s, es') = ticket_run s ops in (s, es @ es'))"

definition spent :: "pw_tls_ticket list \<Rightarrow> nat \<Rightarrow> bool" where
  "spent s i \<longleftrightarrow> (i < length s \<longrightarrow> tk_valid (s ! i) \<longrightarrow> tk_used (s ! i))"

text \<open>A spent slot stays spent and is not consumed until a ticket is issued in it; consuming spends.\<close>

lemma spent_update: "spent s i \<Longrightarrow> (j = i \<Longrightarrow> tk_valid t \<Longrightarrow> tk_used t) \<Longrightarrow> spent (s[j := t]) i"
  by (cases "j = i") (simp_all add: spent_def)

lemma ticket_step_cases:
  assumes "ticket_step s op = (s', es)"
  obtains (none) "s' = s" "es = []"
    | (issue) v t where "s' = s[v := t]" "es = [Issued v]"
    | (wipe) j where "s' = s[j := zero_ticket]" "es = []"
    | (use) j where "s' = s[j := (s ! j)\<lparr>tk_used := True\<rparr>]" "es = [Consumed j]" "j < length s" "tk_valid (s ! j)" "\<not> tk_used (s ! j)"
proof (cases op)
  case (TInsert x psk aa life issued early)
  then show thesis using assms none issue by (auto simp: pw_tls_ticket_store_insert_def split: option.splits if_splits)
next
  case (TLookup x now)
  then show thesis using assms none wipe
    by (auto simp: pw_tls_ticket_store_lookup_def pw_tls_ticket_invalidate_def split: option.splits if_splits)
next
  case (TConsume j)
  then show thesis using assms none use by (auto simp: pw_tls_ticket_consume_for_0rtt_def split: option.splits if_splits)
next
  case (TInvalidate j)
  then show thesis using assms none wipe by (auto simp: pw_tls_ticket_invalidate_def split: if_splits)
qed

lemma ticket_step_spent:
  assumes "ticket_step s op = (s', es)"
  shows "spent s i \<Longrightarrow> Issued i \<notin> set es \<Longrightarrow> spent s' i \<and> Consumed i \<notin> set es"
    and "Consumed i \<in> set es \<Longrightarrow> spent s' i"
    and "length es \<le> 1"
proof -
  have z: "\<not> tk_valid zero_ticket" by (simp add: zero_ticket_def)
  show "spent s' i \<and> Consumed i \<notin> set es" if "spent s i" "Issued i \<notin> set es"
    using assms
  proof (cases rule: ticket_step_cases)
    case (issue v t)
    then show ?thesis using that by (simp add: spent_def)
  next
    case (use j)
    then have "j \<noteq> i" using that(1) by (auto simp: spent_def)
    then show ?thesis using that use by (simp add: spent_def)
  qed (use that z in \<open>auto intro: spent_update\<close>)
  show "spent s' i" if "Consumed i \<in> set es"
    using assms that by (cases rule: ticket_step_cases) (auto simp: spent_def)
  show "length es \<le> 1" using assms by (cases rule: ticket_step_cases) simp_all
qed

lemma ticket_run_spent:
  "ticket_run s ops = (s', es) \<Longrightarrow> spent s i \<Longrightarrow> es = xs @ Consumed i # ys \<Longrightarrow> Issued i \<in> set xs"
proof (induction ops arbitrary: s es xs)
  case (Cons op ops)
  obtain s1 e1 where e1: "ticket_step s op = (s1, e1)" by fastforce
  obtain e2 where e2: "ticket_run s1 ops = (s', e2)" "es = e1 @ e2" using Cons.prems(1) e1 by (auto split: prod.splits)
  show ?case
  proof (cases "Issued i \<in> set e1")
    case True
    then have "e1 = [Issued i]" using ticket_step_spent(3) [OF e1] by (cases e1) auto
    then show ?thesis using Cons.prems(3) e2(2) by (cases xs) auto
  next
    case False
    note st = ticket_step_spent(1) [OF e1 Cons.prems(2) False]
    have "\<exists>zs. xs = e1 @ zs \<and> e2 = zs @ Consumed i # ys"
      using Cons.prems(3) e2(2) st by (auto simp: append_eq_append_conv2 append_eq_Cons_conv Cons_eq_append_conv)
    then show ?thesis using Cons.IH [OF e2(1) conjunct1 [OF st]] by auto
  qed
qed simp

text \<open>
  C16: A ticket is used for early data at most once. Over any sequence of insertions, lookups, consumptions and
  invalidations on any store, between two successful consumptions of the same slot a new ticket was issued in it.
\<close>

theorem ticket_single_use:
  assumes "snd (ticket_run s ops) = xs @ Consumed i # ys @ Consumed i # zs"
  shows "Issued i \<in> set ys"
  using assms
proof (induction ops arbitrary: s xs)
  case (Cons op ops)
  note IH = Cons.IH
  obtain s1 e1 where e1: "ticket_step s op = (s1, e1)" by fastforce
  obtain s2 e2 where e2: "ticket_run s1 ops = (s2, e2)" by fastforce
  have e: "e1 @ e2 = xs @ Consumed i # ys @ Consumed i # zs" using Cons.prems e1 e2 by simp
  note l = ticket_step_spent(3) [OF e1]
  show ?case
  proof (cases e1)
    case Nil
    then show ?thesis using IH [of s1] e e2 by simp
  next
    case (Cons ev es)
    then have ev: "e1 = [ev]" using l by simp
    show ?thesis
    proof (cases xs)
      case Nil
      then have "ev = Consumed i" "e2 = ys @ Consumed i # zs" using e ev by simp_all
      then show ?thesis using ticket_run_spent [OF e2] ticket_step_spent(2) [OF e1, of i] ev by simp
    next
      case (Cons x xs')
      then show ?thesis using IH [of s1 xs'] e ev e2 by simp
    qed
  qed
qed simp

theorem ticket_single_use_witness:
  "snd (ticket_run [new_ticket [7] (replicate 32 1) 0 1000 0 5]
       [TConsume 0, TConsume 0, TInsert [7] (replicate 32 2) 0 10 0 0, TConsume 0]) = [Consumed 0, Issued 0, Consumed 0]
   \<and> Issued 0 \<in> set [Issued 0]"
proof -
  have e: "snd (ticket_run [new_ticket [7] (replicate 32 1) 0 1000 0 5]
      [TConsume 0, TConsume 0, TInsert [7] (replicate 32 2) 0 10 0 0, TConsume 0]) = [] @ Consumed 0 # [Issued 0] @ Consumed 0 # []"
    by (simp add: new_ticket_def pw_tls_ticket_consume_for_0rtt_def pw_tls_ticket_store_insert_def PW_TLS_TICKET_ID_MAX_def ticket_eq_iff)
  then show ?thesis using ticket_single_use [OF e] by simp
qed

end
