(* ===== verification/Spec2Isabelle.thy ===== *)
theory Spec2Isabelle
  imports Frames Flow Cc Stream_Rx Loss Transport_Params Udp Tcp_Stack Http_Spec Tls_Record Ticket_Store
begin

text \<open>
  A verification library for picoweb, a web server in C with its own user-space network stack.

  \<^bold>\<open>The program.\<close> Under \<open>src/src\<close> is the server: at startup it loads a document root into a hash table of prepared
  responses (\<open>jumptable.c\<close>, with \<open>compress.c\<close> for precompressed bodies), then it reads requests, parses them
  (\<open>http.c\<close>) and answers with an entry of the table. Under \<open>src/userspace\<close> is the network stack: IPv4 with TCP
  (\<open>tcp/\<close>) and UDP (\<open>udp/\<close>), a table of services per protocol and port (\<open>dispatch.c\<close>) that the TCP state machine calls,
  the TLS 1.3 record layer, key schedule and ticket store (\<open>tls/\<close>) on the cryptography of \<open>crypto/\<close>, and QUIC (\<open>quic/\<close>): variable-length
  integers, frames, transport parameters, crypto and data streams, flow control, congestion control, loss detection and keys.

  \<^bold>\<open>The theories.\<close> Definitions keep the names of the source. Every theory but the shared ones models the files it names.

  \<^item> \<open>Prelude\<close> holds the types of words and bytes, big-endian numbers and list lemmas; \<open>Codec\<close> the contract of a
    prefix-free encoder and decoder (\<open>prefix_codec\<close>); \<open>Reassembly\<close> the contract of a buffer that is filled in any order
    (\<open>reassembler\<close>); \<open>Block_Stream\<close> the contract of an operation that consumes a byte stream block by block (\<open>block_stream\<close>).
  \<^item> \<open>Varint\<close> (\<open>quic/varint.c\<close>), \<open>Frames\<close> (\<open>quic/frames.c\<close>) and \<open>Transport_Params\<close> (\<open>quic/transport_params.c\<close>):
    encoders and decoders with every branch. Shown: encodings decode to what was encoded, also back to back, decoders never
    leave their input, and what they accept is well-formed. Transport parameters come back exactly when their integers
    fit a varint, since the encoder does not refuse larger ones.
  \<^item> \<open>Flow\<close>, \<open>Cc\<close>, \<open>Loss\<close> (\<open>quic/flow.c\<close>, \<open>cc.c\<close>, \<open>loss.c\<close>): state records and operations on 64-bit words. Shown over
    arbitrary runs: granted bytes never pass the limit, the congestion window keeps its floor and the division does not
    trap, acknowledgements free exactly the acknowledged and lost packets; and that the count of ack-eliciting packets leaks
    when the tracker overflows.
  \<^item> \<open>Crypto_Stream\<close> and \<open>Stream_Rx\<close> (\<open>quic/crypto_stream.c\<close>, \<open>stream.c\<close>): receive buffers with their bitmaps. Shown: they refine
    a partial map of received bytes, also what is left after a refused chunk; any order and repetition of slices delivers
    the stream; the final size is fixed.
  \<^item> \<open>Inet\<close>, \<open>Udp\<close> (\<open>tcp/ip.c\<close>, \<open>udp/udp.c\<close>): checksums, parsers and builders; a read outside the frame is an outcome of the parser.
    Shown: the checksum loop is the one's-complement sum, built segments parse back, and exactly when the TCP parser reads
    outside its frame.
  \<^item> \<open>Dispatch\<close> (\<open>dispatch.c\<close>, contract \<open>service_registry\<close>), \<open>Tcp\<close> and \<open>Tcp_Stack\<close> (\<open>tcp/tcp.c\<close>): windows, retransmission
    queue, sending, the connection state machine, connection table and timer. What services answer is an input of
    the operations. Shown over reachable stacks: the open-data-close life cycle of a service, queue and timeout bounds; of
    a connection: in-order delivery once it is established, the segmentation of a send, the reset rule of every state;
    and two defects, the reuse of a stale retransmission queue and unchecked data at the end of the handshake.
  \<^item> \<open>Util\<close> (\<open>src/util.c\<close>, \<open>src/simd.h\<close>), \<open>Compress\<close> (\<open>src/compress.c\<close>), \<open>Jumptable\<close> (\<open>src/jumptable.c\<close>, contract
    \<open>write_once_table\<close>), \<open>Http\<close> and \<open>Http_Spec\<close> (\<open>src/http.c\<close>, and the Accept-Encoding test of \<open>src/brotli.c\<close>): hashing, comparison
    and byte search including the SSE2 paths, the LZ codec, the table with its unbounded probe loop as a partial function, and the
    request parser and response selection. Shown: the codec round trips and its size bound is enough while the output is below \<open>2 ^ 31\<close> bytes; a table of the right size
    takes all entries and every lookup ends with the first one; accepted requests are exactly
    described, parsing is stable, and a served request always gets the response its host, path and method determine.
  \<^item> \<open>Sha256\<close>, \<open>Hkdf\<close>, \<open>Key_Schedule\<close> (\<open>crypto/sha256.c\<close>, \<open>hmac.c\<close>, \<open>hkdf.c\<close>, \<open>util.c\<close>, \<open>tls/keysched.c\<close>, \<open>quic/keys.c\<close>,
    \<open>quic/initial.c\<close>): the streaming hash as a \<open>block_stream\<close>, and everything derived from it. Shown: hash, MAC and expansion equal the
    definitions of their standards for any pieces; derived keys have the sizes of their arrays and different labels
    give different inputs; a Finished value is accepted exactly when it is the right one.
  \<^item> \<open>Chacha20\<close>, \<open>Poly1305\<close>, \<open>Poly1305_Spec\<close>, \<open>Aead\<close>, \<open>Tls_Record\<close> (\<open>crypto/chacha20.c\<close>, \<open>poly1305.c\<close>,
    \<open>chacha20_poly1305.c\<close>, \<open>tls/record.c\<close>): the cipher with its keystream carry, the authenticator on 26-bit limbs, the AEAD
    (contract \<open>aead\<close>) and the record layer over it. Shown: fragments do not matter to cipher, tag or record; the limb arithmetic never
    overflows and computes the polynomial modulo \<open>2 ^ 130 - 5\<close>; opening accepts exactly what sealing produces; runs of records
    round trip and never reuse a nonce.
  \<^item> \<open>Ticket_Store\<close> (\<open>tls/ticket_store.c\<close>): the slots and every operation. Shown: an inserted ticket is found until it expires,
    a ticket is consumed for early data at most once, and a replaced ticket can come back.

  \<^bold>\<open>How code is modelled.\<close> A struct is a record, an enum or a set of return codes a datatype, machine integers are words where
  they can wrap and naturals where the code bounds them (sizes and counts below a checked capacity). A pointer and a length into a
  read-only buffer is the byte list; an output buffer is the list written so far with its capacity, or the whole
  buffer where the position of a write depends on arguments. Errors are \<open>None\<close> or constructors of a
  result type. Loops are recursive functions with a termination proof by their remaining input; the probe loop of
  the response table, which need not end, is a \<open>partial_function\<close> over options, and the theorems show that it returns. No
  definition uses fuel. Code that the sources only call is a parameter: the answers of services in \<open>Tcp_Stack\<close> and the data
  callback of the single-port mode. Uninitialised locals are parameters as well, and results are shown not to depend on them.

  \<^bold>\<open>Not modelled.\<close> Event loops, system calls and back ends (\<open>server*.c\<close>, \<open>main.c\<close>, \<open>io/\<close>, \<open>xdp/\<close>), file loading
  (\<open>preload.c\<close>, \<open>static_pack.c\<close>, the scan of \<open>jumptable.c\<close>) and memory pools are I/O and placement around the modelled parts. The
  SHA-NI, ARMv8 and SSE2 variants of hash and cipher and the NEON paths are selected at startup and not modelled. Public-key
  cryptography (\<open>x25519.c\<close>, \<open>ed25519.c\<close>, \<open>p256.c\<close>, \<open>ecdsa.c\<close>, \<open>rsa.c\<close>) needs field and curve theories that the library does not
  have; with it the TLS engine and handshake, certificates, and the QUIC connection and packet protection, whose AES-GCM is not modelled, stay outside.
  QPACK, HTTP/3, the brotli codec, the administrative API, the embedded VM and the write-ahead-log database are separate programs
  within the repository that the HTTP/1.1 and transport core does not depend on.
\<close>

end
